(* ===== verification/Json_Value.thy ===== *)
theory Json_Value
  imports Prelude
begin

text \<open>
  Decoded JSON values and the checks of \<open>internal/contracts/canonical.go\<close>, \<open>raw.go\<close> and the
  accessors of \<open>schema.go\<close>.  A Go value of type \<open>any\<close> produced by \<open>json.Unmarshal\<close> is a
  \<open>json\<close>; \<open>nil\<close> is \<open>JNull\<close>.  A \<open>float64\<close> is an exact rational or one of the non-finite values
  (the sign of zero is not kept: Go's comparisons do not see it and the canonical form prints
  both zeros as 0).  A Go string is its list of bytes.
\<close>

section \<open>Values\<close>

datatype float64 = Finite rat | PosInf | NegInf | NaN

datatype json =
    JNull
  | JBool bool
  | JNum float64
  | JStr string
  | JArr "json list"
  | JObj "(string \<times> json) list"

text \<open>The error of a contract function: \<open>Error{Code}\<close>, or \<open>Panic\<close> where the Go code indexes
  outside a slice.\<close>

datatype contract_error = Failure (Code: string) | Panic

type_synonym 'a cresult = "contract_error + 'a"

definition failure :: "string \<Rightarrow> 'a cresult" where
  "failure code = Inl (Failure code)"

lemma failure_simps [simp]:
  "failure c \<noteq> Inr x" "Inr x \<noteq> failure c"
  "failure c = Inl e \<longleftrightarrow> e = Failure c" "Inl e = failure c \<longleftrightarrow> e = Failure c"
  "(failure c = failure d) \<longleftrightarrow> c = d"
  "ebind (failure c) f = failure c"
  by (auto simp: failure_def)

section \<open>Accessors\<close>

definition obj :: "json \<Rightarrow> (string \<times> json) list option" where
  "obj v = (case v of JObj m \<Rightarrow> Some m | _ \<Rightarrow> None)"

definition arr :: "json \<Rightarrow> json list option" where
  "arr v = (case v of JArr xs \<Rightarrow> Some xs | _ \<Rightarrow> None)"

definition str :: "json \<Rightarrow> string" where
  "str v = (case v of JStr s \<Rightarrow> s | _ \<Rightarrow> [])"

definition is_str :: "json \<Rightarrow> bool" where
  "is_str v = (case v of JStr s \<Rightarrow> True | _ \<Rightarrow> False)"

definition number :: "json \<Rightarrow> float64 \<Rightarrow> float64" where
  "number v defaultValue = (case v of JNum x \<Rightarrow> x | _ \<Rightarrow> defaultValue)"

text \<open>Indexing and ranging over a possibly nil map or slice.\<close>

definition members :: "json \<Rightarrow> (string \<times> json) list" where
  "members v = (case v of JObj m \<Rightarrow> m | _ \<Rightarrow> [])"

definition items :: "json \<Rightarrow> json list" where
  "items v = (case v of JArr xs \<Rightarrow> xs | _ \<Rightarrow> [])"

definition lookup_field :: "(string \<times> json) list \<Rightarrow> string \<Rightarrow> json" where
  "lookup_field m k = (case map_of m k of Some v \<Rightarrow> v | None \<Rightarrow> JNull)"

definition field :: "json \<Rightarrow> string \<Rightarrow> json" where
  "field v k = lookup_field (members v) k"

definition contains :: "json list \<Rightarrow> string \<Rightarrow> bool" where
  "contains a s = List.member a (JStr s)"

lemmas accessor_defs = obj_def arr_def str_def is_str_def number_def members_def items_def
  lookup_field_def field_def contains_def

declare accessor_defs [go_simps]

lemma size_items [termination_simp]: "x \<in> set (items v) \<Longrightarrow> size x < size v"
  by (cases v) (auto simp: items_def dest: size_list_estimation' [where f = size, OF _ order_refl])

lemma size_member [termination_simp]:
  "kv \<in> set m \<Longrightarrow> size (snd kv) < Suc (size_list (size_prod (\<lambda>x. 0) size) m)"
  by (induction m) auto

lemma size_members [termination_simp]: "kv \<in> set (members v) \<Longrightarrow> size (snd kv) < size v"
  by (cases v) (auto simp: members_def size_member)

lemma size_field_le: "size (field v k) \<le> size v"
proof (cases "map_of (members v) k")
  case None
  then show ?thesis by (cases v) (simp_all add: field_def lookup_field_def)
next
  case (Some w)
  then have "(k, w) \<in> set (members v)" by (rule map_of_in_set)
  then have "size (snd (k, w)) < size v" by (rule size_members)
  with Some show ?thesis by (simp add: field_def lookup_field_def)
qed

lemma json_induct [case_names Null Bool Num Str Arr Obj]:
  assumes "P JNull" "\<And>b. P (JBool b)" "\<And>x. P (JNum x)" "\<And>s. P (JStr s)"
    and "\<And>xs. (\<And>x. x \<in> set xs \<Longrightarrow> P x) \<Longrightarrow> P (JArr xs)"
    and "\<And>m. (\<And>kv. kv \<in> set m \<Longrightarrow> P (snd kv)) \<Longrightarrow> P (JObj m)"
  shows "P v"
proof (induction v rule: json.induct)
  case (JObj m)
  then show ?case using assms(6) by (metis snds.intros prod.collapse)
qed (use assms in auto)

text \<open>The values of Go's decoder: object members have distinct names, at every level.\<close>

fun wf_json :: "json \<Rightarrow> bool" where
  "wf_json (JArr xs) = (\<forall>x \<in> set xs. wf_json x)"
| "wf_json (JObj m) = (distinct (keys m) \<and> (\<forall>kv \<in> set m. wf_json (snd kv)))"
| "wf_json v = True"

section \<open>UTF-8\<close>

text \<open>\<open>utf8.ValidString\<close>: the well-formed byte sequences of the Unicode standard.\<close>

definition cont :: "int \<Rightarrow> bool" where
  "cont b \<longleftrightarrow> 128 \<le> b \<and> b \<le> 191"

fun utf8_valid :: "int list \<Rightarrow> bool" where
  "utf8_valid [] = True"
| "utf8_valid (b # bs) =
     (if b < 128 then utf8_valid bs
      else if b < 194 \<or> 244 < b then False
      else if b < 224 then (case bs of c # r \<Rightarrow> cont c \<and> utf8_valid r | _ \<Rightarrow> False)
      else if b < 240 then
        (case bs of c # d # r \<Rightarrow>
           cont c \<and> (b = 224 \<longrightarrow> 160 \<le> c) \<and> (b = 237 \<longrightarrow> c \<le> 159) \<and> cont d \<and> utf8_valid r
         | _ \<Rightarrow> False)
      else
        (case bs of c # d # e # r \<Rightarrow>
           cont c \<and> (b = 240 \<longrightarrow> 144 \<le> c) \<and> (b = 244 \<longrightarrow> c \<le> 143) \<and> cont d \<and> cont e \<and>
           utf8_valid r
         | _ \<Rightarrow> False))"

definition ValidString :: "string \<Rightarrow> bool" where
  "ValidString s = utf8_valid (map of_char s)"

section \<open>checkJSON\<close>

definition trunc_eq :: "rat \<Rightarrow> bool" where
  "trunc_eq x \<longleftrightarrow> of_int \<lfloor>x\<rfloor> = x"

definition checkNumber :: "float64 \<Rightarrow> bool" where
  "checkNumber x = (case x of
      Finite q \<Rightarrow> \<not> (trunc_eq q \<and> \<bar>q\<bar> > 9007199254740991)
    | _ \<Rightarrow> False)"

fun checkJSON :: "json \<Rightarrow> nat \<Rightarrow> unit cresult" where
  "checkJSON JNull depth = Inr ()"
| "checkJSON (JBool b) depth = Inr ()"
| "checkJSON (JStr x) depth = (if \<not> ValidString x then failure ''INVALID_JSON'' else Inr ())"
| "checkJSON (JNum x) depth = (if \<not> checkNumber x then failure ''INVALID_JSON'' else Inr ())"
| "checkJSON (JArr x) depth =
     (if depth \<ge> 32 then failure ''INVALID_JSON''
      else eforeach (\<lambda>item. checkJSON item (depth + 1)) x)"
| "checkJSON (JObj x) depth =
     (if depth \<ge> 32 then failure ''INVALID_JSON''
      else eforeach (\<lambda>kv. if \<not> ValidString (fst kv) then failure ''INVALID_JSON''
                         else checkJSON (snd kv) (depth + 1)) x)"

text \<open>The specification: every string and member name is UTF-8, every number is finite and no
  integer beyond the double-precision safe range, containers nest at most 32 deep.\<close>

fun clean :: "json \<Rightarrow> bool" where
  "clean (JStr s) = ValidString s"
| "clean (JNum x) = checkNumber x"
| "clean (JArr xs) = (\<forall>x \<in> set xs. clean x)"
| "clean (JObj m) = (\<forall>kv \<in> set m. ValidString (fst kv) \<and> clean (snd kv))"
| "clean v = True"

fun nesting :: "json \<Rightarrow> nat" where
  "nesting (JArr xs) = Suc (foldr max (map nesting xs) 0)"
| "nesting (JObj m) = Suc (foldr max (map (\<lambda>kv. nesting (snd kv)) m) 0)"
| "nesting v = 0"

lemma add_foldr_max_le:
  "a + foldr max (ns :: nat list) 0 \<le> b \<longleftrightarrow> a \<le> b \<and> (\<forall>n \<in> set ns. a + n \<le> b)"
  by (induction ns) (auto simp: max_def)

lemma checkJSON_error: "checkJSON v d = Inl e \<Longrightarrow> e = Failure ''INVALID_JSON''"
proof (induction v arbitrary: d rule: json_induct)
  case (Arr xs)
  then show ?case by (auto split: if_splits dest!: eforeach_Inl)
next
  case (Obj m)
  then show ?case by (auto split: if_splits dest!: eforeach_Inl)
qed (auto split: if_splits)

lemma nesting_Arr_le:
  "d + nesting (JArr xs) \<le> b \<longleftrightarrow> d < b \<and> (\<forall>x \<in> set xs. d + 1 + nesting x \<le> b)"
  using add_foldr_max_le [of "Suc d" "map nesting xs" b] by auto

lemma nesting_Obj_le:
  "d + nesting (JObj m) \<le> b \<longleftrightarrow> d < b \<and> (\<forall>kv \<in> set m. d + 1 + nesting (snd kv) \<le> b)"
  using add_foldr_max_le [of "Suc d" "map (\<lambda>kv. nesting (snd kv)) m" b] by auto

lemma checkJSON_iff:
  "checkJSON v d = Inr () \<longleftrightarrow> clean v \<and> (nesting v = 0 \<or> d + nesting v \<le> 32)"
proof (induction v arbitrary: d rule: json_induct)
  case (Arr xs)
  have "nesting (JArr xs) \<noteq> 0" by simp
  then show ?case using Arr by (auto simp: nesting_Arr_le simp del: nesting.simps)
next
  case (Obj m)
  have "nesting (JObj m) \<noteq> 0" by simp
  then show ?case using Obj
    by (fastforce simp: nesting_Obj_le simp del: nesting.simps split: if_splits)
qed auto

section \<open>Properties\<close>


end
