(* ===== verification/Json_Canonical.thy ===== *)
theory Json_Canonical
  imports Json_Value
begin

text \<open>
  Raw JSON text: the pre-parse guard of \<open>internal/contracts/raw.go\<close> and the canonicalisation
  pipeline of \<open>canonical.go\<close>.  The JSON tokeniser of the Go library, the third-party RFC 8785
  transformer, the SHA-256 function and the third-party JSON Schema validator (over the schema
  files embedded in the binary, and over a schema compiled at run time) are the fields of an
  \<open>externals\<close> record, an argument of every definition that calls them.
\<close>

section \<open>rawGuard\<close>

definition hex_digit :: "char \<Rightarrow> nat option" where
  "hex_digit c =
     (let n = of_char c in
      if 48 \<le> n \<and> n \<le> 57 then Some (n - 48)
      else if 97 \<le> n \<and> n \<le> 102 then Some (n - 87)
      else if 65 \<le> n \<and> n \<le> 70 then Some (n - 55)
      else None)"

text \<open>\<open>strconv.ParseUint(s, 16, 16)\<close> on the four-byte strings the guard cuts out.\<close>

fun ParseUint16 :: "string \<Rightarrow> nat \<Rightarrow> nat option" where
  "ParseUint16 [] acc = Some acc"
| "ParseUint16 (c # cs) acc =
     (case hex_digit c of None \<Rightarrow> None | Some d \<Rightarrow> ParseUint16 cs (16 * acc + d))"

text \<open>What follows a backslash inside a string: the text left after the escape, or the error.\<close>

definition escape_rest :: "string \<Rightarrow> string cresult" where
  "escape_rest cs =
     (case cs of
        [] \<Rightarrow> failure ''INVALID_JSON''
      | e # r \<Rightarrow>
          if e \<noteq> CHR ''u'' then Inr r
          else if length r < 4 then failure ''INVALID_JSON''
          else
            (case ParseUint16 (take 4 r) 0 of
               None \<Rightarrow> failure ''INVALID_JSON''
             | Some n \<Rightarrow>
                 if 56320 \<le> n \<and> n \<le> 57343 then failure ''INVALID_JSON''
                 else if 55296 \<le> n \<and> n \<le> 56319 then
                   (if length r < 10 \<or> r ! 4 \<noteq> CHR 0x5C \<or> r ! 5 \<noteq> CHR ''u''
                    then failure ''INVALID_JSON''
                    else
                      (case ParseUint16 (take 4 (drop 6 r)) 0 of
                         None \<Rightarrow> failure ''INVALID_JSON''
                       | Some low \<Rightarrow>
                           if low < 56320 \<or> low > 57343 then failure ''INVALID_JSON''
                           else Inr (drop 10 r)))
                 else Inr (drop 4 r)))"

lemma escape_rest_length: "escape_rest cs = Inr r \<Longrightarrow> length r < Suc (length cs)"
  by (auto simp: escape_rest_def split: list.splits if_splits option.splits)

text \<open>The loop of \<open>rawGuard\<close>: the unread bytes, the nesting depth and whether the loop is inside
  a string.\<close>

function rawGuard_loop :: "string \<Rightarrow> int \<Rightarrow> bool \<Rightarrow> unit cresult" where
  "rawGuard_loop [] depth quoted = Inr ()"
| "rawGuard_loop (c # cs) depth quoted =
     (if \<not> quoted then
        (if c = CHR 0x22 then rawGuard_loop cs depth True
         else if c = CHR ''{'' \<or> c = CHR ''['' then
           (if depth + 1 > 32 then failure ''INVALID_JSON'' else rawGuard_loop cs (depth + 1) quoted)
         else if c = CHR ''}'' \<or> c = CHR '']'' then rawGuard_loop cs (depth - 1) quoted
         else rawGuard_loop cs depth quoted)
      else if c = CHR 0x22 then rawGuard_loop cs depth False
      else if c \<noteq> CHR 0x5C then rawGuard_loop cs depth quoted
      else ebind (escape_rest cs) (\<lambda>r. rawGuard_loop r depth quoted))"
  by pat_completeness auto
termination
  by (relation "measure (\<lambda>(cs, d, q). length cs)") (simp_all add: escape_rest_length)

definition rawGuard :: "string \<Rightarrow> unit cresult" where
  "rawGuard raw = rawGuard_loop raw 0 False"

text \<open>The specification: a byte-by-byte scanner that tracks strings and escapes, and the depth it
  reaches on every prefix of the text.\<close>

record scan =
  depth :: int
  quoted :: bool
  escaped :: bool

definition scan_step :: "scan \<Rightarrow> char \<Rightarrow> scan" where
  "scan_step s c =
     (if escaped s then s\<lparr>escaped := False\<rparr>
      else if quoted s then
        (if c = CHR 0x22 then s\<lparr>quoted := False\<rparr>
         else if c = CHR 0x5C then s\<lparr>escaped := True\<rparr> else s)
      else if c = CHR 0x22 then s\<lparr>quoted := True\<rparr>
      else if c = CHR ''{'' \<or> c = CHR ''['' then s\<lparr>depth := depth s + 1\<rparr>
      else if c = CHR ''}'' \<or> c = CHR '']'' then s\<lparr>depth := depth s - 1\<rparr>
      else s)"

definition scan_depth :: "string \<Rightarrow> int" where
  "scan_depth raw = depth (foldl scan_step \<lparr>depth = 0, quoted = False, escaped = False\<rparr> raw)"

definition shallow :: "scan \<Rightarrow> string \<Rightarrow> bool" where
  "shallow s cs \<longleftrightarrow> (\<forall>n. depth (foldl scan_step s (take n cs)) \<le> 32)"

lemma shallow_Nil [simp]: "shallow s [] \<longleftrightarrow> depth s \<le> 32"
  by (simp add: shallow_def)

lemma shallow_Cons: "shallow s (c # cs) \<longleftrightarrow> depth s \<le> 32 \<and> shallow (scan_step s c) cs"
proof -
  have "(\<forall>n. depth (foldl scan_step s (take n (c # cs))) \<le> 32) \<longleftrightarrow>
      depth s \<le> 32 \<and> (\<forall>n. depth (foldl scan_step s (take (Suc n) (c # cs))) \<le> 32)"
    by (metis foldl_Nil take0 not0_implies_Suc)
  then show ?thesis by (simp add: shallow_def)
qed

lemma shallow_plain_append:
  assumes "quoted s" "\<not> escaped s" "depth s \<le> 32"
    and "\<forall>c \<in> set xs. c \<noteq> CHR 0x22 \<and> c \<noteq> CHR 0x5C"
  shows "shallow s (xs @ ys) \<longleftrightarrow> shallow s ys"
  using assms(4)
proof (induction xs)
  case (Cons c xs)
  then have "scan_step s c = s" using assms(1,2) by (simp add: scan_step_def)
  with Cons assms(3) show ?case by (simp add: shallow_Cons)
qed simp

lemma hex_digit_plain: "hex_digit c = Some d \<Longrightarrow> c \<noteq> CHR 0x22 \<and> c \<noteq> CHR 0x5C"
  by (auto simp: hex_digit_def)

lemma ParseUint16_plain:
  "ParseUint16 cs acc = Some n \<Longrightarrow> \<forall>c \<in> set cs. c \<noteq> CHR 0x22 \<and> c \<noteq> CHR 0x5C"
  by (induction cs acc rule: ParseUint16.induct)
    (auto simp: hex_digit_plain split: option.splits)

definition plain :: "string \<Rightarrow> bool" where
  "plain cs \<longleftrightarrow> (\<forall>c \<in> set cs. c \<noteq> CHR 0x22 \<and> c \<noteq> CHR 0x5C)"

lemma escape_rest_split:
  assumes "escape_rest cs = Inr r"
  shows "\<exists>e m. cs = e # m @ r \<and>
    (plain m \<or> (\<exists>m1 m2. m = m1 @ CHR 0x5C # CHR ''u'' # m2 \<and> plain m1 \<and> plain m2))"
proof -
  obtain e t where cs: "cs = e # t"
    using assms by (cases cs) (auto simp: escape_rest_def)
  show ?thesis
  proof (cases "e = CHR ''u''")
    case False
    with assms cs show ?thesis by (auto simp: escape_rest_def plain_def)
  next
    case True
    with assms cs obtain n where len: "4 \<le> length t" and n: "ParseUint16 (take 4 t) 0 = Some n"
      and r: "r = drop 4 t \<or> (10 \<le> length t \<and> t ! 4 = CHR 0x5C \<and> t ! 5 = CHR ''u'' \<and>
        (\<exists>low. ParseUint16 (take 4 (drop 6 t)) 0 = Some low) \<and> r = drop 10 t)"
      by (auto simp: escape_rest_def split: if_splits option.splits)
    have p1: "plain (take 4 t)" using ParseUint16_plain [OF n] by (simp add: plain_def)
    from r show ?thesis
    proof
      assume "r = drop 4 t"
      then have "cs = e # take 4 t @ r" using cs by simp
      with p1 show ?thesis by blast
    next
      assume a: "10 \<le> length t \<and> t ! 4 = CHR 0x5C \<and> t ! 5 = CHR ''u'' \<and>
        (\<exists>low. ParseUint16 (take 4 (drop 6 t)) 0 = Some low) \<and> r = drop 10 t"
      then have p2: "plain (take 4 (drop 6 t))"
        using ParseUint16_plain by (auto simp: plain_def)
      have "drop 4 t = t ! 4 # t ! 5 # drop 6 t"
        using a Cons_nth_drop_Suc [of 4 t] Cons_nth_drop_Suc [of 5 t] by simp
      moreover have "drop 6 t = take 4 (drop 6 t) @ drop 10 t"
        using append_take_drop_id [of 4 "drop 6 t"] by simp
      ultimately have "t = take 4 t @ CHR 0x5C # CHR ''u'' # take 4 (drop 6 t) @ drop 10 t"
        using a append_take_drop_id [of 4 t] by metis
      then have "cs = e # (take 4 t @ CHR 0x5C # CHR ''u'' # take 4 (drop 6 t)) @ r"
        using cs a by simp
      with p1 p2 show ?thesis by blast
    qed
  qed
qed

lemma shallow_escape:
  assumes "escape_rest cs = Inr r" "quoted s" "\<not> escaped s" "depth s \<le> 32" "shallow s r"
  shows "shallow s (CHR 0x5C # cs)"
proof -
  obtain e m where cs: "cs = e # m @ r" and m: "plain m \<or>
      (\<exists>m1 m2. m = m1 @ CHR 0x5C # CHR ''u'' # m2 \<and> plain m1 \<and> plain m2)"
    using escape_rest_split [OF assms(1)] by blast
  have esc: "shallow s (CHR 0x5C # x # ys) \<longleftrightarrow> shallow s ys" for x ys
    using assms(2-4) by (cases s) (simp add: shallow_Cons scan_step_def)
  have app: "plain xs \<Longrightarrow> shallow s (xs @ ys) \<longleftrightarrow> shallow s ys" for xs ys
    using shallow_plain_append [OF assms(2-4)] by (simp add: plain_def)
  have "shallow s (m @ r)" using m
  proof
    assume "\<exists>m1 m2. m = m1 @ CHR 0x5C # CHR ''u'' # m2 \<and> plain m1 \<and> plain m2"
    then show ?thesis using app esc assms(5) by auto
  qed (simp add: app assms(5))
  then show ?thesis by (simp add: cs esc)
qed

lemma rawGuard_loop_shallow:
  "rawGuard_loop cs d q = Inr () \<Longrightarrow> d \<le> 32 \<Longrightarrow>
    shallow \<lparr>depth = d, quoted = q, escaped = False\<rparr> cs"
proof (induction cs d q rule: rawGuard_loop.induct)
  case (2 c cs d q)
  show ?case
  proof (cases "q \<and> c = CHR 0x5C")
    case True
    then obtain r where r: "escape_rest cs = Inr r" and l: "rawGuard_loop r d q = Inr ()"
      using "2.prems" by auto
    then have "shallow \<lparr>depth = d, quoted = q, escaped = False\<rparr> r"
      using "2.IH"(7) "2.prems"(2) True by simp
    then show ?thesis using shallow_escape [OF r] True "2.prems"(2) by simp
  next
    case False
    then show ?thesis using 2
      by (auto simp: shallow_Cons scan_step_def split: if_splits)
  qed
qed simp

lemma rawGuard_loop_complete:
  "CHR 0x5C \<notin> set cs \<Longrightarrow> shallow \<lparr>depth = d, quoted = q, escaped = False\<rparr> cs \<Longrightarrow>
    rawGuard_loop cs d q = Inr ()"
proof (induction cs arbitrary: d q)
  case (Cons c cs)
  have "d + 1 \<le> 32" if "\<not> q" "c = CHR ''{'' \<or> c = CHR ''[''"
    using Cons.prems(2) that by (cases cs) (auto simp: shallow_Cons scan_step_def)
  then show ?case using Cons
    by (auto simp: shallow_Cons scan_step_def split: if_splits)
qed simp

lemma rawGuard_shallow: "rawGuard raw = Inr () \<Longrightarrow> scan_depth (take n raw) \<le> 32"
  using rawGuard_loop_shallow [of raw 0 False]
  by (simp add: rawGuard_def scan_depth_def shallow_def)

lemma rawGuard_no_escapes:
  "CHR 0x5C \<notin> set raw \<Longrightarrow> rawGuard raw = Inr () \<longleftrightarrow> (\<forall>n. scan_depth (take n raw) \<le> 32)"
  using rawGuard_loop_complete [of raw 0 False] rawGuard_shallow
  by (auto simp: rawGuard_def scan_depth_def shallow_def)

section \<open>The canonicalisation pipeline\<close>

record externals =
  json_Valid :: "string \<Rightarrow> bool"
  json_Marshal :: "json \<Rightarrow> string option"
  json_Unmarshal :: "string \<Rightarrow> json option"
  jcs_Transform :: "string \<Rightarrow> string option"
  sha256_hex :: "string \<Rightarrow> string"
  schema_file :: "json \<Rightarrow> string \<Rightarrow> bool"
  schema_compile :: "json \<Rightarrow> (json \<Rightarrow> bool) option"

definition transform :: "externals \<Rightarrow> string \<Rightarrow> string cresult" where
  "transform c raw =
     (if \<not> json_Valid c raw then failure ''INVALID_JSON''
      else
        (case jcs_Transform c (CHR ''['' # raw @ [CHR '']'']) of
           None \<Rightarrow> failure ''INVALID_JSON''
         | Some result \<Rightarrow>
             if length result < 2 then Inl Panic else Inr (butlast (tl result))))"

definition ParseJSON :: "externals \<Rightarrow> string \<Rightarrow> json cresult" where
  "ParseJSON c raw =
     ebind (rawGuard raw) (\<lambda>_.
       if \<not> ValidString raw then failure ''INVALID_JSON''
       else
         (case transform c raw of
            Inl Panic \<Rightarrow> Inl Panic
          | Inl e \<Rightarrow> failure ''INVALID_JSON''
          | Inr canonical \<Rightarrow>
              (case json_Unmarshal c canonical of
                 None \<Rightarrow> failure ''INVALID_JSON''
               | Some v \<Rightarrow> ebind (checkJSON v 0) (\<lambda>_. Inr v))))"

definition CanonicalizeFromJSON :: "externals \<Rightarrow> string \<Rightarrow> string cresult" where
  "CanonicalizeFromJSON c raw = ebind (ParseJSON c raw) (\<lambda>_. transform c raw)"

definition CanonicalizeGeneric :: "externals \<Rightarrow> json \<Rightarrow> string cresult" where
  "CanonicalizeGeneric c v =
     ebind (checkJSON v 0) (\<lambda>_.
       (case json_Marshal c v of
          None \<Rightarrow> failure ''INVALID_JSON''
        | Some raw \<Rightarrow> transform c raw))"

definition SHA256Hex :: "externals \<Rightarrow> string \<Rightarrow> string" where
  "SHA256Hex c data = sha256_hex c data"

definition Digest :: "externals \<Rightarrow> string \<Rightarrow> (string \<times> string) cresult" where
  "Digest c raw = ebind (CanonicalizeFromJSON c raw) (\<lambda>b. Inr (b, SHA256Hex c b))"

text \<open>Go code that drops the error of \<open>CanonicalizeGeneric\<close> reads its nil slice as the empty
  string.\<close>

definition canonical_or_empty :: "externals \<Rightarrow> json \<Rightarrow> string" where
  "canonical_or_empty c v = (case CanonicalizeGeneric c v of Inl _ \<Rightarrow> [] | Inr b \<Rightarrow> b)"

lemma transform_error:
  "transform c raw = Inl e \<Longrightarrow> e = Panic \<or> e = Failure ''INVALID_JSON''"
  by (auto simp: transform_def split: if_splits option.splits)

lemma ParseJSON_Inr:
  "ParseJSON c raw = Inr v \<Longrightarrow>
    rawGuard raw = Inr () \<and> ValidString raw \<and> clean v \<and> (nesting v = 0 \<or> nesting v \<le> 32)"
  by (auto simp: ParseJSON_def checkJSON_iff split: if_splits sum.splits option.splits
      contract_error.splits)

lemma CanonicalizeGeneric_deep:
  "32 < nesting v \<Longrightarrow> CanonicalizeGeneric c v = failure ''INVALID_JSON''"
proof -
  assume "32 < nesting v"
  then have "checkJSON v 0 \<noteq> Inr ()" by (simp add: checkJSON_iff)
  then obtain e where e: "checkJSON v 0 = Inl e" by (cases "checkJSON v 0") auto
  with checkJSON_error [OF e] show ?thesis by (simp add: CanonicalizeGeneric_def failure_def)
qed

section \<open>Properties\<close>

text \<open>C13: a document \<open>rawGuard\<close> lets through never opens more than 32 containers at once: after
  every prefix of its bytes, the nesting depth a scanner that knows string literals and escapes
  computes is at most 32, and the value decoded by \<open>ParseJSON\<close> nests at most 32 deep as well.\<close>

theorem rawGuard_bounds_depth:
  assumes "ParseJSON c raw = Inr v"
  shows "(\<forall>n. scan_depth (take n raw) \<le> 32) \<and> nesting v \<le> 32 \<and> clean v"
  using ParseJSON_Inr [OF assms] rawGuard_shallow by auto

text \<open>The hypothesis holds for the document \<open>[[]]\<close> with a library that decodes it.\<close>

definition sample_externals :: externals where
  "sample_externals = \<lparr> json_Valid = (\<lambda>_. True), json_Marshal = (\<lambda>_. Some ''[]''),
     json_Unmarshal = (\<lambda>_. Some (JArr [JArr []])), jcs_Transform = Some,
     sha256_hex = id, schema_file = (\<lambda>_ _. True), schema_compile = (\<lambda>_. Some (\<lambda>_. True)) \<rparr>"

theorem rawGuard_bounds_depth_witness:
  "ParseJSON sample_externals ''[[]]'' = Inr (JArr [JArr []]) \<and>
   (\<forall>n. scan_depth (take n ''[[]]'') \<le> 32)"
proof -
  have p: "ParseJSON sample_externals ''[[]]'' = Inr (JArr [JArr []])" by code_simp
  show ?thesis using p rawGuard_bounds_depth [OF p] by blast
qed

end
