(* ===== verification/Json_Mapping.thy ===== *)
theory Json_Mapping
  imports Json_Canonical
begin

text \<open>
  Input mapping and choice expressions of \<open>internal/contracts/mapping.go\<close>: JSON pointers, typed
  references to the run input and to step outputs, the mapping of a task input and the
  evaluation of a choice condition.
\<close>

section \<open>JSON pointers\<close>

text \<open>\<open>pointerPattern\<close>: the empty string, or a slash followed by bytes in which every tilde is
  followed by 0 or 1.\<close>

fun tilde_ok :: "string \<Rightarrow> bool" where
  "tilde_ok [] = True"
| "tilde_ok (c # cs) =
     (if c = CHR ''~'' then (case cs of d # r \<Rightarrow> (d = CHR ''0'' \<or> d = CHR ''1'') \<and> tilde_ok r | [] \<Rightarrow> False)
      else tilde_ok cs)"

definition pointerPattern :: "string \<Rightarrow> bool" where
  "pointerPattern s = (case s of [] \<Rightarrow> True | c # r \<Rightarrow> c = CHR ''/'' \<and> tilde_ok r)"

definition digit :: "char \<Rightarrow> bool" where
  "digit c \<longleftrightarrow> 48 \<le> (of_char c :: nat) \<and> (of_char c :: nat) \<le> 57"

definition indexPattern :: "string \<Rightarrow> bool" where
  "indexPattern s =
     (case s of [] \<Rightarrow> False | c # cs \<Rightarrow> (c = CHR ''0'' \<and> cs = []) \<or>
        (digit c \<and> c \<noteq> CHR ''0'' \<and> list_all digit cs))"

text \<open>\<open>strconv.Atoi\<close> on the strings \<open>indexPattern\<close> accepts: an error beyond the range of \<open>int\<close>.\<close>

fun digits_value :: "string \<Rightarrow> nat \<Rightarrow> nat" where
  "digits_value [] acc = acc"
| "digits_value (c # cs) acc = digits_value cs (10 * acc + (of_char c - 48))"

definition Atoi_index :: "string \<Rightarrow> nat option" where
  "Atoi_index s = (let n = digits_value s 0 in if int n > MaxInt64 then None else Some n)"

fun Split :: "string \<Rightarrow> string list" where
  "Split [] = [[]]"
| "Split (c # cs) =
     (if c = CHR ''/'' then [] # Split cs
      else (case Split cs of p # ps \<Rightarrow> (c # p) # ps | [] \<Rightarrow> [[c]]))"

text \<open>\<open>strings.ReplaceAll\<close> of a two-byte pattern by one byte.\<close>

fun ReplaceAll2 :: "char \<Rightarrow> char \<Rightarrow> char \<Rightarrow> string \<Rightarrow> string" where
  "ReplaceAll2 x y r (a # b # cs) =
     (if a = x \<and> b = y then r # ReplaceAll2 x y r cs else a # ReplaceAll2 x y r (b # cs))"
| "ReplaceAll2 x y r cs = cs"

definition unescape :: "string \<Rightarrow> string" where
  "unescape s = ReplaceAll2 (CHR ''~'') (CHR ''0'') (CHR ''~'')
     (ReplaceAll2 (CHR ''~'') (CHR ''1'') (CHR ''/'') s)"

definition PointerParts :: "json \<Rightarrow> string list cresult" where
  "PointerParts v =
     (case v of
        JStr s \<Rightarrow>
          if \<not> pointerPattern s then failure ''INPUT_MAPPING_ERROR''
          else if s = [] then Inr []
          else Inr (map unescape (Split (tl s)))
      | _ \<Rightarrow> failure ''INPUT_MAPPING_ERROR'')"

fun lookup_parts :: "json \<Rightarrow> string list \<Rightarrow> json option" where
  "lookup_parts current [] = Some current"
| "lookup_parts current (key # parts) =
     (case current of
        JObj x \<Rightarrow> (case map_of x key of None \<Rightarrow> None | Some w \<Rightarrow> lookup_parts w parts)
      | JArr x \<Rightarrow>
          if \<not> indexPattern key then None
          else (case Atoi_index key of
                  None \<Rightarrow> None
                | Some i \<Rightarrow> if i \<ge> length x then None else lookup_parts (x ! i) parts)
      | _ \<Rightarrow> None)"

definition Lookup :: "json \<Rightarrow> json \<Rightarrow> json option cresult" where
  "Lookup v pointer = ebind (PointerParts pointer) (\<lambda>parts. Inr (lookup_parts v parts))"

section \<open>References and input mapping\<close>

definition Reference :: "(string \<times> json) list \<Rightarrow> unit cresult" where
  "Reference v =
     (let ref = str (lookup_field v ''$ref'') in
      if ref \<noteq> ''run.input'' \<and> ref \<noteq> ''step.output'' then failure ''INPUT_MAPPING_ERROR''
      else if \<exists>key \<in> set (keys v). key \<noteq> ''$ref'' \<and> key \<noteq> ''pointer'' \<and> key \<noteq> ''default'' \<and>
              \<not> (key = ''stepId'' \<and> ref = ''step.output'')
        then failure ''INPUT_MAPPING_ERROR''
      else if ref = ''step.output'' \<and> \<not> is_str (lookup_field v ''stepId'')
        then failure ''INPUT_MAPPING_ERROR''
      else ebind (PointerParts (lookup_field v ''pointer'')) (\<lambda>_. Inr ()))"

text \<open>The value a reference stands for, or its default.\<close>

definition resolve :: "json \<Rightarrow> (string \<times> json) list \<Rightarrow> (string \<times> json) list \<Rightarrow> json cresult" where
  "resolve input outputs v =
     (let source = (if lookup_field v ''$ref'' = JStr ''step.output''
                    then map_of outputs (str (lookup_field v ''stepId'')) else Some input);
          fallback = (case map_of v ''default'' of
                        Some def \<Rightarrow> Inr def | None \<Rightarrow> failure ''INPUT_MAPPING_ERROR'')
      in case source of
           None \<Rightarrow> fallback
         | Some s \<Rightarrow> ebind (Lookup s (lookup_field v ''pointer''))
             (\<lambda>r. case r of Some val \<Rightarrow> Inr val | None \<Rightarrow> fallback))"

fun map_walk :: "json \<Rightarrow> (string \<times> json) list \<Rightarrow> json \<Rightarrow> json cresult" where
  "map_walk input outputs (JArr v) = ebind (emap (map_walk input outputs) v) (\<lambda>out. Inr (JArr out))"
| "map_walk input outputs (JObj v) =
     (case map_of v ''literal'' of
        Some literal \<Rightarrow>
          if length v \<noteq> 1 then failure ''INPUT_MAPPING_ERROR'' else Inr literal
      | None \<Rightarrow>
          if ''$ref'' \<in> set (keys v) then ebind (Reference v) (\<lambda>_. resolve input outputs v)
          else ebind (emap (\<lambda>kv. ebind (map_walk input outputs (snd kv)) (\<lambda>y. Inr (fst kv, y))) v)
                 (\<lambda>out. Inr (JObj out)))"
| "map_walk input outputs v = Inr v"

definition MapInput :: "json \<Rightarrow> json \<Rightarrow> (string \<times> json) list \<Rightarrow> json cresult" where
  "MapInput mapping input outputs =
     ebind (eforeach (\<lambda>v. checkJSON v 0) [mapping, input, JObj outputs])
       (\<lambda>_. map_walk input outputs mapping)"

section \<open>Choice expressions\<close>

fun float_eq :: "float64 \<Rightarrow> float64 \<Rightarrow> bool" where
  "float_eq NaN y = False"
| "float_eq x NaN = False"
| "float_eq x y = (x = y)"

fun float_less :: "float64 \<Rightarrow> float64 \<Rightarrow> bool" where
  "float_less (Finite x) (Finite y) = (x < y)"
| "float_less (Finite x) PosInf = True"
| "float_less NegInf (Finite y) = True"
| "float_less NegInf PosInf = True"
| "float_less x y = False"

definition float_le :: "float64 \<Rightarrow> float64 \<Rightarrow> bool" where
  "float_le x y \<longleftrightarrow> float_less x y \<or> float_eq x y"

definition choice_equal :: "externals \<Rightarrow> json \<Rightarrow> json \<Rightarrow> bool cresult" where
  "choice_equal c a b =
     (case (a, b) of
        (JNull, JNull) \<Rightarrow> Inr True
      | (JStr x, JStr y) \<Rightarrow> Inr (x = y)
      | (JBool x, JBool y) \<Rightarrow> Inr (x = y)
      | (JNum x, JNum y) \<Rightarrow> Inr (float_eq x y)
      | (JArr x, JArr y) \<Rightarrow> Inr (canonical_or_empty c a = canonical_or_empty c b)
      | (JObj x, JObj y) \<Rightarrow> Inr (canonical_or_empty c a = canonical_or_empty c b)
      | _ \<Rightarrow> failure ''INVALID_EXPRESSION'')"

definition choice_in :: "externals \<Rightarrow> json \<Rightarrow> json list \<Rightarrow> bool cresult" where
  "choice_in c a list =
     efold (\<lambda>x result. ebind (choice_equal c a x) (\<lambda>eq. Inr (result \<or> eq))) list False"

definition comparison_ops :: "string list" where
  "comparison_ops = [''eq'', ''neq'', ''gt'', ''gte'', ''lt'', ''lte'', ''in'']"

definition choice_compare :: "externals \<Rightarrow> string \<Rightarrow> json \<Rightarrow> json \<Rightarrow> bool cresult" where
  "choice_compare c op a b =
     (if op = ''in'' then
        (case b of JArr list \<Rightarrow> choice_in c a list | _ \<Rightarrow> failure ''INVALID_EXPRESSION'')
      else if op = ''eq'' \<or> op = ''neq'' then
        ebind (choice_equal c a b) (\<lambda>eq. Inr (if op = ''neq'' then \<not> eq else eq))
      else
        (case (a, b) of
           (JNum x, JNum y) \<Rightarrow>
             Inr (if op = ''gt'' then float_less y x
                  else if op = ''gte'' then float_le y x
                  else if op = ''lt'' then float_less x y
                  else float_le x y)
         | _ \<Rightarrow> failure ''INVALID_EXPRESSION''))"

definition choice_exists :: "json \<Rightarrow> (string \<times> json) list \<Rightarrow> json \<Rightarrow> bool cresult" where
  "choice_exists input outputs a =
     ebind (Reference (members a)) (\<lambda>_.
       (case MapInput (JObj (members a)) input outputs of
          Inl e \<Rightarrow> if e = Failure ''INPUT_MAPPING_ERROR'' then Inr False else Inl e
        | Inr _ \<Rightarrow> Inr True))"

definition combine :: "string \<Rightarrow> bool list \<Rightarrow> bool" where
  "combine op bs =
     fold (\<lambda>b result. if op = ''not'' then \<not> b
                      else if op = ''and'' then result \<and> b else result \<or> b) bs (op = ''and'')"

lemma size_arr_field [termination_simp]:
  "arr (field e k) = Some xs \<Longrightarrow> x \<in> set xs \<Longrightarrow> size x < size e"
  using size_items [of x "field e k"] size_field_le [of e k]
  by (auto simp: arr_def items_def split: json.splits)

fun choice_walk :: "externals \<Rightarrow> json \<Rightarrow> (string \<times> json) list \<Rightarrow> json \<Rightarrow> bool cresult" where
  "choice_walk c input outputs e =
     (let op = str (field e ''op'') in
      case arr (field e ''args'') of
        None \<Rightarrow> failure ''INVALID_EXPRESSION''
      | Some args \<Rightarrow>
          if length (members e) \<noteq> 2 then failure ''INVALID_EXPRESSION''
          else if op = ''and'' \<or> op = ''or'' \<or> op = ''not'' then
            (if (op = ''not'' \<and> length args \<noteq> 1) \<or> (op \<noteq> ''not'' \<and> length args < 1)
             then failure ''INVALID_EXPRESSION''
             else ebind (emap (choice_walk c input outputs) args) (\<lambda>bs. Inr (combine op bs)))
          else if op = ''exists'' then
            (if length args \<noteq> 1 then failure ''INVALID_EXPRESSION''
             else choice_exists input outputs (args ! 0))
          else if length args \<noteq> 2 then failure ''INVALID_EXPRESSION''
          else if op \<notin> set comparison_ops then failure ''INVALID_EXPRESSION''
          else
            ebind (MapInput (args ! 0) input outputs) (\<lambda>a.
            ebind (MapInput (args ! 1) input outputs) (\<lambda>b.
              choice_compare c op a b)))"

declare choice_walk.simps [simp del]

definition EvaluateChoice :: "externals \<Rightarrow> json \<Rightarrow> json \<Rightarrow> (string \<times> json) list \<Rightarrow> bool cresult" where
  "EvaluateChoice c expression input outputs =
     ebind (checkJSON expression 0) (\<lambda>_. choice_walk c input outputs expression)"

section \<open>Pointers: printing and parsing are inverse\<close>

definition escape :: "string \<Rightarrow> string" where
  "escape p = concat (map (\<lambda>c. if c = CHR ''~'' then ''~0'' else if c = CHR ''/'' then ''~1'' else [c]) p)"

definition render :: "string list \<Rightarrow> string" where
  "render parts = concat (map (\<lambda>p. CHR ''/'' # escape p) parts)"

lemma ReplaceAll2_other: "a \<noteq> x \<Longrightarrow> ReplaceAll2 x y r (a # cs) = a # ReplaceAll2 x y r cs"
  by (cases cs) auto

lemma escape_Cons: "escape (c # p) =
  (if c = CHR ''~'' then ''~0'' else if c = CHR ''/'' then ''~1'' else [c]) @ escape p"
  by (simp add: escape_def)

lemma escape_Nil [simp]: "escape [] = []"
  by (simp add: escape_def)

lemma slash_not_in_escape: "CHR ''/'' \<notin> set (escape p)"
  by (auto simp: escape_def)

lemma unescape_Cons:
  assumes "c \<noteq> CHR ''~''"
  shows "unescape (c # cs) = c # unescape cs"
  using assms by (simp add: unescape_def ReplaceAll2_other)

lemma unescape_tilde:
  "unescape (CHR ''~'' # CHR ''0'' # cs) = CHR ''~'' # unescape cs"
  "unescape (CHR ''~'' # CHR ''1'' # cs) = CHR ''/'' # unescape cs"
  by (simp_all add: unescape_def ReplaceAll2_other)

lemma unescape_Nil [simp]: "unescape [] = []"
  by (simp add: unescape_def)

lemma unescape_escape [simp]: "unescape (escape p) = p"
  by (induction p) (simp_all add: escape_Cons unescape_Cons unescape_tilde)

lemma escape_unescape: "tilde_ok s \<Longrightarrow> CHR ''/'' \<notin> set s \<Longrightarrow> escape (unescape s) = s"
proof (induction s rule: tilde_ok.induct)
  case (2 c cs)
  show ?case
  proof (cases "c = CHR ''~''")
    case True
    with 2 obtain d r where cs: "cs = d # r" and d: "d = CHR ''0'' \<or> d = CHR ''1''"
      by (cases cs) auto
    with 2 True have "escape (unescape r) = r" by simp
    then show ?thesis using True cs d by (auto simp: unescape_tilde escape_Cons)
  next
    case False
    with 2 show ?thesis by (auto simp: unescape_Cons escape_Cons)
  qed
qed simp

lemma tilde_ok_append: "tilde_ok s \<Longrightarrow> tilde_ok t \<Longrightarrow> tilde_ok (s @ t)"
proof (induction s rule: tilde_ok.induct)
  case (2 c cs)
  then show ?case by (cases cs) (auto split: if_splits)
qed simp

lemma tilde_ok_escape: "tilde_ok (escape p)"
  by (induction p) (simp_all add: escape_Cons)

lemma tilde_ok_render: "tilde_ok (render ps)"
  by (induction ps) (simp_all add: render_def tilde_ok_append tilde_ok_escape)

lemma Split_no_slash: "CHR ''/'' \<notin> set s \<Longrightarrow> Split s = [s]"
  by (induction s) auto

lemma Split_append_slash: "CHR ''/'' \<notin> set s \<Longrightarrow> Split (s @ CHR ''/'' # t) = s # Split t"
  by (induction s) auto

lemma Split_render: "Split (escape p @ render ps) = escape p # map escape ps"
proof (induction ps arbitrary: p)
  case Nil
  then show ?case by (simp add: render_def Split_no_slash slash_not_in_escape)
next
  case (Cons q ps)
  have "render (q # ps) = CHR ''/'' # (escape q @ render ps)" by (simp add: render_def)
  then show ?case using Cons by (simp add: Split_append_slash slash_not_in_escape)
qed

lemma PointerParts_render_all: "PointerParts (JStr (render parts)) = Inr parts"
proof (cases parts)
  case Nil
  then show ?thesis by (simp add: PointerParts_def render_def pointerPattern_def)
next
  case (Cons p ps)
  have r: "render (p # ps) = CHR ''/'' # (escape p @ render ps)" by (simp add: render_def)
  have "tilde_ok (escape p @ render ps)"
    by (intro tilde_ok_append tilde_ok_escape tilde_ok_render)
  then show ?thesis
    unfolding Cons r by (simp add: PointerParts_def pointerPattern_def Split_render comp_def)
qed

lemma Split_tilde_ok:
  assumes "tilde_ok s"
  shows "\<forall>p \<in> set (Split s). tilde_ok p"
  using assms
proof (induction s rule: tilde_ok.induct)
  case (2 c cs)
  show ?case
  proof (cases "c = CHR ''~''")
    case True
    with 2 obtain d r where cs: "cs = d # r" and d: "d = CHR ''0'' \<or> d = CHR ''1''" and "tilde_ok r"
      by (cases cs) auto
    with 2 True have "\<forall>p \<in> set (Split r). tilde_ok p" by simp
    then show ?thesis using True cs d by (cases "Split r") auto
  next
    case False
    with 2 show ?thesis by (cases "Split cs") auto
  qed
qed simp

lemma Split_slash_free: "\<forall>p \<in> set (Split s). CHR ''/'' \<notin> set p"
proof (induction s)
  case (Cons c cs)
  then show ?case by (cases "Split cs") auto
qed simp

lemma Split_join: "concat (map (\<lambda>p. CHR ''/'' # p) (Split s)) = CHR ''/'' # s"
proof (induction s)
  case (Cons c cs)
  then show ?case by (cases "Split cs") auto
qed simp

lemma render_PointerParts_all:
  assumes "PointerParts (JStr s) = Inr parts"
  shows "render parts = s"
proof (cases s)
  case Nil
  with assms show ?thesis by (simp add: PointerParts_def render_def pointerPattern_def)
next
  case (Cons c r)
  with assms have c: "c = CHR ''/''" and ok: "tilde_ok r" and parts: "parts = map unescape (Split r)"
    by (auto simp: PointerParts_def pointerPattern_def split: if_splits)
  have "map (\<lambda>p. CHR ''/'' # escape (unescape p)) (Split r) = map (\<lambda>p. CHR ''/'' # p) (Split r)"
    using Split_tilde_ok [OF ok] Split_slash_free [of r] by (intro map_cong) (auto simp: escape_unescape)
  then have "render parts = concat (map (\<lambda>p. CHR ''/'' # p) (Split r))"
    unfolding parts render_def by (simp only: map_map comp_def)
  also have "\<dots> = CHR ''/'' # r" by (rule Split_join)
  finally show ?thesis by (simp add: Cons c)
qed

lemma lookup_parts_append:
  "lookup_parts v (ps @ qs) = Option.bind (lookup_parts v ps) (\<lambda>w. lookup_parts w qs)"
proof (induction ps arbitrary: v)
  case (Cons p ps)
  then show ?case by (cases v) (simp_all split: option.split)
qed simp

section \<open>What a mapping reads, and when it succeeds\<close>

text \<open>The reference objects a mapping walks into, and its static shape.\<close>

fun map_refs :: "json \<Rightarrow> (string \<times> json) list list" where
  "map_refs (JArr v) = concat (map map_refs v)"
| "map_refs (JObj v) =
     (if ''literal'' \<in> set (keys v) then []
      else if ''$ref'' \<in> set (keys v) then [v]
      else concat (map (\<lambda>kv. map_refs (snd kv)) v))"
| "map_refs v = []"

fun mapping_ok :: "json \<Rightarrow> bool" where
  "mapping_ok (JArr v) = (\<forall>x \<in> set v. mapping_ok x)"
| "mapping_ok (JObj v) =
     (if ''literal'' \<in> set (keys v) then length v = 1
      else if ''$ref'' \<in> set (keys v) then Reference v = Inr ()
      else (\<forall>kv \<in> set v. mapping_ok (snd kv)))"
| "mapping_ok v = True"

definition is_step_ref :: "(string \<times> json) list \<Rightarrow> bool" where
  "is_step_ref r \<longleftrightarrow> lookup_field r ''$ref'' = JStr ''step.output''"

definition ref_step :: "(string \<times> json) list \<Rightarrow> string" where
  "ref_step r = str (lookup_field r ''stepId'')"

lemma map_of_literal_None: "map_of v k = None \<longleftrightarrow> k \<notin> set (keys v)"
  by (rule map_of_None_iff)

lemma Inr_ex_bind: "(\<exists>y. ebind r f = Inr y) \<longleftrightarrow> (\<exists>x y. r = Inr x \<and> f x = Inr y)"
  by auto

lemma map_refs_plain:
  "''literal'' \<notin> set (keys m) \<Longrightarrow> ''$ref'' \<notin> set (keys m) \<Longrightarrow>
     set (map_refs (JObj m)) = (\<Union>kv \<in> set m. set (map_refs (snd kv)))"
  by (simp del: set_map) simp

lemma map_walk_succeeds_iff:
  "(\<exists>r. map_walk input outputs v = Inr r) \<longleftrightarrow>
     mapping_ok v \<and> (\<forall>r \<in> set (map_refs v). \<exists>x. resolve input outputs r = Inr x)"
proof (induction v rule: json_induct)
  case (Arr xs)
  have "(\<exists>r. map_walk input outputs (JArr xs) = Inr r) \<longleftrightarrow>
      (\<exists>ys. emap (map_walk input outputs) xs = Inr ys)"
    by auto
  also have "\<dots> \<longleftrightarrow> (\<forall>x \<in> set xs. \<exists>y. map_walk input outputs x = Inr y)"
    by (rule emap_Inr_ex)
  finally show ?case using Arr by auto
next
  case (Obj m)
  show ?case
  proof (cases "''literal'' \<in> set (keys m)")
    case True
    then show ?thesis by (auto simp: map_of_None_iff split: option.splits)
  next
    case nolit: False
    then have none: "map_of m ''literal'' = None" unfolding map_of_None_iff .
    show ?thesis
    proof (cases "''$ref'' \<in> set (keys m)")
      case True
      with nolit none show ?thesis by (auto simp del: set_map)
    next
      case False
      let ?f = "\<lambda>kv. ebind (map_walk input outputs (snd kv)) (\<lambda>y. Inr (fst kv, y))"
      have "(\<exists>r. map_walk input outputs (JObj m) = Inr r) \<longleftrightarrow> (\<exists>ys. emap ?f m = Inr ys)"
        using none False by (auto simp del: set_map)
      also have "\<dots> \<longleftrightarrow> (\<forall>kv \<in> set m. \<exists>y. ?f kv = Inr y)"
        by (rule emap_Inr_ex)
      also have "\<dots> \<longleftrightarrow> (\<forall>kv \<in> set m. \<exists>y. map_walk input outputs (snd kv) = Inr y)"
        by auto
      also have "\<dots> \<longleftrightarrow> (\<forall>kv \<in> set m. mapping_ok (snd kv) \<and>
          (\<forall>r \<in> set (map_refs (snd kv)). \<exists>x. resolve input outputs r = Inr x))"
        using Obj by simp
      also have "\<dots> \<longleftrightarrow> mapping_ok (JObj m) \<and>
          (\<forall>r \<in> set (map_refs (JObj m)). \<exists>x. resolve input outputs r = Inr x)"
        using nolit False unfolding map_refs_plain [OF nolit False] by (auto simp del: set_map map_refs.simps)
      finally show ?thesis .
    qed
  qed
qed auto

lemma resolve_cong:
  "is_step_ref r \<Longrightarrow> map_of outputs (ref_step r) = map_of outputs' (ref_step r) \<Longrightarrow>
     resolve input outputs r = resolve input outputs' r"
  by (simp add: resolve_def is_step_ref_def ref_step_def)

lemma resolve_cong_run:
  "\<not> is_step_ref r \<Longrightarrow> resolve input outputs r = resolve input outputs' r"
  by (simp add: resolve_def is_step_ref_def)

lemma map_walk_frame:
  assumes "\<And>r. r \<in> set (map_refs v) \<Longrightarrow> is_step_ref r \<Longrightarrow>
      map_of outputs (ref_step r) = map_of outputs' (ref_step r)"
  shows "map_walk input outputs v = map_walk input outputs' v"
  using assms
proof (induction v rule: json_induct)
  case (Arr xs)
  then have "emap (map_walk input outputs) xs = emap (map_walk input outputs') xs"
    by (intro emap_cong) auto
  then show ?case by simp
next
  case (Obj m)
  show ?case
  proof (cases "map_of m ''literal''")
    case None
    then have nolit: "''literal'' \<notin> set (keys m)" unfolding map_of_None_iff .
    show ?thesis
    proof (cases "''$ref'' \<in> set (keys m)")
      case True
      with nolit have "map_refs (JObj m) = [m]" by simp
      then have "resolve input outputs m = resolve input outputs' m"
        using Obj.prems resolve_cong resolve_cong_run by (metis list.set_intros(1))
      with None True show ?thesis by (simp del: set_map)
    next
      case False
      note refs = map_refs_plain [OF nolit False]
      have "map_walk input outputs (snd kv) = map_walk input outputs' (snd kv)" if "kv \<in> set m" for kv
      proof (rule Obj.IH)
        show "kv \<in> set m" by (rule that)
        show "map_of outputs (ref_step r) = map_of outputs' (ref_step r)"
          if r: "r \<in> set (map_refs (snd kv))" "is_step_ref r" for r
        proof (rule Obj.prems)
          show "r \<in> set (map_refs (JObj m))" using r(1) \<open>kv \<in> set m\<close> unfolding refs by auto
        qed (rule r(2))
      qed
      then have "emap (\<lambda>kv. ebind (map_walk input outputs (snd kv)) (\<lambda>y. Inr (fst kv, y))) m =
          emap (\<lambda>kv. ebind (map_walk input outputs' (snd kv)) (\<lambda>y. Inr (fst kv, y))) m"
        by (intro emap_cong) auto
      with None False show ?thesis by (simp del: set_map)
    qed
  qed simp
qed auto

lemma PointerParts_error: "PointerParts v = Inl e \<Longrightarrow> e = Failure ''INPUT_MAPPING_ERROR''"
  by (auto simp: PointerParts_def split: json.splits if_splits)

lemma Reference_error: "Reference v = Inl e \<Longrightarrow> e = Failure ''INPUT_MAPPING_ERROR''"
  by (auto simp: Reference_def Let_def ebind_Inl_iff dest: PointerParts_error split: if_splits)

lemma resolve_error: "resolve input outputs v = Inl e \<Longrightarrow> e = Failure ''INPUT_MAPPING_ERROR''"
  by (auto simp: resolve_def Let_def Lookup_def ebind_Inl_iff dest: PointerParts_error
      split: if_splits option.splits)

lemma map_walk_error: "map_walk input outputs v = Inl e \<Longrightarrow> e = Failure ''INPUT_MAPPING_ERROR''"
proof (induction v arbitrary: e rule: json_induct)
  case (Arr xs)
  then show ?case by (auto simp: ebind_Inl_iff dest!: emap_Inl)
next
  case (Obj m)
  then show ?case
    by (auto simp: ebind_Inl_iff dest!: emap_Inl dest: Reference_error resolve_error
        split: option.splits if_splits)
qed auto

lemma Reference_pointer: "Reference v = Inr () \<Longrightarrow> \<exists>ps. PointerParts (lookup_field v ''pointer'') = Inr ps"
  by (auto simp: Reference_def Let_def split: if_splits)

text \<open>A reference resolves as soon as its source is present and its pointer leads somewhere, or it
  has a default.\<close>

lemma resolve_succeeds:
  assumes "PointerParts (lookup_field r ''pointer'') = Inr parts"
    and "''default'' \<in> set (keys r) \<or>
      (\<exists>src w. (if is_step_ref r then map_of outputs (ref_step r) else Some input) = Some src \<and>
        lookup_parts src parts = Some w)"
  shows "\<exists>x. resolve input outputs r = Inr x"
proof (cases "''default'' \<in> set (keys r)")
  case True
  then obtain d where "map_of r ''default'' = Some d" using map_of_Some_ex by fast
  then show ?thesis using assms(1)
    by (auto simp: resolve_def Let_def Lookup_def split: option.split)
next
  case False
  with assms show ?thesis
    by (auto simp: resolve_def Let_def Lookup_def is_step_ref_def ref_step_def split: if_splits)
qed

lemma mapping_ok_refs: "mapping_ok v \<Longrightarrow> r \<in> set (map_refs v) \<Longrightarrow> Reference r = Inr ()"
proof (induction v rule: json_induct)
  case (Obj m)
  show ?case
  proof (cases "''literal'' \<in> set (keys m)")
    case True
    with Obj.prems show ?thesis by (simp del: set_map)
  next
    case nolit: False
    show ?thesis
    proof (cases "''$ref'' \<in> set (keys m)")
      case True
      with nolit Obj.prems show ?thesis by (simp del: set_map)
    next
      case False
      from Obj.prems obtain kv where "kv \<in> set m" "r \<in> set (map_refs (snd kv))"
        unfolding map_refs_plain [OF nolit False] by blast
      moreover have "mapping_ok (snd kv)" using Obj.prems(1) nolit False \<open>kv \<in> set m\<close>
        by (simp del: set_map)
      ultimately show ?thesis using Obj.IH by blast
    qed
  qed
qed auto

lemma PointerParts_iff: "PointerParts v = Inr ps \<longleftrightarrow> v = JStr (render ps)"
proof (cases v)
  case (JStr s)
  then show ?thesis using PointerParts_render_all render_PointerParts_all by auto
qed (simp_all add: PointerParts_def)

lemma resolve_iff:
  assumes "Reference r = Inr ()"
  shows "(\<exists>x. resolve input outputs r = Inr x) \<longleftrightarrow> ''default'' \<in> set (keys r) \<or>
    (\<exists>src ps w. (if is_step_ref r then map_of outputs (ref_step r) else Some input) = Some src \<and>
       lookup_field r ''pointer'' = JStr (render ps) \<and> lookup_parts src ps = Some w)"
    (is "?L \<longleftrightarrow> ?D \<or> ?R")
proof -
  obtain ps where ps: "PointerParts (lookup_field r ''pointer'') = Inr ps"
    using Reference_pointer [OF assms] by blast
  have "?L" if "?D \<or> ?R"
  proof (rule resolve_succeeds [OF ps])
    show "?D \<or> (\<exists>src w. (if is_step_ref r then map_of outputs (ref_step r) else Some input) = Some src \<and>
        lookup_parts src ps = Some w)"
      using that ps unfolding PointerParts_iff [symmetric] by (metis sum.inject(2))
  qed
  moreover have "?R" if "?L" "\<not> ?D"
  proof -
    have "map_of r ''default'' = None" using that(2) unfolding map_of_None_iff .
    with that(1) ps show ?thesis
      unfolding PointerParts_iff [symmetric]
      by (auto simp: resolve_def Let_def Lookup_def is_step_ref_def ref_step_def
          split: option.splits if_splits)
  qed
  ultimately show ?thesis by blast
qed

section \<open>Properties\<close>

text \<open>C14: \<open>PointerParts\<close> and the RFC 6901 rendering are inverse to each other: a string parses to the
  reference tokens \<open>ps\<close> exactly when it is the rendering of \<open>ps\<close>; so every token list, with any
  bytes in its tokens, has one pointer, and a malformed pointer has none.\<close>

theorem PointerParts_render: "PointerParts (JStr s) = Inr ps \<longleftrightarrow> s = render ps"
  using PointerParts_render_all render_PointerParts_all by auto

text \<open>C15: input mapping reads nothing but what it names: if two sets of step outputs agree on every
  step a \<open>step.output\<close> reference of the mapping names, and both are acceptable values, \<open>MapInput\<close>
  returns the same input, or the same error, for both.\<close>

theorem MapInput_frame:
  assumes "checkJSON (JObj outputs) 0 = checkJSON (JObj outputs') 0"
    and "\<forall>r \<in> set (map_refs mapping). is_step_ref r \<longrightarrow>
      map_of outputs (ref_step r) = map_of outputs' (ref_step r)"
  shows "MapInput mapping input outputs = MapInput mapping input outputs'"
proof -
  have "map_walk input outputs mapping = map_walk input outputs' mapping"
    using assms(2) by (intro map_walk_frame) simp
  then show ?thesis using assms(1) by (simp add: MapInput_def)
qed

definition sample_mapping :: json where
  "sample_mapping = JObj [(''x'', JObj [(''$ref'', JStr ''step.output''), (''stepId'', JStr ''a''),
     (''pointer'', JStr ''/k'')])]"

theorem MapInput_frame_witness:
  "MapInput sample_mapping JNull [(''a'', JObj [(''k'', JBool True)])] =
     Inr (JObj [(''x'', JBool True)]) \<and>
   MapInput sample_mapping JNull [(''a'', JObj [(''k'', JBool True)]), (''b'', JNull)] =
     Inr (JObj [(''x'', JBool True)])"
proof -
  have "checkJSON (JObj [(''a'', JObj [(''k'', JBool True)])]) 0 =
      checkJSON (JObj [(''a'', JObj [(''k'', JBool True)]), (''b'', JNull)]) 0"
    by code_simp
  moreover have "\<forall>r \<in> set (map_refs sample_mapping). is_step_ref r \<longrightarrow>
      map_of [(''a'', JObj [(''k'', JBool True)])] (ref_step r) =
      map_of [(''a'', JObj [(''k'', JBool True)]), (''b'', JNull)] (ref_step r)"
    by code_simp
  ultimately have "MapInput sample_mapping JNull [(''a'', JObj [(''k'', JBool True)])] =
      MapInput sample_mapping JNull [(''a'', JObj [(''k'', JBool True)]), (''b'', JNull)]"
    by (rule MapInput_frame)
  moreover have "MapInput sample_mapping JNull [(''a'', JObj [(''k'', JBool True)])] =
      Inr (JObj [(''x'', JBool True)])"
    by code_simp
  ultimately show ?thesis by simp
qed

text \<open>C16: on acceptable values \<open>MapInput\<close> succeeds exactly when the mapping is well formed (a
  \<open>literal\<close> stands alone, every reference passes \<open>Reference\<close>) and each of its references resolves:
  its source is there and its pointer leads to a value, or it has a default.\<close>

theorem MapInput_succeeds_iff:
  "(\<exists>r. MapInput mapping input outputs = Inr r) \<longleftrightarrow>
     (\<forall>v \<in> {mapping, input, JObj outputs}. clean v \<and> nesting v \<le> 32) \<and> mapping_ok mapping \<and>
     (\<forall>r \<in> set (map_refs mapping). ''default'' \<in> set (keys r) \<or>
        (\<exists>src ps w. (if is_step_ref r then map_of outputs (ref_step r) else Some input) = Some src \<and>
           lookup_field r ''pointer'' = JStr (render ps) \<and> lookup_parts src ps = Some w))"
proof -
  have "(\<exists>r. MapInput mapping input outputs = Inr r) \<longleftrightarrow>
      (\<forall>v \<in> {mapping, input, JObj outputs}. checkJSON v 0 = Inr ()) \<and>
      (\<exists>r. map_walk input outputs mapping = Inr r)"
    by (simp add: MapInput_def)
  also have "\<dots> \<longleftrightarrow> (\<forall>v \<in> {mapping, input, JObj outputs}. clean v \<and> nesting v \<le> 32) \<and>
      mapping_ok mapping \<and> (\<forall>r \<in> set (map_refs mapping). \<exists>x. resolve input outputs r = Inr x)"
    unfolding map_walk_succeeds_iff checkJSON_iff by auto
  finally show ?thesis
    by (simp only: resolve_iff [OF mapping_ok_refs] cong: conj_cong ball_cong)
qed

theorem MapInput_succeeds_iff_witness:
  "(\<exists>r. MapInput sample_mapping JNull [(''a'', JObj [(''k'', JNull)])] = Inr r) \<and>
   MapInput sample_mapping JNull [(''a'', JObj [])] = failure ''INPUT_MAPPING_ERROR''"
proof
  have refs: "map_refs sample_mapping =
      [[(''$ref'', JStr ''step.output''), (''stepId'', JStr ''a''), (''pointer'', JStr ''/k'')]]"
    and step: "is_step_ref [(''$ref'', JStr ''step.output''), (''stepId'', JStr ''a''), (''pointer'', JStr ''/k'')]"
      "ref_step [(''$ref'', JStr ''step.output''), (''stepId'', JStr ''a''), (''pointer'', JStr ''/k'')] = ''a''"
      "lookup_field [(''$ref'', JStr ''step.output''), (''stepId'', JStr ''a''), (''pointer'', JStr ''/k'')]
         ''pointer'' = JStr (render [''k''])"
      "lookup_parts (JObj [(''k'', JNull)]) [''k''] = Some JNull"
    and ok: "mapping_ok sample_mapping"
      "\<forall>v \<in> {sample_mapping, JNull, JObj [(''a'', JObj [(''k'', JNull)])]}. clean v \<and> nesting v \<le> 32"
    by code_simp+
  show "\<exists>r. MapInput sample_mapping JNull [(''a'', JObj [(''k'', JNull)])] = Inr r"
    unfolding MapInput_succeeds_iff refs using ok step by (simp (no_asm_simp)) blast
  show "MapInput sample_mapping JNull [(''a'', JObj [])] = failure ''INPUT_MAPPING_ERROR''"
    by code_simp
qed

end
