(* ===== verification/Contract_Schema.thy ===== *)
theory Contract_Schema
  imports Json_Mapping
begin

text \<open>
  Payload schemas, task definitions and choice conditions as the control plane validates them:
  \<open>internal/contracts/schema.go\<close> and the first part of \<open>validator.go\<close>.  The JSON Schema engine
  itself is third-party; what the development needs of it is the locale \<open>schema_semantics\<close>,
  whose laws are the standard's meaning of \<open>type\<close>, \<open>required\<close>, \<open>properties\<close>, \<open>items\<close>, \<open>minItems\<close>
  and \<open>oneOf\<close>.
\<close>

section \<open>Schemas\<close>

definition ValidateAgainst :: "externals \<Rightarrow> json \<Rightarrow> string \<Rightarrow> bool" where
  "ValidateAgainst c v path = schema_file c v path"

text \<open>The discriminator test of \<open>ValidateSchema\<close>: some property of the first variant is a required
  constant of every variant, with as many distinct values as there are variants.\<close>

definition tag_of :: "externals \<Rightarrow> string \<Rightarrow> json \<Rightarrow> string option" where
  "tag_of c key variant =
     (case map_of (members (field (field variant ''properties'') key)) ''const'' of
        Some v \<Rightarrow>
          if contains (items (field variant ''required'')) key then Some (canonical_or_empty c v) else None
      | None \<Rightarrow> None)"

definition tagged_by :: "externals \<Rightarrow> json list \<Rightarrow> string \<Rightarrow> bool" where
  "tagged_by c variants key =
     ((\<forall>v \<in> set variants. tag_of c key v \<noteq> None) \<and>
      length (remdups (map (\<lambda>v. the (tag_of c key v)) variants)) = length variants)"

lemma size_field_Some [termination_simp]:
  "obj (field s k) = Some a \<Longrightarrow> size (field s k) < size s"
proof -
  assume a: "obj (field s k) = Some a"
  show ?thesis
  proof (cases "map_of (members s) k")
    case None
    with a show ?thesis by (simp add: field_def lookup_field_def obj_def)
  next
    case (Some w)
    then have "(k, w) \<in> set (members s)" by (rule map_of_in_set)
    then have "size w < size s" using size_members by fastforce
    with Some show ?thesis by (simp add: field_def lookup_field_def)
  qed
qed

lemma size_members_field [termination_simp]:
  "kv \<in> set (members (field s k)) \<Longrightarrow> size (snd kv) < size s"
  using size_members [of kv "field s k"] size_field_le [of s k] by simp

text \<open>\<open>visit\<close> on a nil map finds no keyword.\<close>

fun schema_visit :: "externals \<Rightarrow> json \<Rightarrow> unit cresult" where
  "schema_visit c s =
     (if obj s = None then Inr ()
      else
     ebind (case arr (field s ''oneOf'') of
              None \<Rightarrow> Inr ()
            | Some variants \<Rightarrow>
                if variants = [] then Inl Panic
                else if \<not> (\<exists>key \<in> set (keys (members (field (hd variants) ''properties''))). tagged_by c variants key)
                  then failure ''UNSUPPORTED_SCHEMA''
                else eforeach (schema_visit c) variants) (\<lambda>_.
     ebind (eforeach (\<lambda>kv. schema_visit c (snd kv)) (members (field s ''properties''))) (\<lambda>_.
     ebind (case obj (field s ''items'') of
              None \<Rightarrow> Inr () | Some a \<Rightarrow> schema_visit c (field s ''items'')) (\<lambda>_.
       (case obj (field s ''additionalProperties'') of
              None \<Rightarrow> Inr () | Some a \<Rightarrow> schema_visit c (field s ''additionalProperties''))))))"

declare schema_visit.simps [simp del]

definition ValidateSchema :: "externals \<Rightarrow> json \<Rightarrow> unit cresult" where
  "ValidateSchema c v =
     ebind (checkJSON v 0) (\<lambda>_.
     ebind (CanonicalizeGeneric c v) (\<lambda>compact.
       if int (length compact) > 65536 then failure ''SCHEMA_SIZE_EXCEEDED''
       else if \<not> ValidateAgainst c v ''manifest/payload-schema.schema.json''
         then failure ''UNSUPPORTED_SCHEMA''
       else schema_visit c v))"

definition ValidatePayload :: "externals \<Rightarrow> json \<Rightarrow> json \<Rightarrow> unit cresult" where
  "ValidatePayload c schema v =
     ebind (ValidateSchema c schema) (\<lambda>_.
     ebind (checkJSON v 0) (\<lambda>_.
       (case schema_compile c schema of
          None \<Rightarrow> failure ''UNSUPPORTED_SCHEMA''
        | Some validate \<Rightarrow>
            if validate v then Inr () else failure ''SCHEMA_VALIDATION_ERROR'')))"

section \<open>Tasks\<close>

fun float_add :: "float64 \<Rightarrow> float64 \<Rightarrow> float64" where
  "float_add (Finite x) (Finite y) = Finite (x + y)"
| "float_add NaN y = NaN"
| "float_add x NaN = NaN"
| "float_add PosInf NegInf = NaN"
| "float_add NegInf PosInf = NaN"
| "float_add PosInf y = PosInf"
| "float_add x PosInf = PosInf"
| "float_add NegInf y = NegInf"
| "float_add x NegInf = NegInf"

definition ValidateTask :: "externals \<Rightarrow> json \<Rightarrow> unit cresult" where
  "ValidateTask c task =
     ebind (checkJSON task 0) (\<lambda>_.
       if \<not> ValidateAgainst c task ''manifest/task.schema.json'' then failure ''INVALID_TASK''
       else
         ebind (eforeach (\<lambda>key. ValidateSchema c (field task key)) [''inputSchema'', ''outputSchema'']) (\<lambda>_.
           (let retry = field task ''retry'' in
            if float_less (number (field retry ''maxDelayMs'') (Finite 30000))
                 (number (field retry ''initialDelayMs'') (Finite 1000))
              then failure ''INVALID_TASK''
            else if field task ''recovery'' = JStr ''idempotent'' \<and>
                float_less (number (field task ''idempotencyWindowMs'') (Finite 0))
                  (float_add (Finite 5000) (number (field task ''timeoutMs'') (Finite 300000)))
              then failure ''INVALID_TASK''
            else Inr ())))"

text \<open>Assignment to a key of a Go map.\<close>

definition put :: "(string \<times> json) list \<Rightarrow> string \<Rightarrow> json \<Rightarrow> (string \<times> json) list" where
  "put m k v = (if k \<in> set (keys m) then map (\<lambda>kv. if fst kv = k then (k, v) else kv) m else m @ [(k, v)])"

definition NormalizeTask :: "externals \<Rightarrow> json \<Rightarrow> json cresult" where
  "NormalizeTask c task =
     ebind (checkJSON task 0) (\<lambda>_.
     ebind (ValidateTask c task) (\<lambda>_.
       (let out = members task;
            out = put out ''timeoutMs'' (JNum (number (lookup_field out ''timeoutMs'') (Finite 300000)));
            retry = [(''maxAttempts'', JNum (Finite 3)), (''initialDelayMs'', JNum (Finite 1000)),
                     (''maxDelayMs'', JNum (Finite 30000))];
            retry = fold (\<lambda>kv r. put r (fst kv) (snd kv)) (members (lookup_field out ''retry'')) retry
        in Inr (JObj (put out ''retry'' (JObj retry))))))"

section \<open>guaranteed: a pointer every conforming value has\<close>

fun guaranteed :: "json \<Rightarrow> string list \<Rightarrow> bool" where
  "guaranteed schema [] = True"
| "guaranteed schema (key # parts) =
     (case arr (field schema ''oneOf'') of
        Some variants \<Rightarrow> (\<forall>v \<in> set variants. guaranteed v (key # parts))
      | None \<Rightarrow>
          if field schema ''type'' = JStr ''object'' then
            (case map_of (members (field schema ''properties'')) key of
               None \<Rightarrow> False
             | Some v \<Rightarrow> contains (items (field schema ''required'')) key \<and> guaranteed v parts)
          else if field schema ''type'' = JStr ''array'' then
            indexPattern key \<and>
            (case Atoi_index key of
               None \<Rightarrow> False
             | Some i \<Rightarrow>
                 float_less (Finite (of_nat i)) (number (field schema ''minItems'') (Finite 0)) \<and>
                 field schema ''items'' \<noteq> JNull \<and> guaranteed (field schema ''items'') parts)
          else False)"

declare guaranteed.simps(2) [simp del]

section \<open>Choice conditions\<close>

definition ancestor_ref :: "string list option \<Rightarrow> (string \<times> json) list \<Rightarrow> bool" where
  "ancestor_ref allowedAncestors ref =
     (lookup_field ref ''$ref'' = JStr ''step.output'' \<longrightarrow>
      (case allowedAncestors of
         None \<Rightarrow> False | Some a \<Rightarrow> List.member a (str (lookup_field ref ''stepId''))))"

definition checkArg :: "string list option \<Rightarrow> json \<Rightarrow> unit cresult" where
  "checkArg allowedAncestors a =
     (case obj a of
        None \<Rightarrow> Inr ()
      | Some aObj \<Rightarrow>
          if ''$ref'' \<in> set (keys aObj) then
            (if Reference aObj \<noteq> Inr () then failure ''INVALID_EXPRESSION''
             else if \<not> ancestor_ref allowedAncestors aObj then failure ''INVALID_EXPRESSION''
             else Inr ())
          else if ''literal'' \<in> set (keys aObj) then
            (if length aObj \<noteq> 1 then failure ''INVALID_EXPRESSION'' else Inr ())
          else Inr ())"

fun ValidateChoiceExpression :: "json \<Rightarrow> string list option \<Rightarrow> unit cresult" where
  "ValidateChoiceExpression expr allowedAncestors =
     (if obj expr = None \<or> length (members expr) \<noteq> 2 then failure ''INVALID_EXPRESSION''
      else
        (let op = str (field expr ''op'') in
         case arr (field expr ''args'') of
           None \<Rightarrow> failure ''INVALID_EXPRESSION''
         | Some args \<Rightarrow>
             if op = [] then failure ''INVALID_EXPRESSION''
             else if op = ''not'' then
               (case args of
                  [a] \<Rightarrow> ValidateChoiceExpression a allowedAncestors
                | _ \<Rightarrow> failure ''INVALID_EXPRESSION'')
             else if op = ''and'' \<or> op = ''or'' then
               (if length args < 1 then failure ''INVALID_EXPRESSION''
                else eforeach (\<lambda>a. ValidateChoiceExpression a allowedAncestors) args)
             else if op = ''exists'' then
               (case args of
                  [a] \<Rightarrow>
                    (case obj a of
                       None \<Rightarrow> failure ''INVALID_EXPRESSION''
                     | Some ref \<Rightarrow>
                         if Reference ref \<noteq> Inr () then failure ''INVALID_EXPRESSION''
                         else if \<not> ancestor_ref allowedAncestors ref then failure ''INVALID_EXPRESSION''
                         else Inr ())
                | _ \<Rightarrow> failure ''INVALID_EXPRESSION'')
             else if op \<in> set comparison_ops then
               (if length args \<noteq> 2 then failure ''INVALID_EXPRESSION''
                else ebind (checkArg allowedAncestors (args ! 0)) (\<lambda>_.
                       checkArg allowedAncestors (args ! 1)))
             else failure ''INVALID_EXPRESSION''))"

declare ValidateChoiceExpression.simps [simp del]

section \<open>The meaning of a schema\<close>

text \<open>The laws of JSON Schema the static checks rely on; \<open>valid s v\<close> reads: \<open>v\<close> conforms to \<open>s\<close>.\<close>

locale schema_semantics =
  fixes valid :: "json \<Rightarrow> json \<Rightarrow> bool"
  assumes valid_oneOf: "valid s v \<Longrightarrow> arr (field s ''oneOf'') = Some vs \<Longrightarrow> \<exists>x \<in> set vs. valid x v"
    and valid_object: "valid s v \<Longrightarrow> field s ''type'' = JStr ''object'' \<Longrightarrow> obj v \<noteq> None"
    and valid_required: "valid s (JObj m) \<Longrightarrow> contains (items (field s ''required'')) k \<Longrightarrow> k \<in> set (keys m)"
    and valid_properties: "valid s (JObj m) \<Longrightarrow> map_of (members (field s ''properties'')) k = Some p \<Longrightarrow>
          map_of m k = Some w \<Longrightarrow> valid p w"
    and valid_array: "valid s v \<Longrightarrow> field s ''type'' = JStr ''array'' \<Longrightarrow> arr v \<noteq> None"
    and valid_minItems: "valid s (JArr xs) \<Longrightarrow>
          \<not> float_less (Finite (of_nat (length xs))) (number (field s ''minItems'') (Finite 0))"
    and valid_items: "valid s (JArr xs) \<Longrightarrow> field s ''items'' \<noteq> JNull \<Longrightarrow> x \<in> set xs \<Longrightarrow>
          valid (field s ''items'') x"
begin

lemma guaranteed_lookup:
  "guaranteed s parts \<Longrightarrow> valid s v \<Longrightarrow> \<exists>w. lookup_parts v parts = Some w"
proof (induction s parts arbitrary: v rule: guaranteed.induct)
  case (1 s)
  then show ?case by simp
next
  case (2 s key parts)
  show ?case
  proof (cases "arr (field s ''oneOf'')")
    case (Some vs)
    with valid_oneOf "2.prems" obtain x where x: "x \<in> set vs" "valid x v" by blast
    have "guaranteed x (key # parts)"
      using "2.prems"(1) Some x(1) by (simp add: guaranteed.simps(2))
    then show ?thesis by (rule "2.IH"(3) [OF Some x(1) _ x(2)])
  next
    case none: None
    show ?thesis
    proof (cases "field s ''type'' = JStr ''object''")
      case True
      with valid_object [OF "2.prems"(2)] obtain m where v: "v = JObj m"
        by (cases v) (simp_all add: obj_def)
      from "2.prems" none True obtain p where p: "map_of (members (field s ''properties'')) key = Some p"
        and req: "contains (items (field s ''required'')) key" and g: "guaranteed p parts"
        by (simp add: guaranteed.simps(2) split: option.splits)
      have vm: "valid s (JObj m)" using "2.prems"(2) v by simp
      obtain w where w: "map_of m key = Some w"
        using map_of_Some_ex [OF valid_required [OF vm req]] by blast
      then have "valid p w" by (rule valid_properties [OF vm p])
      then have "\<exists>z. lookup_parts w parts = Some z" by (rule "2.IH"(1) [OF none True p g])
      then show ?thesis using w v by simp
    next
      case False
      with "2.prems" none have arr: "field s ''type'' = JStr ''array''"
        by (simp add: guaranteed.simps(2) split: if_splits)
      then obtain xs where v: "v = JArr xs"
        using valid_array [OF "2.prems"(2)] by (cases v) (simp_all add: arr_def)
      have vm: "valid s (JArr xs)" using "2.prems"(2) v by simp
      from "2.prems" none False arr obtain i where i: "indexPattern key" "Atoi_index key = Some i"
        and lt: "float_less (Finite (of_nat i)) (number (field s ''minItems'') (Finite 0))"
        and it: "field s ''items'' \<noteq> JNull" and g: "guaranteed (field s ''items'') parts"
        by (simp add: guaranteed.simps(2) split: option.splits)
      have len: "i < length xs" using lt valid_minItems [OF vm]
        by (cases "number (field s ''minItems'') (Finite 0)") auto
      then have "valid (field s ''items'') (xs ! i)"
        using valid_items [OF vm it] by simp
      then have "\<exists>z. lookup_parts (xs ! i) parts = Some z"
        by (rule "2.IH"(2) [OF none False arr i(2) g])
      then show ?thesis using i len v by simp
    qed
  qed
qed

end

section \<open>A reference semantics\<close>

text \<open>The keywords \<open>contracts/manifest/payload-schema.schema.json\<close> admits, with the meaning the
  standard gives them.  It provides the laws of \<open>schema_semantics\<close>.\<close>

lemma size_zip_fst [termination_simp]: "p \<in> set (zip xs ys) \<Longrightarrow> size (fst p) < Suc (size_list size xs)"
proof -
  assume "p \<in> set (zip xs ys)"
  then have "fst p \<in> set xs" by (metis in_set_zipE prod.collapse)
  then show ?thesis by (induction xs) auto
qed

fun json_equal :: "json \<Rightarrow> json \<Rightarrow> bool" where
  "json_equal (JNum x) (JNum y) = float_eq x y"
| "json_equal (JArr xs) (JArr ys) =
     (length xs = length ys \<and> (\<forall>p \<in> set (zip xs ys). json_equal (fst p) (snd p)))"
| "json_equal (JObj m) (JObj n) =
     (length m = length n \<and>
      (\<forall>kv \<in> set m. case map_of n (fst kv) of None \<Rightarrow> False | Some w \<Rightarrow> json_equal (snd kv) w))"
| "json_equal (JArr xs) v = False"
| "json_equal (JObj m) v = False"
| "json_equal x y = (x = y)"

definition has_type :: "string \<Rightarrow> json \<Rightarrow> bool" where
  "has_type t v =
     (case v of
        JNull \<Rightarrow> t = ''null''
      | JBool _ \<Rightarrow> t = ''boolean''
      | JNum (Finite q) \<Rightarrow> t = ''number'' \<or> (t = ''integer'' \<and> trunc_eq q)
      | JNum _ \<Rightarrow> False
      | JStr _ \<Rightarrow> t = ''string''
      | JArr _ \<Rightarrow> t = ''array''
      | JObj _ \<Rightarrow> t = ''object'')"

definition at_least :: "json \<Rightarrow> string \<Rightarrow> nat \<Rightarrow> bool" where
  "at_least s k n \<longleftrightarrow> \<not> float_less (Finite (of_nat n)) (number (field s k) (Finite 0))"

definition at_most :: "json \<Rightarrow> string \<Rightarrow> nat \<Rightarrow> bool" where
  "at_most s k n \<longleftrightarrow> \<not> float_less (number (field s k) PosInf) (Finite (of_nat n))"

definition codepoints :: "string \<Rightarrow> nat" where
  "codepoints s = length (filter (\<lambda>c. \<not> cont (of_char c)) s)"

definition scalar_ok :: "json \<Rightarrow> json \<Rightarrow> bool" where
  "scalar_ok s v =
     ((case field s ''type'' of JStr t \<Rightarrow> has_type t v | _ \<Rightarrow> True) \<and>
      (case map_of (members s) ''const'' of Some k \<Rightarrow> json_equal k v | None \<Rightarrow> True) \<and>
      (case arr (field s ''enum'') of Some es \<Rightarrow> (\<exists>e \<in> set es. json_equal e v) | None \<Rightarrow> True) \<and>
      (case v of
         JNum x \<Rightarrow>
           \<not> float_less x (number (field s ''minimum'') NegInf) \<and>
           \<not> float_less (number (field s ''maximum'') PosInf) x \<and>
           float_less (number (field s ''exclusiveMinimum'') NegInf) x \<and>
           float_less x (number (field s ''exclusiveMaximum'') PosInf)
       | JStr t \<Rightarrow> at_least s ''minLength'' (codepoints t) \<and> at_most s ''maxLength'' (codepoints t)
       | JArr xs \<Rightarrow> at_least s ''minItems'' (length xs) \<and> at_most s ''maxItems'' (length xs)
       | JObj m \<Rightarrow>
           at_least s ''minProperties'' (length m) \<and> at_most s ''maxProperties'' (length m) \<and>
           (\<forall>k \<in> set (items (field s ''required'')). str k \<in> set (keys m))
       | _ \<Rightarrow> True))"

lemma size_field_present [termination_simp]: "field s k \<noteq> JNull \<Longrightarrow> size (field s k) < size s"
proof -
  assume a: "field s k \<noteq> JNull"
  then obtain w where w: "map_of (members s) k = Some w"
    by (cases "map_of (members s) k") (auto simp: field_def lookup_field_def)
  then have "(k, w) \<in> set (members s)" by (rule map_of_in_set)
  then have "size w < size s" using size_members by fastforce
  with w show ?thesis by (simp add: field_def lookup_field_def)
qed

fun conforms :: "json \<Rightarrow> json \<Rightarrow> bool" where
  "conforms s v =
     (scalar_ok s v \<and>
      (case arr (field s ''oneOf'') of
         Some vs \<Rightarrow> length (filter (\<lambda>x. conforms x v) vs) = 1 | None \<Rightarrow> True) \<and>
      (case v of
         JObj m \<Rightarrow>
           (\<forall>kv \<in> set (members (field s ''properties'')).
              case map_of m (fst kv) of None \<Rightarrow> True | Some w \<Rightarrow> conforms (snd kv) w) \<and>
           (\<forall>kv \<in> set m. fst kv \<in> set (keys (members (field s ''properties''))) \<or>
              (if field s ''additionalProperties'' = JNull then True
               else if field s ''additionalProperties'' = JBool False then False
               else conforms (field s ''additionalProperties'') (snd kv)))
       | JArr xs \<Rightarrow>
           (if field s ''items'' = JNull then True
            else (\<forall>x \<in> set xs. conforms (field s ''items'') x))
       | _ \<Rightarrow> True))"

declare conforms.simps [simp del]

interpretation ref_schema: schema_semantics conforms
proof (unfold_locales, goal_cases)
  case (1 s v vs)
  then have "length (filter (\<lambda>x. conforms x v) vs) = 1" by (simp add: conforms.simps [of s v])
  then have "filter (\<lambda>x. conforms x v) vs \<noteq> []" by auto
  then show ?case by (auto simp: filter_empty_conv)
next
  case (2 s v)
  then have "has_type ''object'' v" by (simp add: conforms.simps [of s v] scalar_ok_def)
  then show ?case by (auto simp: has_type_def obj_def split: json.splits float64.splits)
next
  case (3 s m k)
  then have "\<forall>x \<in> set (items (field s ''required'')). str x \<in> set (keys m)"
    by (simp add: conforms.simps [of s "JObj m"] scalar_ok_def)
  moreover have "JStr k \<in> set (items (field s ''required''))" using 3 by (simp add: contains_def)
  ultimately show ?case by (fastforce simp: str_def)
next
  case (4 s m k p w)
  from 4(1) have "\<forall>kv \<in> set (members (field s ''properties'')).
      case map_of m (fst kv) of None \<Rightarrow> True | Some w \<Rightarrow> conforms (snd kv) w"
    by (simp add: conforms.simps [of s "JObj m"])
  with map_of_in_set [OF 4(2)] 4(3) show ?case by fastforce
next
  case (5 s v)
  then have "has_type ''array'' v" by (simp add: conforms.simps [of s v] scalar_ok_def)
  then show ?case by (auto simp: has_type_def arr_def split: json.splits float64.splits)
next
  case (6 s xs)
  then show ?case by (simp add: conforms.simps [of s "JArr xs"] scalar_ok_def at_least_def)
next
  case (7 s xs x)
  then show ?case by (simp add: conforms.simps [of s "JArr xs"])
qed

section \<open>Properties\<close>

text \<open>C17: the static check \<open>guaranteed\<close> is sound: whatever implementation of JSON Schema validates
  the payload, if it obeys the laws of \<open>schema_semantics\<close>, a value it accepts has a member under
  every pointer that \<open>guaranteed\<close> approves for the schema.\<close>

theorem guaranteed_sound:
  assumes "schema_semantics valid" and "PointerParts p = Inr parts" and "guaranteed s parts"
    and "valid s v"
  shows "\<exists>w. Lookup v p = Inr (Some w)"
  using schema_semantics.guaranteed_lookup [OF assms(1,3,4)] assms(2) by (auto simp: Lookup_def)

definition sample_schema :: json where
  "sample_schema = JObj [(''type'', JStr ''object''), (''required'', JArr [JStr ''xs'']),
     (''properties'', JObj [(''xs'', JObj [(''type'', JStr ''array''), (''minItems'', JNum (Finite 1)),
        (''items'', JObj [(''type'', JStr ''string'')])])])]"

theorem guaranteed_sound_witness:
  "\<exists>w. Lookup (JObj [(''xs'', JArr [JStr ''v''])]) (JStr ''/xs/0'') = Inr (Some w)"
proof (rule guaranteed_sound [where valid = conforms and s = sample_schema and parts = "[''xs'', ''0'']"])
  show "schema_semantics conforms" by (rule ref_schema.schema_semantics_axioms)
  show "PointerParts (JStr ''/xs/0'') = Inr [''xs'', ''0'']" by code_simp
  show "guaranteed sample_schema [''xs'', ''0'']" by code_simp
  show "conforms sample_schema (JObj [(''xs'', JArr [JStr ''v''])])" by code_simp
qed

end
