(* ===== verification/Graph_Relations.thy ===== *)
theory Graph_Relations
  imports Json_Value
begin

text \<open>
  The two ways the program computes who depends on whom in a workflow graph: the memoising
  depth-first search of \<open>ValidateWorkflow\<close> (\<open>internal/contracts/validator.go\<close>, which also finds
  cycles) and the triple loop of \<open>buildGraphRelations\<close> in the engine
  (\<open>internal/execution/worker_engine.go\<close>).  Both are shown to compute the transitive closure of
  the dependency edges.  A graph is the association list from node nid to the ids it comes after; a
  Go \<open>map[string]bool\<close> used as a set is the list of its keys.
\<close>

section \<open>Graphs\<close>

type_synonym graph = "(string \<times> string list) list"

definition after_of :: "graph \<Rightarrow> string \<Rightarrow> string list" where
  "after_of g nid = (case map_of g nid of None \<Rightarrow> [] | Some ds \<Rightarrow> ds)"

definition edges :: "graph \<Rightarrow> (string \<times> string) set" where
  "edges g = {(d, nid). d \<in> set (after_of g nid)}"

definition preds :: "graph \<Rightarrow> string \<Rightarrow> string set" where
  "preds g nid = {x. (x, nid) \<in> (edges g)\<^sup>+}"

lemma preds_unfold: "preds g nid = set (after_of g nid) \<union> (\<Union>d \<in> set (after_of g nid). preds g d)"
proof -
  have "(x, nid) \<in> (edges g)\<^sup>+ \<longleftrightarrow> (\<exists>d \<in> set (after_of g nid). x = d \<or> (x, d) \<in> (edges g)\<^sup>+)" for x
    by (subst trancl_unfold) (auto simp: edges_def)
  then show ?thesis by (auto simp: preds_def)
qed

lemma preds_trans: "x \<in> preds g y \<Longrightarrow> y \<in> preds g z \<Longrightarrow> x \<in> preds g z"
  by (auto simp: preds_def)

lemma acyclic_preds: "acyclic (edges g) \<longleftrightarrow> (\<forall>nid. nid \<notin> preds g nid)"
  by (simp add: acyclic_def preds_def)

lemma edges_in_keys: "(x, y) \<in> (edges g)\<^sup>+ \<Longrightarrow> y \<in> set (keys g)"
  by (erule tranclE) (auto simp: edges_def after_of_def dest!: map_of_in_set [OF sym]
    split: option.splits intro: rev_image_eqI)

section \<open>The depth-first search of the validator\<close>

text \<open>\<open>visiting\<close> holds the nodes on the current path: Go deletes a node from it when its visit
  returns, and abandons the search at the first error.\<close>

definition union_list :: "string list \<Rightarrow> string list \<Rightarrow> string list" where
  "union_list xs ys = fold List.insert ys xs"

lemma set_union_list [simp]: "set (union_list xs ys) = set xs \<union> set ys"
  by (induction ys arbitrary: xs) (auto simp: union_list_def)

definition memo_put :: "(string \<times> string list) list \<Rightarrow> string \<Rightarrow> string list \<Rightarrow> (string \<times> string list) list" where
  "memo_put m k v = (k, v) # filter (\<lambda>p. fst p \<noteq> k) m"

lemma map_of_memo_put [simp]: "map_of (memo_put m k v) = (map_of m)(k \<mapsto> v)"
proof
  fix x
  show "map_of (memo_put m k v) x = ((map_of m)(k \<mapsto> v)) x"
    by (induction m) (auto simp: memo_put_def)
qed

lemma after_of_not_key: "nid \<notin> set (keys g) \<Longrightarrow> after_of g nid = []"
  unfolding after_of_def map_of_None_iff [symmetric] by simp

lemma unvisited_decreases:
  "nid \<in> set (keys g) \<Longrightarrow> nid \<notin> set visiting \<Longrightarrow>
     card (set (keys g) - set (nid # visiting)) < card (set (keys g) - set visiting)"
  by (rule psubset_card_mono) auto

lemma unvisited_le: "card (set (keys g) - set (nid # visiting)) \<le> card (set (keys g) - set visiting)"
  by (rule card_mono) auto

function visit :: "graph \<Rightarrow> string \<Rightarrow> string list \<Rightarrow> graph \<Rightarrow> (string list \<times> graph) cresult"
  and visit_deps :: "graph \<Rightarrow> string list \<Rightarrow> string list \<Rightarrow> graph \<Rightarrow> string list \<Rightarrow>
         (string list \<times> graph) cresult" where
  "visit g nid visiting ancestors =
     (if nid \<in> set visiting then failure ''CYCLE_DETECTED''
      else
        (case map_of ancestors nid of
           Some a \<Rightarrow> Inr (a, ancestors)
         | None \<Rightarrow>
             ebind (visit_deps g (after_of g nid) (nid # visiting) ancestors []) (\<lambda>r.
               Inr (fst r, memo_put (snd r) nid (fst r)))))"
| "visit_deps g [] visiting ancestors s = Inr (s, ancestors)"
| "visit_deps g (d # ds) visiting ancestors s =
     ebind (visit g d visiting ancestors) (\<lambda>r.
       visit_deps g ds visiting (snd r) (union_list (List.insert d s) (fst r)))"
  by pat_completeness auto
termination
proof (relation "inv_image (less_than <*lex*> less_than)
    (\<lambda>x. case x of Inl (g, nid, v, a) \<Rightarrow> (card (set (keys g) - set v), 1)
                 | Inr (g, ds, v, a, s) \<Rightarrow> (card (set (keys g) - set v), 2 * length ds))", goal_cases)
  case (2 g nid visiting ancestors)
  then show ?case
    using after_of_not_key [of nid g] unvisited_decreases [of nid g visiting] unvisited_le [of g nid visiting]
    by (cases "nid \<in> set (keys g)") auto
qed auto

declare visit.simps [simp del]

definition visit_all :: "graph \<Rightarrow> string list \<Rightarrow> graph cresult" where
  "visit_all g ids = efold (\<lambda>nid a. ebind (visit g nid [] a) (\<lambda>r. Inr (snd r))) ids []"

text \<open>The invariant of the memo table: an entry holds exactly the transitive predecessors, and the
  table is closed under predecessors.\<close>

definition memo_ok :: "graph \<Rightarrow> graph \<Rightarrow> bool" where
  "memo_ok g a \<longleftrightarrow> (\<forall>nid s. map_of a nid = Some s \<longrightarrow>
     set s = preds g nid \<and> preds g nid \<subseteq> dom (map_of a) \<and> nid \<notin> preds g nid)"

lemma memo_okD: "memo_ok g a \<Longrightarrow> map_of a nid = Some s \<Longrightarrow> set s = preds g nid"
  and memo_ok_closed: "memo_ok g a \<Longrightarrow> nid \<in> dom (map_of a) \<Longrightarrow> preds g nid \<subseteq> dom (map_of a)"
  and memo_ok_acyclic: "memo_ok g a \<Longrightarrow> nid \<in> dom (map_of a) \<Longrightarrow> nid \<notin> preds g nid"
  unfolding memo_ok_def by (blast, blast, blast)

lemma memo_ok_put:
  assumes "memo_ok g a" "set s = preds g nid" "preds g nid \<subseteq> dom (map_of a)"
    "nid \<notin> preds g nid"
  shows "memo_ok g (memo_put a nid s)"
  unfolding memo_ok_def
proof (intro allI impI)
  fix x t
  assume x: "map_of (memo_put a nid s) x = Some t"
  show "set t = preds g x \<and> preds g x \<subseteq> dom (map_of (memo_put a nid s)) \<and> x \<notin> preds g x"
  proof (cases "x = nid")
    case True
    then show ?thesis using x assms(2-4) by auto
  next
    case False
    then have "map_of a x = Some t" using x by simp
    then have "set t = preds g x \<and> preds g x \<subseteq> dom (map_of a) \<and> x \<notin> preds g x"
      using assms(1) unfolding memo_ok_def by blast
    then show ?thesis by auto
  qed
qed

definition visit_post :: "graph \<Rightarrow> string set \<Rightarrow> graph \<Rightarrow> graph \<Rightarrow> bool" where
  "visit_post g V a a' \<longleftrightarrow> memo_ok g a' \<and> dom (map_of a) \<subseteq> dom (map_of a') \<and> dom (map_of a') \<inter> V = {}"

lemma visit_sound:
  "visit g nid V a = Inr (s, a') \<Longrightarrow> memo_ok g a \<Longrightarrow> dom (map_of a) \<inter> set V = {} \<Longrightarrow>
     visit_post g (set V) a a' \<and> nid \<in> dom (map_of a') \<and> set s = preds g nid \<and> nid \<notin> set V"
  "visit_deps g ds V a s0 = Inr (s, a') \<Longrightarrow> memo_ok g a \<Longrightarrow> dom (map_of a) \<inter> set V = {} \<Longrightarrow>
     visit_post g (set V) a a' \<and> set ds \<subseteq> dom (map_of a') \<and>
     set s = set s0 \<union> set ds \<union> (\<Union>d \<in> set ds. preds g d)"
proof (induction g nid V a and g ds V a s0 arbitrary: s a' and s a' rule: visit_visit_deps.induct)
  case (1 g nid V a)
  from "1.prems"(1) have nv: "nid \<notin> set V"
    by (simp add: visit.simps [of g nid V a] split: if_splits)
  show ?case
  proof (cases "map_of a nid")
    case (Some s')
    with "1.prems"(1) nv have "s' = s" "a' = a" by (auto simp: visit.simps [of g nid V a])
    with Some "1.prems" nv show ?thesis by (auto simp: visit_post_def dest: memo_okD)
  next
    case None
    with "1.prems"(1) nv obtain b where b: "visit_deps g (after_of g nid) (nid # V) a [] = Inr (s, b)"
      and a': "a' = memo_put b nid s"
      by (auto simp: visit.simps [of g nid V a])
    have "dom (map_of a) \<inter> set (nid # V) = {}" using None "1.prems" by auto
    from "1.IH" [OF nv None b "1.prems"(2) this]
    have post: "visit_post g (set (nid # V)) a b" "set (after_of g nid) \<subseteq> dom (map_of b)"
      and s: "set s = preds g nid" using preds_unfold [of g nid] by auto
    then have "preds g nid \<subseteq> dom (map_of b)"
      using preds_unfold [of g nid] memo_ok_closed [of g b] unfolding visit_post_def by blast
    moreover from this post have "nid \<notin> preds g nid" by (auto simp: visit_post_def)
    ultimately have "memo_ok g a'" using post s unfolding a'
      by (auto simp: visit_post_def intro: memo_ok_put)
    with post s nv show ?thesis unfolding a' by (auto simp: visit_post_def)
  qed
next
  case (2 g V a s0)
  then show ?case by (auto simp: visit_post_def)
next
  case (3 g d ds V a s0)
  from "3.prems"(1) obtain o1 b where v: "visit g d V a = Inr (o1, b)"
    and r: "visit_deps g ds V b (union_list (List.insert d s0) o1) = Inr (s, a')"
    by auto
  from "3.IH"(1) [OF v "3.prems"(2,3)]
  have p1: "visit_post g (set V) a b" "d \<in> dom (map_of b)" "set o1 = preds g d" by auto
  then have "memo_ok g b" "dom (map_of b) \<inter> set V = {}" by (auto simp: visit_post_def)
  from "3.IH"(2) [OF v, unfolded fst_conv snd_conv, OF r this]
  have "visit_post g (set V) b a'" "set ds \<subseteq> dom (map_of a')"
    "set s = set (union_list (List.insert d s0) o1) \<union> set ds \<union> (\<Union>d \<in> set ds. preds g d)" by auto
  with p1 show ?case unfolding visit_post_def by (simp, blast)
qed

lemma visit_complete:
  "acyclic (edges g) \<Longrightarrow> \<forall>v \<in> set V. nid \<in> preds g v \<Longrightarrow> \<exists>r. visit g nid V a = Inr r"
  "acyclic (edges g) \<Longrightarrow> \<forall>v \<in> set V. \<forall>d \<in> set ds. d \<in> preds g v \<Longrightarrow> \<exists>r. visit_deps g ds V a s0 = Inr r"
proof (induction g nid V a and g ds V a s0 rule: visit_visit_deps.induct)
  case (1 g nid V a)
  then have nv: "nid \<notin> set V" by (auto simp: acyclic_preds)
  show ?case
  proof (cases "map_of a nid")
    case None
    have "\<forall>v \<in> set (nid # V). \<forall>d \<in> set (after_of g nid). d \<in> preds g v"
      using "1.prems"(2) preds_unfold [of g nid] preds_trans [of _ g nid] by auto
    with "1.IH" [OF nv None] "1.prems"(1) show ?thesis
      using nv None by (auto simp: visit.simps [of g nid V a])
  qed (use nv in \<open>auto simp: visit.simps [of g nid V a]\<close>)
next
  case (3 g d ds V a s0)
  then obtain r where "visit g d V a = Inr r" by auto
  with 3 show ?case by auto
qed auto

lemma visit_error: 
  "visit g nid V a = Inl e \<Longrightarrow> e = Failure ''CYCLE_DETECTED''"
  "visit_deps g ds V a s0 = Inl e \<Longrightarrow> e = Failure ''CYCLE_DETECTED''"
proof (induction g nid V a and g ds V a s0 rule: visit_visit_deps.induct)
  case (1 g nid V a)
  then show ?case
    by (simp add: visit.simps [of g nid V a] ebind_Inl_iff split: if_splits option.splits)
next
  case (3 g d ds V a s0)
  then show ?case by (auto simp: ebind_Inl_iff)
qed simp

lemma visit_all_state:
  assumes "efold (\<lambda>nid a. ebind (visit g nid [] a) (\<lambda>r. Inr (snd r))) ids a = Inr a'" and "memo_ok g a"
  shows "memo_ok g a' \<and> dom (map_of a) \<subseteq> dom (map_of a') \<and> set ids \<subseteq> dom (map_of a')"
  using assms
proof (induction ids arbitrary: a)
  case (Cons x xs)
  then obtain s b where v: "visit g x [] a = Inr (s, b)"
    and r: "efold (\<lambda>nid a. ebind (visit g nid [] a) (\<lambda>r. Inr (snd r))) xs b = Inr a'" by auto
  from visit_sound(1) [OF v Cons.prems(2)]
  have "memo_ok g b" "dom (map_of a) \<subseteq> dom (map_of b)" "x \<in> dom (map_of b)"
    by (auto simp: visit_post_def)
  with Cons.IH [OF r] show ?case by auto
qed simp

text \<open>The search accepts exactly the acyclic graphs and leaves every node's transitive
  predecessors.\<close>

lemma visit_all_ancestors:
  assumes "visit_all g ids = Inr a" and "nid \<in> set ids"
  shows "\<exists>s. map_of a nid = Some s \<and> set s = preds g nid"
proof -
  have "memo_ok g []" by (simp add: memo_ok_def)
  with visit_all_state [of g ids "[]" a] assms have "memo_ok g a" "nid \<in> dom (map_of a)"
    by (auto simp: visit_all_def)
  then show ?thesis by (auto dest: memo_okD)
qed

lemma visit_all_acyclic_iff:
  assumes "set ids = set (keys g)"
  shows "(\<exists>a. visit_all g ids = Inr a) \<longleftrightarrow> acyclic (edges g)"
proof
  assume "\<exists>a. visit_all g ids = Inr a"
  then obtain a where "efold (\<lambda>nid a. ebind (visit g nid [] a) (\<lambda>r. Inr (snd r))) ids [] = Inr a"
    by (auto simp: visit_all_def)
  from visit_all_state [OF this] have "memo_ok g a" "set (keys g) \<subseteq> dom (map_of a)"
    using assms by (auto simp: memo_ok_def)
  then have "x \<notin> preds g x" for x
    using edges_in_keys [of x x g] memo_ok_acyclic [of g a x] unfolding preds_def by blast
  then show "acyclic (edges g)" by (simp add: acyclic_preds)
next
  assume ac: "acyclic (edges g)"
  have "\<exists>a'. efold (\<lambda>nid a. ebind (visit g nid [] a) (\<lambda>r. Inr (snd r))) xs a = Inr a'" for xs a
  proof (induction xs arbitrary: a)
    case (Cons x xs)
    obtain r where "visit g x [] a = Inr r" using visit_complete(1) [OF ac, of "[]" x a] by auto
    with Cons show ?case by auto
  qed simp
  then show "\<exists>a. visit_all g ids = Inr a" by (auto simp: visit_all_def)
qed

lemma visit_all_error: "visit_all g ids = Inl e \<Longrightarrow> e = Failure ''CYCLE_DETECTED''"
proof -
  have "efold (\<lambda>nid a. ebind (visit g nid [] a) (\<lambda>r. Inr (snd r))) ids a = Inl e \<Longrightarrow>
      e = Failure ''CYCLE_DETECTED''" for a
    by (induction ids arbitrary: a) (auto simp: ebind_Inl_iff dest: visit_error)
  then show "visit_all g ids = Inl e \<Longrightarrow> e = Failure ''CYCLE_DETECTED''" by (simp add: visit_all_def)
qed

section \<open>The triple loop of the engine\<close>

text \<open>The two Go maps of maps are the lists of the pairs they hold.  Writing to
  \<open>descendants[dep]\<close> panics when \<open>dep\<close> is not a node (\<open>None\<close>).\<close>

type_synonym relation = "(string \<times> string) list"

definition direct_relation :: "graph \<Rightarrow> relation" where
  "direct_relation g = concat (map (\<lambda>n. map (\<lambda>dep. (fst n, dep)) (snd n)) g)"

definition relation_step :: "string \<Rightarrow> string \<Rightarrow> string \<Rightarrow> relation \<times> relation \<Rightarrow> relation \<times> relation" where
  "relation_step k i j r =
     (if (i, k) \<in> set (fst r) \<and> (k, j) \<in> set (fst r)
      then (List.insert (i, j) (fst r), List.insert (j, i) (snd r)) else r)"

definition relation_loop :: "string list \<Rightarrow> relation \<times> relation \<Rightarrow> relation \<times> relation" where
  "relation_loop ids r =
     fold (\<lambda>k. fold (\<lambda>i. fold (\<lambda>j. relation_step k i j) ids) ids) ids r"

definition buildGraphRelations :: "graph \<Rightarrow> (relation \<times> relation) option" where
  "buildGraphRelations nodes =
     (if \<forall>n \<in> set nodes. \<forall>dep \<in> set (snd n). dep \<in> set (keys nodes)
      then Some (relation_loop (keys nodes)
             (direct_relation nodes, map prod.swap (direct_relation nodes)))
      else None)"

text \<open>What one round of the outer loop adds: the pairs that go through \<open>k\<close>.\<close>

definition through :: "'a \<Rightarrow> ('a \<times> 'a) set \<Rightarrow> ('a \<times> 'a) set" where
  "through k R = {(i, j). (i, k) \<in> R \<and> (k, j) \<in> R}"

lemma relation_step_row:
  "set (fst (fold (\<lambda>j. relation_step k i j) js r)) =
     set (fst r) \<union> (through k (set (fst r)) \<inter> {i} \<times> set js)"
proof (induction js arbitrary: r)
  case (Cons j js)
  show ?case unfolding fold_Cons comp_apply Cons
    by (auto simp: relation_step_def through_def split: if_splits)
qed simp

lemma relation_step_square:
  "set (fst (fold (\<lambda>i. fold (\<lambda>j. relation_step k i j) js) is r)) =
     set (fst r) \<union> (through k (set (fst r)) \<inter> set is \<times> set js)"
proof (induction "is" arbitrary: r)
  case (Cons i "is")
  show ?case unfolding fold_Cons comp_apply Cons relation_step_row
    by (auto simp: through_def)
qed simp

definition closed_at :: "('a \<times> 'a) set \<Rightarrow> 'a \<Rightarrow> bool" where
  "closed_at R k \<longleftrightarrow> through k R \<subseteq> R"

lemma closed_at_round:
  assumes "closed_at R k'"
  shows "closed_at (R \<union> through k R) k'"
  using assms unfolding closed_at_def through_def by blast

lemma closed_at_self: "closed_at (R \<union> through k R) k"
  unfolding closed_at_def through_def by blast

lemma through_trancl: "R \<subseteq> S\<^sup>+ \<Longrightarrow> through k R \<subseteq> S\<^sup>+"
  unfolding through_def by (auto intro: trancl_trans)

lemma through_square: "R \<subseteq> N \<times> N \<Longrightarrow> through k R \<inter> N \<times> N = through k R"
  unfolding through_def by auto

lemma relation_rounds:
  assumes "set (fst r) \<subseteq> set ids \<times> set ids"
    and r': "r' = fold (\<lambda>k. fold (\<lambda>i. fold (\<lambda>j. relation_step k i j) ids) ids) ks r"
  shows "set (fst r) \<subseteq> set (fst r') \<and> set (fst r') \<subseteq> (set (fst r))\<^sup>+ \<and>
    set (fst r') \<subseteq> set ids \<times> set ids \<and>
    (\<forall>k. k \<in> set ks \<or> closed_at (set (fst r)) k \<longrightarrow> closed_at (set (fst r')) k)"
  using assms(1) unfolding r'
proof (induction ks arbitrary: r)
  case Nil
  then show ?case by auto
next
  case (Cons k ks)
  define q where "q = fold (\<lambda>i. fold (\<lambda>j. relation_step k i j) ids) ids r"
  have q: "set (fst q) = set (fst r) \<union> through k (set (fst r))"
    unfolding q_def relation_step_square through_square [OF Cons.prems] ..
  have "set (fst q) \<subseteq> set ids \<times> set ids"
    using Cons.prems unfolding q through_def by blast
  note IH = Cons.IH [OF this]
  have t: "set (fst q) \<subseteq> (set (fst r))\<^sup>+"
    unfolding q using through_trancl [of "set (fst r)" "set (fst r)" k] subset_iff [of "set (fst r)" "(set (fst r))\<^sup>+"]
    by (auto simp: r_into_trancl')
  then have "(set (fst q))\<^sup>+ \<subseteq> (set (fst r))\<^sup>+"
    by (metis trancl_mono_subset trancl_id trans_trancl)
  moreover have "closed_at (set (fst q)) k'" if "k' = k \<or> closed_at (set (fst r)) k'" for k'
    using that closed_at_self closed_at_round unfolding q by auto
  moreover have "set (fst r) \<subseteq> set (fst q)" unfolding q by blast
  moreover have "fold (\<lambda>k. fold (\<lambda>i. fold (\<lambda>j. relation_step k i j) ids) ids) (k # ks) r =
      fold (\<lambda>k. fold (\<lambda>i. fold (\<lambda>j. relation_step k i j) ids) ids) ks q"
    by (simp add: q_def)
  ultimately show ?case using IH
    by (simp only: set_simps) (intro conjI; blast)
qed

lemma relation_loop_trancl:
  assumes "set (fst r) \<subseteq> set ids \<times> set ids"
  shows "set (fst (relation_loop ids r)) = (set (fst r))\<^sup>+"
proof -
  let ?R = "set (fst (relation_loop ids r))"
  have *: "set (fst r) \<subseteq> ?R" "?R \<subseteq> (set (fst r))\<^sup>+" "?R \<subseteq> set ids \<times> set ids"
    "\<forall>k \<in> set ids. closed_at ?R k"
    using relation_rounds [OF assms refl, of ids] unfolding relation_loop_def by blast+
  then have "trans ?R" by (intro transI) (auto simp: closed_at_def through_def)
  then have "(set (fst r))\<^sup>+ \<subseteq> ?R" using *(1) by (metis trancl_id trancl_mono_subset)
  with * show ?thesis by blast
qed

lemma relation_step_converse:
  "set (snd r) = (set (fst r))\<inverse> \<Longrightarrow> set (snd (relation_step k i j r)) = (set (fst (relation_step k i j r)))\<inverse>"
  by (auto simp: relation_step_def)

lemma fold_keeps: "P r \<Longrightarrow> (\<And>x r. P r \<Longrightarrow> P (f x r)) \<Longrightarrow> P (fold f xs r)"
  by (induction xs arbitrary: r) auto

lemma relation_loop_converse:
  "set (snd r) = (set (fst r))\<inverse> \<Longrightarrow> set (snd (relation_loop ids r)) = (set (fst (relation_loop ids r)))\<inverse>"
  unfolding relation_loop_def
  by (rule fold_keeps [where P = "\<lambda>r. set (snd r) = (set (fst r))\<inverse>"], assumption)+
    (rule relation_step_converse)

lemma direct_relation_edges:
  assumes "distinct (keys g)"
  shows "set (direct_relation g) = (edges g)\<inverse>"
proof -
  have "(i, d) \<in> set (direct_relation g) \<longleftrightarrow> (\<exists>ds. (i, ds) \<in> set g \<and> d \<in> set ds)" for i d
    by (force simp: direct_relation_def)
  also have "(\<exists>ds. (i, ds) \<in> set g \<and> d \<in> set ds) \<longleftrightarrow> d \<in> set (after_of g i)" for i d
    using assms by (auto simp: after_of_def split: option.splits dest: map_of_in_set)
  finally show ?thesis by (auto simp: edges_def)
qed

lemma buildGraphRelations_trancl:
  assumes "distinct (keys g)" and "buildGraphRelations g = Some (anc, desc)"
  shows "set anc = ((edges g)\<^sup>+)\<inverse>" and "set desc = (edges g)\<^sup>+"
proof -
  let ?r = "(direct_relation g, map prod.swap (direct_relation g))"
  from assms(2) have deps: "\<forall>n \<in> set g. \<forall>dep \<in> set (snd n). dep \<in> set (keys g)"
    and r: "(anc, desc) = relation_loop (keys g) ?r"
    by (auto simp: buildGraphRelations_def split: if_splits)
  have "set (fst ?r) \<subseteq> set (keys g) \<times> set (keys g)"
    using deps by (force simp: direct_relation_def)
  from relation_loop_trancl [OF this] show a: "set anc = ((edges g)\<^sup>+)\<inverse>"
    by (simp add: r [symmetric] direct_relation_edges [OF assms(1)] trancl_converse)
  have "set (snd ?r) = (set (fst ?r))\<inverse>" by auto
  from relation_loop_converse [OF this, of "keys g"] a show "set desc = (edges g)\<^sup>+"
    by (simp add: r [symmetric])
qed

section \<open>Properties\<close>

text \<open>C18: started on every node of a graph, the validator's search succeeds exactly when the
  dependency edges are acyclic, and it then holds for each node exactly the nodes that reach it
  through one or more edges; on a cyclic graph its only error is \<open>CYCLE_DETECTED\<close>.\<close>

theorem visit_all_correct:
  assumes "set ids = set (keys g)"
  shows "(case visit_all g ids of
            Inr a \<Rightarrow> acyclic (edges g) \<and>
              (\<forall>nid \<in> set ids. \<exists>s. map_of a nid = Some s \<and> set s = {x. (x, nid) \<in> (edges g)\<^sup>+})
          | Inl e \<Rightarrow> \<not> acyclic (edges g) \<and> e = Failure ''CYCLE_DETECTED'')"
proof (cases "visit_all g ids")
  case (Inl e)
  then show ?thesis using visit_all_acyclic_iff [OF assms] visit_all_error [OF Inl] by auto
next
  case (Inr a)
  then show ?thesis
    using visit_all_acyclic_iff [OF assms] visit_all_ancestors [OF Inr] by (auto simp: preds_def)
qed

definition sample_graph :: graph where
  "sample_graph = [(''a'', []), (''b'', [''a'']), (''c'', [''b''])]"

theorem visit_all_correct_witness:
  "acyclic (edges sample_graph) \<and> \<not> acyclic (edges [(''a'', [''b'']), (''b'', [''a''])])"
proof -
  have "visit_all sample_graph [''a'', ''b'', ''c''] =
      Inr [(''c'', [''a'', ''b'']), (''b'', [''a'']), (''a'', [])]"
    "visit_all [(''a'', [''b'']), (''b'', [''a''])] [''a'', ''b''] = failure ''CYCLE_DETECTED''"
    "set [''a'', ''b'', ''c''] = set (keys sample_graph)"
    by code_simp+
  then show ?thesis
    using visit_all_correct [of "[''a'', ''b'', ''c'']" sample_graph]
      visit_all_correct [of "[''a'', ''b'']" "[(''a'', [''b'']), (''b'', [''a''])]"]
    by (simp add: failure_def)
qed

text \<open>C29: registration and execution agree on the graph: for nodes with distinct ids whose
  dependencies all exist, \<open>buildGraphRelations\<close> does not panic, and its ancestors of a node are the
  ones the validator's search found, and its descendants the converse.\<close>

theorem buildGraphRelations_agrees:
  assumes "distinct (keys g)" and "\<forall>n \<in> set g. set (snd n) \<subseteq> set (keys g)"
    and "visit_all g (keys g) = Inr a"
  shows "\<exists>anc desc. buildGraphRelations g = Some (anc, desc) \<and>
    (\<forall>nid \<in> set (keys g). \<exists>s. map_of a nid = Some s \<and>
       (\<forall>x. ((nid, x) \<in> set anc \<longleftrightarrow> x \<in> set s) \<and> ((x, nid) \<in> set desc \<longleftrightarrow> x \<in> set s)))"
proof -
  obtain anc desc where b: "buildGraphRelations g = Some (anc, desc)"
    using assms(2) by (cases "buildGraphRelations g") (auto simp: buildGraphRelations_def subset_iff)
  have "\<exists>s. map_of a nid = Some s \<and>
       (\<forall>x. ((nid, x) \<in> set anc \<longleftrightarrow> x \<in> set s) \<and> ((x, nid) \<in> set desc \<longleftrightarrow> x \<in> set s))"
    if "nid \<in> set (keys g)" for nid
    using visit_all_ancestors [OF assms(3) that] buildGraphRelations_trancl [OF assms(1) b]
    by (auto simp: preds_def)
  with b show ?thesis by blast
qed

theorem buildGraphRelations_agrees_witness:
  "\<exists>anc desc. buildGraphRelations sample_graph = Some (anc, desc) \<and> (''c'', ''a'') \<in> set anc"
proof -
  have v: "visit_all sample_graph (keys sample_graph) =
      Inr [(''c'', [''a'', ''b'']), (''b'', [''a'']), (''a'', [])]"
    and d: "distinct (keys sample_graph)" "\<forall>n \<in> set sample_graph. set (snd n) \<subseteq> set (keys sample_graph)"
    and c: "''c'' \<in> set (keys sample_graph)"
    by code_simp+
  from buildGraphRelations_agrees [OF d v] obtain anc desc s
    where b: "buildGraphRelations sample_graph = Some (anc, desc)"
      and s: "map_of [(''c'', [''a'', ''b'']), (''b'', [''a'']), (''a'', [])] ''c'' = Some s"
      and x: "\<forall>x. (''c'', x) \<in> set anc \<longleftrightarrow> x \<in> set s"
    using c by blast
  from s have "s = [''a'', ''b'']" by simp
  with b x show ?thesis by auto
qed

end
