(* ===== verification/Workflow_Validator.thy ===== *)
theory Workflow_Validator
  imports Contract_Schema Graph_Relations
begin

text \<open>
  \<open>ValidateWorkflow\<close> and \<open>ValidateDeployment\<close> of \<open>internal/contracts/validator.go\<close>, one definition
  per loop of the Go function, composed in its order.  Where Go ranges over a map the model
  goes through it in the order in which the nodes were declared: which of several errors is
  reported may depend on that order, whether the manifest is accepted does not.
\<close>

section \<open>Manifest, tasks and nodes\<close>

definition node_id :: "json \<Rightarrow> string" where
  "node_id n = str (field n ''id'')"

definition node_type :: "json \<Rightarrow> string" where
  "node_type n = str (field n ''type'')"

definition node_after :: "json \<Rightarrow> string list" where
  "node_after n = map str (items (field n ''after''))"

text \<open>\<open>m[k] != nil\<close> for a map of objects.\<close>

definition present :: "(string \<times> json) list \<Rightarrow> string \<Rightarrow> bool" where
  "present m k = (case map_of m k of None \<Rightarrow> False | Some n \<Rightarrow> obj n \<noteq> None)"

definition workflow_nodes :: "externals \<Rightarrow> json \<Rightarrow> json list cresult" where
  "workflow_nodes c manifest =
     ebind (checkJSON manifest 0) (\<lambda>_.
       if obj manifest = None then failure ''INVALID_MANIFEST''
       else if field manifest ''manifestVersion'' \<noteq> JNum (Finite 1)
         then failure ''UNSUPPORTED_MANIFEST_VERSION''
       else
         (let nodes = items (field manifest ''nodes'') in
          if length nodes = 0 then failure ''EMPTY_NODES''
          else if length nodes > 50 then failure ''NODE_COUNT_EXCEEDED''
          else if \<not> ValidateAgainst c manifest ''manifest/workflow.schema.json''
            then failure ''INVALID_MANIFEST''
          else ebind (eforeach (\<lambda>key. ValidateSchema c (field manifest key))
                 [''inputSchema'', ''outputSchema'']) (\<lambda>_. Inr nodes)))"

definition collect_tasks :: "externals \<Rightarrow> json list \<Rightarrow> (string \<times> json) list cresult" where
  "collect_tasks c definitions =
     efold (\<lambda>t tasks. ebind (ValidateTask c t) (\<lambda>_.
       (let name = str (field t ''name'') in
        if present tasks name then failure ''INVALID_TASK'' else Inr (put tasks name t))))
       definitions []"

definition ApprovalDecisionCapability :: string where
  "ApprovalDecisionCapability = ''approvals:decide''"

definition check_approval :: "externals \<Rightarrow> json \<Rightarrow> unit cresult" where
  "check_approval c n =
     (let cfg = field n ''approval''; perm = str (field cfg ''requiredPermission'') in
      if members cfg = [] then failure ''INVALID_MANIFEST''
      else if perm \<noteq> [] \<and> perm \<noteq> ApprovalDecisionCapability then failure ''INVALID_MANIFEST''
      else if field cfg ''expiresInMs'' \<noteq> JNull \<and>
          (case field cfg ''expiresInMs'' of JNum ms \<Rightarrow> float_le ms (Finite 0) | _ \<Rightarrow> True)
        then failure ''INVALID_MANIFEST''
      else if field cfg ''outputSchema'' \<noteq> JNull then ValidateSchema c (field cfg ''outputSchema'')
      else Inr ())"

definition check_delay :: "json \<Rightarrow> unit cresult" where
  "check_delay n =
     (case field n ''delayMs'' of
        JNum d \<Rightarrow>
          if float_less d (Finite 1) \<or> float_less (Finite (30 * 24 * 60 * 60 * 1000)) d \<or>
             (case d of Finite q \<Rightarrow> \<not> trunc_eq q | NaN \<Rightarrow> True | _ \<Rightarrow> False)
          then failure ''INVALID_DELAY'' else Inr ()
      | _ \<Rightarrow> failure ''INVALID_DELAY'')"

definition released_types :: "string list" where
  "released_types = [''task'', ''choice'', ''merge'', ''approval'', ''delay'']"

definition check_node :: "externals \<Rightarrow> (string \<times> json) list \<Rightarrow> json \<Rightarrow> unit cresult" where
  "check_node c tasks n =
     (let ntype = node_type n in
      if ntype \<notin> set released_types then failure ''UNSUPPORTED_CAPABILITY''
      else
        ebind (if ntype = ''task'' \<and> \<not> present tasks (str (field n ''task''))
               then failure ''MISSING_TASK_REF'' else Inr ()) (\<lambda>_.
        ebind (if ntype = ''approval'' then check_approval c n else Inr ()) (\<lambda>_.
          if ntype = ''delay'' then check_delay n else Inr ())))"

definition collect_nodes :: "externals \<Rightarrow> (string \<times> json) list \<Rightarrow> json list \<Rightarrow> (string \<times> json) list cresult" where
  "collect_nodes c tasks nodes =
     efold (\<lambda>n byID.
       if present byID (node_id n) then failure ''DUPLICATE_NODE_ID''
       else ebind (check_node c tasks n) (\<lambda>_. Inr (put byID (node_id n) n))) nodes []"

definition check_dependencies :: "(string \<times> json) list \<Rightarrow> json list \<Rightarrow> unit cresult" where
  "check_dependencies byID nodes =
     eforeach (\<lambda>n. eforeach (\<lambda>d.
       if \<not> present byID d then failure ''MISSING_DEPENDENCY'' else Inr ()) (node_after n)) nodes"

section \<open>Ancestors and descendants\<close>

text \<open>\<open>ancestors\<close> is what the search of \<open>Graph_Relations\<close> leaves; \<open>descendants\<close> is its converse, with
  an entry for every node.\<close>

definition graph_of :: "(string \<times> json) list \<Rightarrow> graph" where
  "graph_of byID = map (\<lambda>p. (fst p, node_after (snd p))) byID"

definition descendants_of :: "(string \<times> json) list \<Rightarrow> graph \<Rightarrow> graph" where
  "descendants_of byID ancestors =
     map (\<lambda>p. (fst p, filter (\<lambda>x. fst p \<in> set (after_of ancestors x)) (keys ancestors))) byID"

definition of_type :: "string \<Rightarrow> (string \<times> json) list \<Rightarrow> (string \<times> json) list" where
  "of_type t byID = filter (\<lambda>p. node_type (snd p) = t) byID"

definition lookup_str :: "(string \<times> string) list \<Rightarrow> string \<Rightarrow> string" where
  "lookup_str m k = (case map_of m k of None \<Rightarrow> [] | Some v \<Rightarrow> v)"

section \<open>Choices and merges\<close>

definition check_branch :: "string list \<Rightarrow> string \<Rightarrow> json \<Rightarrow> string list \<times> nat \<Rightarrow> (string list \<times> nat) cresult" where
  "check_branch ancestors def b s =
     (if obj b = None then failure ''INVALID_CHOICE''
      else
        (let name = str (field b ''name'') in
         if name = [] \<or> name \<in> set (fst s) then failure ''INVALID_CHOICE''
         else if field b ''condition'' \<noteq> JNull then
           ebind (ValidateChoiceExpression (field b ''condition'') (Some ancestors)) (\<lambda>_.
             Inr (name # fst s, snd s))
         else if name \<noteq> def then failure ''INVALID_CHOICE''
         else Inr (name # fst s, snd s + 1)))"

definition check_choice :: "string list \<Rightarrow> json \<Rightarrow> unit cresult" where
  "check_choice ancestors n =
     (let ch = field n ''choice''; branches = items (field ch ''branches''); def = str (field ch ''default'') in
      if obj ch = None then failure ''INVALID_MANIFEST''
      else if branches = [] \<or> (length branches < 2 \<and> def = []) then failure ''INVALID_CHOICE''
      else
        ebind (efold (check_branch ancestors def) branches ([], 0)) (\<lambda>s.
          if def \<noteq> [] \<and> def \<notin> set (fst s) then failure ''INVALID_CHOICE''
          else if snd s > 1 then failure ''INVALID_CHOICE''
          else Inr ()))"

text \<open>The branch names a merge must name: the declared ones and the default.\<close>

definition choice_names :: "json \<Rightarrow> string list" where
  "choice_names choiceNode =
     (let ch = field choiceNode ''choice''; def = str (field ch ''default'') in
      map (\<lambda>b. str (field b ''name'')) (items (field ch ''branches'')) @ (if def \<noteq> [] then [def] else []))"

definition merge_branch :: "json \<Rightarrow> string" where
  "merge_branch b = str (field b ''branch'')"

definition merge_terminal :: "json \<Rightarrow> string" where
  "merge_terminal b = str (field b ''terminal'')"

definition merge_branches :: "json \<Rightarrow> json list" where
  "merge_branches n = items (field (field n ''merge'') ''branches'')"

definition check_merge_branch ::
    "(string \<times> json) list \<Rightarrow> string list \<Rightarrow> string list \<Rightarrow> string list \<Rightarrow> json \<Rightarrow> string list \<Rightarrow>
       string list cresult" where
  "check_merge_branch byID mergeAncestors choiceDescendants cNames b mNames =
     (if obj b = None then failure ''INVALID_MERGE''
      else
        (let bName = merge_branch b; term = merge_terminal b in
         if bName = [] \<or> term = [] \<or> bName \<notin> set cNames \<or> bName \<in> set mNames
           then failure ''INVALID_MERGE''
         else if \<not> present byID term \<or> term \<notin> set mergeAncestors \<or> term \<notin> set choiceDescendants
           then failure ''INVALID_MERGE''
         else Inr (bName # mNames)))"

definition check_merge ::
    "externals \<Rightarrow> (string \<times> json) list \<Rightarrow> graph \<Rightarrow> graph \<Rightarrow> (string \<times> json) list \<Rightarrow> string \<times> json \<Rightarrow>
       (string \<times> string) list \<Rightarrow> (string \<times> string) list cresult" where
  "check_merge c byID ancestors descendants choices p mergeForChoice =
     (let mrg = field (snd p) ''merge''; choiceID = str (field mrg ''choice'');
          mBranches = items (field mrg ''branches'') in
      if obj mrg = None then failure ''INVALID_MANIFEST''
      else
        (case map_of choices choiceID of
           None \<Rightarrow> failure ''INVALID_MERGE''
         | Some choiceNode \<Rightarrow>
             if choiceID \<notin> set (after_of ancestors (fst p)) then failure ''INVALID_MERGE''
             else if lookup_str mergeForChoice choiceID \<noteq> [] then failure ''INVALID_MERGE''
             else if mBranches = [] then failure ''INVALID_MERGE''
             else
               ebind (efold (check_merge_branch byID (after_of ancestors (fst p))
                        (after_of descendants choiceID) (choice_names choiceNode)) mBranches []) (\<lambda>mNames.
                 if \<exists>cn \<in> set (choice_names choiceNode). cn \<notin> set mNames then failure ''INVALID_MERGE''
                 else if field mrg ''outputSchema'' = JNull then failure ''INVALID_MERGE''
                 else ebind (ValidateSchema c (field mrg ''outputSchema'')) (\<lambda>_.
                        Inr ((choiceID, fst p) # mergeForChoice)))))"

definition check_choices_merged :: "(string \<times> json) list \<Rightarrow> (string \<times> string) list \<Rightarrow> unit cresult" where
  "check_choices_merged choices mergeForChoice =
     eforeach (\<lambda>p. if lookup_str mergeForChoice (fst p) = [] then failure ''INVALID_CHOICE'' else Inr ()) choices"

section \<open>The region of a choice\<close>

type_synonym branch_map = "(string \<times> string list) list"

text \<open>The nodes strictly between a choice and its merge on the way to one branch's terminal.\<close>

definition branch_set :: "string list \<Rightarrow> graph \<Rightarrow> graph \<Rightarrow> string \<Rightarrow> string \<Rightarrow> string \<Rightarrow> string list" where
  "branch_set ids ancestors descendants choiceID mergeID term =
     filter (\<lambda>x. x \<noteq> choiceID \<and> x \<noteq> mergeID \<and> x \<in> set (after_of descendants choiceID) \<and>
                 (x = term \<or> x \<in> set (after_of ancestors term))) ids"

definition put_branch :: "branch_map \<Rightarrow> string \<Rightarrow> string list \<Rightarrow> branch_map" where
  "put_branch m k v = (if k \<in> set (keys m) then map (\<lambda>e. if fst e = k then (k, v) else e) m else m @ [(k, v)])"

definition branch_sets :: "string list \<Rightarrow> graph \<Rightarrow> graph \<Rightarrow> string \<Rightarrow> string \<Rightarrow> json list \<Rightarrow> branch_map cresult" where
  "branch_sets ids ancestors descendants choiceID mergeID mBranches =
     efold (\<lambda>b sets.
       (let bSet = branch_set ids ancestors descendants choiceID mergeID (merge_terminal b) in
        if bSet = [] then failure ''INVALID_BRANCH'' else Inr (put_branch sets (merge_branch b) bSet)))
       mBranches []"

text \<open>Check of dependencies between the cones of two terminals.\<close>

definition cone :: "graph \<Rightarrow> string \<Rightarrow> string \<Rightarrow> string list" where
  "cone ancestors choiceID t =
     t # filter (\<lambda>a. a \<noteq> choiceID \<and> a \<notin> set (after_of ancestors choiceID)) (after_of ancestors t)"

definition check_cones :: "graph \<Rightarrow> graph \<Rightarrow> string \<Rightarrow> string list \<Rightarrow> unit cresult" where
  "check_cones g ancestors choiceID terms =
     eforeach (\<lambda>i. eforeach (\<lambda>j.
       if i \<noteq> j \<and> (\<exists>v \<in> set (cone ancestors choiceID (terms ! j)). \<exists>d \<in> set (after_of g v).
            d \<in> set (cone ancestors choiceID (terms ! i)))
       then failure ''CROSS_BRANCH_DEPENDENCY'' else Inr ()) [0..<length terms]) [0..<length terms]"

fun check_disjoint :: "branch_map \<Rightarrow> unit cresult" where
  "check_disjoint [] = Inr ()"
| "check_disjoint (e # rest) =
     ebind (eforeach (\<lambda>f. if \<exists>u \<in> set (snd e). u \<in> set (snd f) then failure ''IRREDUCIBLE_GRAPH'' else Inr ()) rest)
       (\<lambda>_. check_disjoint rest)"

definition check_cross :: "graph \<Rightarrow> branch_map \<Rightarrow> unit cresult" where
  "check_cross g sets =
     eforeach (\<lambda>e. if \<exists>u \<in> set (snd e). \<exists>d \<in> set (after_of g u). \<exists>f \<in> set sets. fst e \<noteq> fst f \<and> d \<in> set (snd f)
                   then failure ''CROSS_BRANCH_DEPENDENCY'' else Inr ()) sets"

definition check_single_entry_exit :: "graph \<Rightarrow> graph \<Rightarrow> string \<Rightarrow> string \<Rightarrow> branch_map \<Rightarrow> unit cresult" where
  "check_single_entry_exit g ancestors choiceID mergeID sets =
     eforeach (\<lambda>e. eforeach (\<lambda>u.
       ebind (eforeach (\<lambda>d. if d = choiceID \<or> d \<in> set (snd e) \<or> d \<in> set (after_of ancestors choiceID)
                            then Inr () else failure ''CROSS_BRANCH_DEPENDENCY'') (after_of g u)) (\<lambda>_.
         eforeach (\<lambda>w. if u \<in> set (snd w) \<and> fst w \<noteq> mergeID \<and> fst w \<notin> set (snd e)
                       then failure ''IRREDUCIBLE_GRAPH'' else Inr ()) g)) (snd e)) sets"

definition check_region ::
    "graph \<Rightarrow> graph \<Rightarrow> graph \<Rightarrow> (string \<times> json) list \<Rightarrow> (string \<times> string) list \<Rightarrow> string \<Rightarrow> (string \<times> branch_map) cresult" where
  "check_region g ancestors descendants merges mergeForChoice choiceID =
     (let mergeID = lookup_str mergeForChoice choiceID;
          mBranches = (case map_of merges mergeID of None \<Rightarrow> [] | Some n \<Rightarrow> merge_branches n) in
      ebind (branch_sets (keys g) ancestors descendants choiceID mergeID mBranches) (\<lambda>sets.
      ebind (check_cones g ancestors choiceID (map merge_terminal mBranches)) (\<lambda>_.
      ebind (check_disjoint sets) (\<lambda>_.
      ebind (check_cross g sets) (\<lambda>_.
      ebind (check_single_entry_exit g ancestors choiceID mergeID sets) (\<lambda>_.
        Inr (choiceID, sets)))))))"

text \<open>A merge may come after its branches' terminals, but after no other node of a branch.\<close>

definition check_merge_deps ::
    "graph \<Rightarrow> (string \<times> json) list \<Rightarrow> (string \<times> string) list \<Rightarrow> string \<times> branch_map \<Rightarrow> unit cresult" where
  "check_merge_deps g merges mergeForChoice region =
     (let mergeID = lookup_str mergeForChoice (fst region);
          mBranches = (case map_of merges mergeID of None \<Rightarrow> [] | Some n \<Rightarrow> merge_branches n) in
      eforeach (\<lambda>d.
        if (\<exists>e \<in> set (snd region). d \<in> set (snd e)) \<and> d \<notin> set (map merge_terminal mBranches)
        then failure ''INVALID_MERGE'' else Inr ()) (after_of g mergeID))"

definition choice_depth :: "(string \<times> branch_map) list \<Rightarrow> string \<Rightarrow> nat" where
  "choice_depth regions choiceID =
     1 + length (filter (\<lambda>e. choiceID \<in> set (snd e))
           (concat (map snd (filter (\<lambda>r. fst r \<noteq> choiceID) regions))))"

definition check_nesting :: "(string \<times> branch_map) list \<Rightarrow> unit cresult" where
  "check_nesting regions =
     eforeach (\<lambda>r. if choice_depth regions (fst r) > 8 then failure ''CHOICE_NESTING_EXCEEDED'' else Inr ()) regions"

section \<open>Input mappings\<close>

text \<open>The ancestors a node may read: not the inside of a choice the node is outside of.\<close>

definition node_allowed ::
    "graph \<Rightarrow> (string \<times> branch_map) list \<Rightarrow> (string \<times> string) list \<Rightarrow> string \<Rightarrow> string list" where
  "node_allowed ancestors regions mergeForChoice nid =
     filter (\<lambda>x. \<forall>r \<in> set regions. \<forall>e \<in> set (snd r).
         nid = lookup_str mergeForChoice (fst r) \<or> nid \<in> set (snd e) \<or> x \<notin> set (snd e))
       (after_of ancestors nid)"

definition output_allowed :: "string list \<Rightarrow> (string \<times> branch_map) list \<Rightarrow> string list" where
  "output_allowed ids regions =
     filter (\<lambda>x. \<forall>r \<in> set regions. \<forall>e \<in> set (snd r). x \<notin> set (snd e)) ids"

definition default_merge_schema :: json where
  "default_merge_schema = JObj [(''type'', JStr ''object''),
     (''properties'', JObj [(''branch'', JObj [(''type'', JStr ''string'')]), (''value'', JObj [])]),
     (''required'', JArr [JStr ''branch'', JStr ''value''])]"

definition choice_schema :: json where
  "choice_schema = JObj [(''type'', JStr ''object''),
     (''properties'', JObj [(''selected'', JObj [(''type'', JStr ''string'')]),
        (''branch'', JObj [(''type'', JStr ''string'')])]),
     (''required'', JArr [JStr ''selected'', JStr ''branch''])]"

definition default_approval_schema :: json where
  "default_approval_schema = JObj [(''type'', JStr ''object''), (''properties'', JObj []),
     (''required'', JArr []), (''additionalProperties'', JBool True)]"

text \<open>The schema a step's output is read against.\<close>

definition step_schema :: "(string \<times> json) list \<Rightarrow> (string \<times> json) list \<Rightarrow> string \<Rightarrow> json" where
  "step_schema byID tasks nid =
     (let n = lookup_field byID nid in
      if node_type n = ''merge'' then
        (if field (field n ''merge'') ''outputSchema'' \<noteq> JNull then field (field n ''merge'') ''outputSchema''
         else default_merge_schema)
      else if node_type n = ''choice'' then choice_schema
      else if node_type n = ''approval'' then
        (if field (field n ''approval'') ''outputSchema'' \<noteq> JNull then field (field n ''approval'') ''outputSchema''
         else default_approval_schema)
      else field (lookup_field tasks (str (field n ''task''))) ''outputSchema'')"

definition check_reference :: "(string \<Rightarrow> json) \<Rightarrow> json \<Rightarrow> string list \<Rightarrow> (string \<times> json) list \<Rightarrow> string list cresult" where
  "check_reference schema_of inputSchema allowed v =
     ebind (Reference v) (\<lambda>_.
       if is_step_ref v \<and> ref_step v \<notin> set allowed then failure ''INPUT_MAPPING_ERROR''
       else
         (let source = (if is_step_ref v then schema_of (ref_step v) else inputSchema);
              parts = (case PointerParts (lookup_field v ''pointer'') of Inl _ \<Rightarrow> [] | Inr ps \<Rightarrow> ps) in
          if \<not> guaranteed source parts \<and> ''default'' \<notin> set (keys v) then failure ''INPUT_MAPPING_ERROR''
          else Inr (if is_step_ref v then [ref_step v] else [])))"

text \<open>The result is the list of steps the mapping reads; Go keeps it for the workflow output only.\<close>

fun check_mapping :: "(string \<Rightarrow> json) \<Rightarrow> json \<Rightarrow> string list \<Rightarrow> json \<Rightarrow> string list cresult" where
  "check_mapping schema_of inputSchema allowed (JArr v) =
     ebind (emap (check_mapping schema_of inputSchema allowed) v) (\<lambda>us. Inr (concat us))"
| "check_mapping schema_of inputSchema allowed (JObj v) =
     (if ''literal'' \<in> set (keys v) then
        (if length v \<noteq> 1 then failure ''INPUT_MAPPING_ERROR'' else Inr [])
      else if ''$ref'' \<in> set (keys v) then check_reference schema_of inputSchema allowed v
      else ebind (emap (\<lambda>kv. check_mapping schema_of inputSchema allowed (snd kv)) v) (\<lambda>us. Inr (concat us)))"
| "check_mapping schema_of inputSchema allowed v = Inr []"

text \<open>The value of a merge branch may read its own branch, the choice and what precedes it.\<close>

definition branch_allowed :: "graph \<Rightarrow> (string \<times> branch_map) list \<Rightarrow> string \<Rightarrow> string \<Rightarrow> string list" where
  "branch_allowed ancestors regions choiceID bName =
     choiceID # after_of ancestors choiceID @
       (case map_of regions choiceID of None \<Rightarrow> [] | Some sets \<Rightarrow> after_of sets bName)"

definition merge_choice :: "(string \<times> string) list \<Rightarrow> string \<Rightarrow> string" where
  "merge_choice mergeForChoice mergeID = lookup_str (map prod.swap mergeForChoice) mergeID"

definition check_node_mappings ::
    "(string \<Rightarrow> json) \<Rightarrow> json \<Rightarrow> graph \<Rightarrow> (string \<times> branch_map) list \<Rightarrow> (string \<times> string) list \<Rightarrow> json \<Rightarrow>
       unit cresult" where
  "check_node_mappings schema_of inputSchema ancestors regions mergeForChoice n =
     ebind (check_mapping schema_of inputSchema (node_allowed ancestors regions mergeForChoice (node_id n))
              (field n ''input'')) (\<lambda>_.
       if node_type n = ''merge'' then
         eforeach (\<lambda>b. if field b ''value'' \<noteq> JNull then
             ebind (check_mapping schema_of inputSchema
                (branch_allowed ancestors regions (merge_choice mergeForChoice (node_id n)) (merge_branch b))
                (field b ''value'')) (\<lambda>_. Inr ())
           else Inr ()) (merge_branches n)
       else Inr ())"

definition check_leaves :: "json list \<Rightarrow> string list \<Rightarrow> unit cresult" where
  "check_leaves nodes used =
     (let referenced = concat (map node_after nodes) in
      eforeach (\<lambda>n. if node_id n \<notin> set referenced \<and> node_id n \<notin> set used \<and> field n ''sideEffect'' \<noteq> JBool True
                   then failure ''ORPHAN_LEAF'' else Inr ()) nodes)"

section \<open>ValidateWorkflow and ValidateDeployment\<close>

text \<open>What the phases have established when a manifest is accepted.\<close>

record checked =
  chk_tasks :: "(string \<times> json) list"
  chk_byID :: "(string \<times> json) list"
  chk_ancestors :: graph
  chk_merges :: "(string \<times> string) list"
  chk_regions :: "(string \<times> branch_map) list"

definition validate_graph :: "externals \<Rightarrow> json list \<Rightarrow> (string \<times> json) list \<Rightarrow> (string \<times> json) list \<Rightarrow> checked cresult" where
  "validate_graph c nodes tasks byID =
     (let g = graph_of byID; choices = of_type ''choice'' byID; merges = of_type ''merge'' byID in
      ebind (visit_all g (map node_id nodes)) (\<lambda>ancestors.
      (let descendants = descendants_of byID ancestors in
      ebind (eforeach (\<lambda>p. check_choice (after_of ancestors (fst p)) (snd p)) choices) (\<lambda>_.
      ebind (efold (check_merge c byID ancestors descendants choices) merges []) (\<lambda>mergeForChoice.
      ebind (check_choices_merged choices mergeForChoice) (\<lambda>_.
      ebind (emap (\<lambda>p. check_region g ancestors descendants merges mergeForChoice (fst p)) choices) (\<lambda>regions.
      ebind (eforeach (check_merge_deps g merges mergeForChoice) regions) (\<lambda>_.
      ebind (check_nesting regions) (\<lambda>_.
        Inr \<lparr> chk_tasks = tasks, chk_byID = byID, chk_ancestors = ancestors,
             chk_merges = mergeForChoice, chk_regions = regions \<rparr>)))))))))"

definition validate_mappings :: "json \<Rightarrow> json list \<Rightarrow> checked \<Rightarrow> unit cresult" where
  "validate_mappings m nodes k =
     (let schema_of = step_schema (chk_byID k) (chk_tasks k); inputSchema = field m ''inputSchema'' in
      ebind (eforeach (check_node_mappings schema_of inputSchema (chk_ancestors k) (chk_regions k) (chk_merges k)) nodes)
        (\<lambda>_.
      ebind (check_mapping schema_of inputSchema (output_allowed (keys (chk_byID k)) (chk_regions k)) (field m ''output''))
        (\<lambda>used. check_leaves nodes used)))"

definition workflow_checked :: "externals \<Rightarrow> json \<Rightarrow> json list \<Rightarrow> checked cresult" where
  "workflow_checked c manifest definitions =
     ebind (workflow_nodes c manifest) (\<lambda>nodes.
     ebind (collect_tasks c definitions) (\<lambda>tasks.
     ebind (collect_nodes c tasks nodes) (\<lambda>byID.
     ebind (check_dependencies byID nodes) (\<lambda>_.
     ebind (validate_graph c nodes tasks byID) (\<lambda>k.
     ebind (validate_mappings manifest nodes k) (\<lambda>_. Inr k))))))"

definition ValidateWorkflow :: "externals \<Rightarrow> json \<Rightarrow> json list \<Rightarrow> unit cresult" where
  "ValidateWorkflow c manifest definitions = ebind (workflow_checked c manifest definitions) (\<lambda>_. Inr ())"

definition ValidateDeployment :: "externals \<Rightarrow> json \<Rightarrow> unit cresult" where
  "ValidateDeployment c v =
     ebind (checkJSON v 0) (\<lambda>_.
       if \<not> ValidateAgainst c v ''manifest/deployment.schema.json'' then failure ''INVALID_MANIFEST''
       else
         ebind (efold (\<lambda>w names.
           (let name = str (field w ''name'') in
            if name \<in> set names then failure ''INVALID_MANIFEST''
            else ebind (ValidateWorkflow c w (items (field v ''tasks''))) (\<lambda>_. Inr (name # names))))
           (items (field v ''workflows'')) []) (\<lambda>_. Inr ()))"

section \<open>What the phases establish\<close>

lemma node_type_object: "node_type n \<noteq> [] \<Longrightarrow> obj n \<noteq> None"
  by (cases n) (simp_all add: node_type_def field_def members_def lookup_field_def str_def obj_def)

lemma check_node_type: "check_node c tasks n = Inr () \<Longrightarrow> node_type n \<in> set released_types"
  by (simp add: check_node_def Let_def split: if_splits)

lemma check_node_task:
  "check_node c tasks n = Inr () \<Longrightarrow> node_type n = ''task'' \<Longrightarrow> present tasks (str (field n ''task''))"
  by (simp add: check_node_def Let_def split: if_splits)

lemma check_node_object: "check_node c tasks n = Inr () \<Longrightarrow> obj n \<noteq> None"
  using check_node_type [of c tasks n] node_type_object [of n]
  by (auto simp: released_types_def)

lemma present_objects:
  assumes "\<forall>p \<in> set m. obj (snd p) \<noteq> None"
  shows "present m k \<longleftrightarrow> k \<in> set (keys m)"
proof (cases "map_of m k")
  case None
  then show ?thesis using map_of_None_iff [of m k] by (simp add: present_def)
next
  case (Some v)
  then have "(k, v) \<in> set m" by (rule map_of_in_set)
  then show ?thesis using assms Some by (force simp: present_def)
qed

definition by_id :: "json list \<Rightarrow> (string \<times> json) list" where
  "by_id nodes = map (\<lambda>n. (node_id n, n)) nodes"

lemma keys_by_id [simp]: "keys (by_id nodes) = map node_id nodes"
  by (simp add: by_id_def)

lemma collect_nodes_Inr:
  assumes "collect_nodes c tasks nodes = Inr byID"
  shows "byID = by_id nodes \<and> distinct (map node_id nodes) \<and> (\<forall>n \<in> set nodes. check_node c tasks n = Inr ())"
proof -
  let ?f = "\<lambda>n byID. if present byID (node_id n) then failure ''DUPLICATE_NODE_ID''
       else ebind (check_node c tasks n) (\<lambda>_. Inr (put byID (node_id n) n))"
  have "efold ?f xs (by_id ys) = Inr byID \<Longrightarrow> distinct (map node_id ys) \<Longrightarrow>
      (\<forall>n \<in> set ys. check_node c tasks n = Inr ()) \<Longrightarrow>
      byID = by_id (ys @ xs) \<and> distinct (map node_id (ys @ xs)) \<and>
      (\<forall>n \<in> set (ys @ xs). check_node c tasks n = Inr ())" for xs ys
  proof (induction xs arbitrary: ys)
    case (Cons x xs)
    have "\<forall>p \<in> set (by_id ys). obj (snd p) \<noteq> None"
      using Cons.prems(3) check_node_object by (auto simp: by_id_def)
    then have pr: "present (by_id ys) (node_id x) \<longleftrightarrow> node_id x \<in> set (map node_id ys)"
      by (simp add: present_objects)
    from Cons.prems(1) have np: "\<not> present (by_id ys) (node_id x)" by (auto split: if_splits)
    then have new: "node_id x \<notin> set (map node_id ys)" using pr by blast
    then have "put (by_id ys) (node_id x) x = by_id (ys @ [x])"
      by (simp add: put_def by_id_def)
    with Cons.prems(1) np have "check_node c tasks x = Inr ()" "efold ?f xs (by_id (ys @ [x])) = Inr byID"
      by auto
    with Cons.IH [of "ys @ [x]"] Cons.prems new show ?case by simp
  qed simp
  from this [of nodes "[]"] assms show ?thesis by (simp add: collect_nodes_def by_id_def)
qed

lemma graph_of_by_id: "graph_of (by_id nodes) = map (\<lambda>n. (node_id n, node_after n)) nodes"
  by (simp add: graph_of_def by_id_def)

definition node_graph :: "json list \<Rightarrow> graph" where
  "node_graph nodes = map (\<lambda>n. (node_id n, node_after n)) nodes"

lemma keys_node_graph [simp]: "keys (node_graph nodes) = map node_id nodes"
  by (simp add: node_graph_def)

lemma after_of_node_graph:
  "distinct (map node_id nodes) \<Longrightarrow> n \<in> set nodes \<Longrightarrow> after_of (node_graph nodes) (node_id n) = node_after n"
proof -
  assume d: "distinct (map node_id nodes)" and n: "n \<in> set nodes"
  have "map_of (node_graph nodes) (node_id n) = Some (node_after n)"
    using d n by (intro map_of_is_SomeI) (auto simp: node_graph_def comp_def)
  then show ?thesis by (simp add: after_of_def)
qed

lemma check_dependencies_Inr:
  assumes "check_dependencies (by_id nodes) nodes = Inr ()" and "\<forall>n \<in> set nodes. obj n \<noteq> None"
  shows "\<forall>n \<in> set nodes. set (node_after n) \<subseteq> set (map node_id nodes)"
proof -
  have "\<forall>p \<in> set (by_id nodes). obj (snd p) \<noteq> None" using assms(2) by (auto simp: by_id_def)
  then have "present (by_id nodes) d \<longleftrightarrow> d \<in> set (map node_id nodes)" for d
    using present_objects [of "by_id nodes" d] by (simp only: keys_by_id)
  with assms(1) show ?thesis by (auto simp: check_dependencies_def split: if_splits)
qed

text \<open>The facts an accepted manifest gives, phase by phase.\<close>

lemma workflow_checkedE:
  assumes "workflow_checked c m defs = Inr k"
  obtains nodes tasks where "workflow_nodes c m = Inr nodes" "nodes = items (field m ''nodes'')"
    "collect_tasks c defs = Inr tasks"
    "collect_nodes c tasks nodes = Inr (by_id nodes)"
    "distinct (map node_id nodes)" "\<forall>n \<in> set nodes. check_node c tasks n = Inr ()"
    "\<forall>n \<in> set nodes. set (node_after n) \<subseteq> set (map node_id nodes)"
    "validate_graph c nodes tasks (by_id nodes) = Inr k" "validate_mappings m nodes k = Inr ()"
proof -
  from assms obtain nodes tasks byID where *: "workflow_nodes c m = Inr nodes"
    "collect_tasks c defs = Inr tasks" "collect_nodes c tasks nodes = Inr byID"
    "check_dependencies byID nodes = Inr ()" "validate_graph c nodes tasks byID = Inr k"
    "validate_mappings m nodes k = Inr ()"
    unfolding workflow_checked_def by auto
  from collect_nodes_Inr [OF *(3)] have b: "byID = by_id nodes" "distinct (map node_id nodes)"
    "\<forall>n \<in> set nodes. check_node c tasks n = Inr ()" by auto
  have "\<forall>n \<in> set nodes. obj n \<noteq> None" using b(3) check_node_object by blast
  with check_dependencies_Inr *(4) b have "\<forall>n \<in> set nodes. set (node_after n) \<subseteq> set (map node_id nodes)"
    by blast
  moreover have "nodes = items (field m ''nodes'')"
    using *(1) by (auto simp: workflow_nodes_def Let_def split: if_splits)
  ultimately show ?thesis using that * b by blast
qed

lemma workflow_nodes_size:
  "workflow_nodes c m = Inr nodes \<Longrightarrow> 1 \<le> length nodes \<and> length nodes \<le> 50"
  by (auto simp: workflow_nodes_def Let_def Suc_le_eq split: if_splits)

lemma collect_tasks_Inr:
  assumes "collect_tasks c defs = Inr tasks" and "present tasks name"
  shows "\<exists>t \<in> set defs. str (field t ''name'') = name \<and> ValidateTask c t = Inr ()"
proof -
  let ?P = "\<lambda>tasks. \<forall>p \<in> set tasks. \<exists>t \<in> set defs. str (field t ''name'') = fst p \<and> ValidateTask c t = Inr ()"
  have "?P tasks"
  proof (rule efold_invariant [OF assms(1) [unfolded collect_tasks_def]])
    fix t s s'
    assume t: "t \<in> set defs" and P: "?P s"
      and "ebind (ValidateTask c t) (\<lambda>_. let name = str (field t ''name'') in
        if present s name then failure ''INVALID_TASK'' else Inr (put s name t)) = Inr s'"
    then have "ValidateTask c t = Inr ()" "s' = put s (str (field t ''name'')) t"
      by (auto simp: Let_def split: if_splits)
    then show "?P s'" using P t by (auto simp: put_def split: if_splits)
  qed simp
  moreover obtain v where "(name, v) \<in> set tasks"
    using assms(2) by (auto simp: present_def split: option.splits dest: map_of_in_set)
  ultimately show ?thesis by force
qed

section \<open>Graph facts of an accepted manifest\<close>

lemma visit_all_after_of:
  assumes "visit_all g ids = Inr a" and "set ids = set (keys g)"
  shows "set (after_of a x) = preds g x" and "set ids \<subseteq> set (keys a)"
proof -
  have "memo_ok g []" by (simp add: memo_ok_def)
  with visit_all_state [of g ids "[]" a] assms have a: "memo_ok g a" "set ids \<subseteq> dom (map_of a)"
    by (auto simp: visit_all_def)
  then show "set ids \<subseteq> set (keys a)" by (simp add: dom_map_of_conv_image_fst)
  show "set (after_of a x) = preds g x"
  proof (cases "map_of a x")
    case None
    then have "x \<notin> set (keys g)" using a(2) assms(2) by blast
    then have "preds g x = {}" using edges_in_keys [of _ x g] by (auto simp: preds_def)
    with None show ?thesis by (simp add: after_of_def)
  next
    case (Some s)
    with memo_okD [OF a(1)] show ?thesis by (simp add: after_of_def)
  qed
qed

lemma descendants_of_preds:
  assumes "visit_all g ids = Inr a" and "set ids = set (keys g)" and "ch \<in> set (keys byID)"
  shows "set (after_of (descendants_of byID a) ch) = {x. ch \<in> preds g x}"
proof -
  have "map_of (descendants_of byID a) ch = Some (filter (\<lambda>x. ch \<in> set (after_of a x)) (keys a))"
    using assms(3) by (induction byID) (auto simp: descendants_of_def)
  moreover have "x \<in> set (keys a)" if "ch \<in> preds g x" for x
    using that visit_all_after_of(2) [OF assms(1,2)] assms(2) edges_in_keys [of ch x g]
    by (auto simp: preds_def)
  ultimately show ?thesis
    using visit_all_after_of(1) [OF assms(1,2)] by (auto simp: after_of_def [of "descendants_of byID a"])
qed

definition merge_target :: "json \<Rightarrow> string" where
  "merge_target n = str (field (field n ''merge'') ''choice'')"

lemma check_merge_branches_Inr:
  assumes "efold (check_merge_branch byID manc cdesc cNames) bs ns = Inr ns'"
  shows "ns' = rev (map merge_branch bs) @ ns \<and>
    (distinct ns \<longrightarrow> distinct (map merge_branch bs) \<and> set (map merge_branch bs) \<inter> set ns = {}) \<and>
    (\<forall>b \<in> set bs. merge_branch b \<in> set cNames \<and> merge_terminal b \<in> set manc \<and> merge_terminal b \<in> set cdesc)"
  using assms
proof (induction bs arbitrary: ns)
  case (Cons b bs)
  from Cons.prems obtain t where t: "check_merge_branch byID manc cdesc cNames b ns = Inr t"
    and e: "efold (check_merge_branch byID manc cdesc cNames) bs t = Inr ns'" by auto
  from t have b: "merge_branch b \<notin> set ns" "merge_branch b \<in> set cNames" "merge_terminal b \<in> set manc"
    "merge_terminal b \<in> set cdesc" and t': "t = merge_branch b # ns"
    by (auto simp: check_merge_branch_def Let_def split: if_splits)
  note r = e [unfolded t']
  from Cons.IH [OF r] b show ?case by auto
qed simp

lemma check_merge_Inr:
  assumes "check_merge c byID anc desc choices p mfc = Inr mfc'"
  shows "mfc' = (merge_target (snd p), fst p) # mfc" "merge_target (snd p) \<in> set (keys choices)"
    "merge_target (snd p) \<in> set (after_of anc (fst p))" "lookup_str mfc (merge_target (snd p)) = []"
    "distinct (map merge_branch (merge_branches (snd p)))"
    "\<exists>node. map_of choices (merge_target (snd p)) = Some node \<and>
       set (map merge_branch (merge_branches (snd p))) = set (choice_names node)"
    "\<forall>b \<in> set (merge_branches (snd p)). merge_terminal b \<in> set (after_of anc (fst p)) \<and>
       merge_terminal b \<in> set (after_of desc (merge_target (snd p)))"
proof -
  from assms obtain node names where n: "map_of choices (merge_target (snd p)) = Some node"
    and e: "efold (check_merge_branch byID (after_of anc (fst p)) (after_of desc (merge_target (snd p)))
        (choice_names node)) (merge_branches (snd p)) [] = Inr names"
    and a: "merge_target (snd p) \<in> set (after_of anc (fst p))"
    and l: "lookup_str mfc (merge_target (snd p)) = []"
    and cn: "\<forall>cn \<in> set (choice_names node). cn \<in> set names"
    and m: "mfc' = (merge_target (snd p), fst p) # mfc"
    unfolding check_merge_def Let_def merge_target_def merge_branches_def
    by (auto split: if_splits option.splits)
  note b = check_merge_branches_Inr [OF e]
  show "mfc' = (merge_target (snd p), fst p) # mfc" by (rule m)
  show "merge_target (snd p) \<in> set (keys choices)" using map_of_in_set [OF n] by force
  show "merge_target (snd p) \<in> set (after_of anc (fst p))" by (rule a)
  show "lookup_str mfc (merge_target (snd p)) = []" by (rule l)
  show "distinct (map merge_branch (merge_branches (snd p)))" using b by simp
  show "\<exists>node. map_of choices (merge_target (snd p)) = Some node \<and>
       set (map merge_branch (merge_branches (snd p))) = set (choice_names node)"
    using n b cn by auto
  show "\<forall>b \<in> set (merge_branches (snd p)). merge_terminal b \<in> set (after_of anc (fst p)) \<and>
       merge_terminal b \<in> set (after_of desc (merge_target (snd p)))"
    using b by auto
qed

text \<open>The table of merges after all of them: in reverse order, and with distinct choices when no
  merge has the empty id.\<close>

lemma check_merges_Inr:
  assumes "efold (check_merge c byID anc desc choices) ms mfc = Inr mfc'"
    and "[] \<notin> set (keys ms)" and "[] \<notin> snd ` set mfc" and "distinct (keys mfc)"
  shows "mfc' = rev (map (\<lambda>p. (merge_target (snd p), fst p)) ms) @ mfc \<and> distinct (keys mfc') \<and>
    (\<forall>p \<in> set ms. \<exists>t t'. check_merge c byID anc desc choices p t = Inr t')"
  using assms
proof (induction ms arbitrary: mfc)
  case (Cons p ms)
  then obtain t where t: "check_merge c byID anc desc choices p mfc = Inr t"
    and r: "efold (check_merge c byID anc desc choices) ms t = Inr mfc'" by auto
  note m = check_merge_Inr [OF t]
  have "merge_target (snd p) \<notin> set (keys mfc)"
  proof
    assume "merge_target (snd p) \<in> set (keys mfc)"
    then obtain v where v: "map_of mfc (merge_target (snd p)) = Some v" using map_of_Some_ex by fast
    with m(4) have "v = []" by (simp add: lookup_str_def)
    with map_of_in_set [OF v] Cons.prems(3) show False by force
  qed
  then have "distinct (keys t)" "[] \<notin> snd ` set t" using m(1) Cons.prems by auto
  moreover have "[] \<notin> set (keys ms)" using Cons.prems(2) by auto
  ultimately have IH: "mfc' = rev (map (\<lambda>p. (merge_target (snd p), fst p)) ms) @ t" "distinct (keys mfc')"
    "\<forall>p \<in> set ms. \<exists>t t'. check_merge c byID anc desc choices p t = Inr t'"
    using Cons.IH [OF r] by blast+
  have "\<forall>q \<in> set (p # ms). \<exists>t t'. check_merge c byID anc desc choices q t = Inr t'"
    using IH(3) t by auto
  then show ?case using IH(1,2) m(1) by simp
qed simp

text \<open>The nodes of one branch, and the shape the checks enforce: edges enter a branch only from the
  choice, from the branch or from what precedes the choice, and leave it only to the merge.\<close>

definition region :: "graph \<Rightarrow> string \<Rightarrow> string \<Rightarrow> string \<Rightarrow> string set" where
  "region g ch mg t =
     {x \<in> set (keys g). x \<noteq> ch \<and> x \<noteq> mg \<and> ch \<in> preds g x \<and> (x = t \<or> x \<in> preds g t)}"

definition closed_region :: "graph \<Rightarrow> string \<Rightarrow> string \<Rightarrow> string set \<Rightarrow> bool" where
  "closed_region g ch mg R \<longleftrightarrow>
     (\<forall>(d, x) \<in> edges g. (x \<in> R \<longrightarrow> d \<in> insert ch (R \<union> preds g ch)) \<and> (d \<in> R \<longrightarrow> x \<in> insert mg R))"

lemma branch_sets_Inr:
  assumes "branch_sets ids a d ch mg bs = Inr sets" and "distinct (map merge_branch bs)"
  shows "sets = map (\<lambda>b. (merge_branch b, branch_set ids a d ch mg (merge_terminal b))) bs \<and>
    (\<forall>b \<in> set bs. branch_set ids a d ch mg (merge_terminal b) \<noteq> [])"
proof -
  let ?e = "\<lambda>b. (merge_branch b, branch_set ids a d ch mg (merge_terminal b))"
  let ?f = "\<lambda>b sets. let bSet = branch_set ids a d ch mg (merge_terminal b) in
        if bSet = [] then failure ''INVALID_BRANCH'' else Inr (put_branch sets (merge_branch b) bSet)"
  have "efold ?f xs (map ?e ys) = Inr sets \<Longrightarrow> distinct (map merge_branch (ys @ xs)) \<Longrightarrow>
      sets = map ?e (ys @ xs) \<and> (\<forall>b \<in> set xs. branch_set ids a d ch mg (merge_terminal b) \<noteq> [])" for xs ys
  proof (induction xs arbitrary: ys)
    case (Cons x xs)
    have ne: "branch_set ids a d ch mg (merge_terminal x) \<noteq> []"
      using Cons.prems(1) by (auto simp: Let_def split: if_splits)
    have "put_branch (map ?e ys) (merge_branch x) (branch_set ids a d ch mg (merge_terminal x)) = map ?e (ys @ [x])"
      using Cons.prems(2) by (auto simp: put_branch_def)
    with Cons.prems(1) ne have "efold ?f xs (map ?e (ys @ [x])) = Inr sets" by (simp add: Let_def)
    from Cons.IH [OF this] Cons.prems(2) ne show ?case by simp
  qed simp
  from this [of bs "[]"] assms show ?thesis by (simp add: branch_sets_def)
qed

lemma check_disjoint_Inr:
  "check_disjoint sets = Inr () \<Longrightarrow> e \<in> set sets \<Longrightarrow> f \<in> set sets \<Longrightarrow> fst e \<noteq> fst f \<Longrightarrow>
     set (snd e) \<inter> set (snd f) = {}"
proof (induction sets)
  case (Cons x rest)
  have x: "set (snd x) \<inter> set (snd y) = {}" if "y \<in> set rest" for y
    using Cons.prems(1) that by (fastforce split: if_splits)
  have "check_disjoint rest = Inr ()" using Cons.prems(1) by simp
  with Cons x show ?case by (metis Int_commute set_ConsD)
qed simp

lemma check_single_entry_exit_Inr:
  assumes "check_single_entry_exit g a ch mg sets = Inr ()" and "e \<in> set sets"
    and "\<And>x. set (after_of a x) = preds g x" and "distinct (keys g)"
  shows "closed_region g ch mg (set (snd e))"
  unfolding closed_region_def
proof (clarify, intro conjI impI)
  fix d x
  assume dx: "(d, x) \<in> edges g"
  from assms(1,2) have *: "\<And>u. u \<in> set (snd e) \<Longrightarrow>
      (\<forall>d \<in> set (after_of g u). d = ch \<or> d \<in> set (snd e) \<or> d \<in> set (after_of a ch)) \<and>
      (\<forall>w \<in> set g. \<not> (u \<in> set (snd w) \<and> fst w \<noteq> mg \<and> fst w \<notin> set (snd e)))"
    unfolding check_single_entry_exit_def by (fastforce split: if_splits)
  {
    assume "x \<in> set (snd e)"
    with * [of x] dx assms(3) show "d \<in> insert ch (set (snd e) \<union> preds g ch)"
      by (auto simp: edges_def)
  }
  {
    assume "d \<in> set (snd e)"
    moreover obtain ds where "(x, ds) \<in> set g" "d \<in> set ds"
      using dx by (auto simp: edges_def after_of_def split: option.splits dest!: map_of_in_set [OF sym])
    ultimately show "x \<in> insert mg (set (snd e))" using * [of d] by fastforce
  }
qed

lemma branch_set_region:
  assumes "visit_all g ids = Inr a" and "set ids = set (keys g)" and "ch \<in> set (keys byID)"
  shows "set (branch_set (keys g) a (descendants_of byID a) ch mg t) = region g ch mg t"
  unfolding branch_set_def region_def
  using descendants_of_preds [OF assms] visit_all_after_of(1) [OF assms(1,2)] by auto

lemma check_merge_deps_Inr:
  assumes "check_merge_deps g merges mfc (ch, sets) = Inr ()" and "map_of merges (lookup_str mfc ch) = Some n"
    and "d \<in> set (after_of g (lookup_str mfc ch))" and "e \<in> set sets" and "d \<in> set (snd e)"
  shows "d \<in> merge_terminal ` set (merge_branches n)"
  using assms unfolding check_merge_deps_def Let_def by (auto split: if_splits)

lemma check_region_Inr:
  assumes "check_region g a d merges mfc ch = Inr r"
  shows "\<exists>sets. r = (ch, sets) \<and> (let mg = lookup_str mfc ch;
      bs = (case map_of merges mg of None \<Rightarrow> [] | Some n \<Rightarrow> merge_branches n) in
    branch_sets (keys g) a d ch mg bs = Inr sets \<and> check_disjoint sets = Inr () \<and>
    check_single_entry_exit g a ch mg sets = Inr ())"
  using assms by (auto simp: check_region_def Let_def)


lemma validate_graphE:
  assumes "validate_graph c nodes tasks (by_id nodes) = Inr k"
  obtains "chk_tasks k = tasks" "chk_byID k = by_id nodes"
    "visit_all (node_graph nodes) (map node_id nodes) = Inr (chk_ancestors k)"
    "efold (check_merge c (by_id nodes) (chk_ancestors k) (descendants_of (by_id nodes) (chk_ancestors k))
       (of_type ''choice'' (by_id nodes))) (of_type ''merge'' (by_id nodes)) [] = Inr (chk_merges k)"
    "check_choices_merged (of_type ''choice'' (by_id nodes)) (chk_merges k) = Inr ()"
    "emap (\<lambda>p. check_region (node_graph nodes) (chk_ancestors k) (descendants_of (by_id nodes) (chk_ancestors k))
       (of_type ''merge'' (by_id nodes)) (chk_merges k) (fst p)) (of_type ''choice'' (by_id nodes)) = Inr (chk_regions k)"
    "\<forall>r \<in> set (chk_regions k). check_merge_deps (node_graph nodes) (of_type ''merge'' (by_id nodes)) (chk_merges k) r = Inr ()"
    "check_nesting (chk_regions k) = Inr ()"
  using assms unfolding validate_graph_def Let_def graph_of_by_id node_graph_def [symmetric]
  by (auto simp del: efold.simps)

lemma of_type_by_id: "(x, n) \<in> set (of_type t (by_id nodes)) \<longleftrightarrow> n \<in> set nodes \<and> x = node_id n \<and> node_type n = t"
  by (auto simp: of_type_def by_id_def)

lemma distinct_of_type: "distinct (map node_id nodes) \<Longrightarrow> distinct (keys (of_type t (by_id nodes)))"
  unfolding of_type_def by (rule distinct_map_filter) (simp add: by_id_def comp_def)

lemma map_of_of_type:
  assumes "distinct (map node_id nodes)" "n \<in> set nodes" "node_type n = t"
  shows "map_of (of_type t (by_id nodes)) (node_id n) = Some n"
  using assms by (intro map_of_is_SomeI distinct_of_type) (simp_all add: of_type_by_id)

text \<open>A choice has exactly one merge, and its branch regions have the shape above.\<close>

lemma choice_has_merge:
  assumes vg: "validate_graph c nodes tasks (by_id nodes) = Inr k" and d: "distinct (map node_id nodes)"
    and ne: "[] \<notin> set (map node_id nodes)" and ch: "ch \<in> set nodes" "node_type ch = ''choice''"
  shows "\<exists>mg \<in> set nodes. node_type mg = ''merge'' \<and> merge_target mg = node_id ch \<and>
    lookup_str (chk_merges k) (node_id ch) = node_id mg \<and>
    (\<forall>mg' \<in> set nodes. node_type mg' = ''merge'' \<and> merge_target mg' = node_id ch \<longrightarrow> mg' = mg) \<and>
    node_id ch \<in> preds (node_graph nodes) (node_id mg) \<and>
    distinct (map merge_branch (merge_branches mg)) \<and>
    set (map merge_branch (merge_branches mg)) = set (choice_names ch) \<and>
    (\<forall>b \<in> set (merge_branches mg). merge_terminal b \<in> preds (node_graph nodes) (node_id mg) \<and>
       node_id ch \<in> preds (node_graph nodes) (merge_terminal b))"
proof -
  let ?ms = "of_type ''merge'' (by_id nodes)" and ?cs = "of_type ''choice'' (by_id nodes)"
  from vg obtain vis: "visit_all (node_graph nodes) (map node_id nodes) = Inr (chk_ancestors k)"
    and ef: "efold (check_merge c (by_id nodes) (chk_ancestors k) (descendants_of (by_id nodes) (chk_ancestors k))
       ?cs) ?ms [] = Inr (chk_merges k)"
    and cm: "check_choices_merged ?cs (chk_merges k) = Inr ()" by (rule validate_graphE)
  note anc = visit_all_after_of(1) [OF vis] and desc = descendants_of_preds [OF vis]
  have "[] \<notin> set (keys ?ms)" using ne by (auto simp: of_type_def by_id_def)
  from check_merges_Inr [OF ef this]
  have mfc: "chk_merges k = rev (map (\<lambda>p. (merge_target (snd p), fst p)) ?ms)" "distinct (keys (chk_merges k))"
    and all: "\<forall>p \<in> set ?ms. \<exists>t t'. check_merge c (by_id nodes) (chk_ancestors k)
       (descendants_of (by_id nodes) (chk_ancestors k)) ?cs p t = Inr t'" by auto
  have in_mfc: "(merge_target n, node_id n) \<in> set (chk_merges k)" if "n \<in> set nodes" "node_type n = ''merge''" for n
  proof -
    have "(node_id n, n) \<in> set ?ms" using that by (simp add: of_type_by_id)
    then show ?thesis unfolding mfc(1) by force
  qed
  have "(node_id ch, ch) \<in> set ?cs" using ch by (simp add: of_type_by_id)
  with cm have "lookup_str (chk_merges k) (node_id ch) \<noteq> []"
    by (force simp: check_choices_merged_def split: if_splits)
  then obtain mid where mid: "map_of (chk_merges k) (node_id ch) = Some mid"
    by (auto simp: lookup_str_def split: option.splits)
  from map_of_in_set [OF this] obtain mg where mg: "mg \<in> set nodes" "node_type mg = ''merge''"
    "merge_target mg = node_id ch" "mid = node_id mg"
    unfolding mfc(1) by (auto simp: of_type_by_id)
  have uniq: "mg' = mg" if "mg' \<in> set nodes" "node_type mg' = ''merge''" "merge_target mg' = node_id ch" for mg'
  proof -
    have "map_of (chk_merges k) (node_id ch) = Some (node_id mg')"
      using in_mfc [OF that(1,2)] that(3) mfc(2) by (simp add: map_of_is_SomeI)
    with mid mg d that(1) show ?thesis by (auto dest: inj_onD simp: distinct_map)
  qed
  from mg all obtain t t' where "check_merge c (by_id nodes) (chk_ancestors k)
       (descendants_of (by_id nodes) (chk_ancestors k)) ?cs (node_id mg, mg) t = Inr t'"
    by (fastforce simp: of_type_by_id)
  note m = check_merge_Inr [OF this, unfolded snd_conv fst_conv mg(3)]
  have "node_id ch \<in> set (keys (by_id nodes))" using ch by simp
  note desc = desc [OF _ this]
  have "node_id ch \<in> preds (node_graph nodes) (node_id mg)" using m(3) anc by simp
  moreover have "set (map merge_branch (merge_branches mg)) = set (choice_names ch)"
    using m(6) map_of_of_type [OF d ch] by simp
  moreover have "\<forall>b \<in> set (merge_branches mg). merge_terminal b \<in> preds (node_graph nodes) (node_id mg) \<and>
       node_id ch \<in> preds (node_graph nodes) (merge_terminal b)"
    using m(7) anc desc by auto
  moreover have "lookup_str (chk_merges k) (node_id ch) = node_id mg" using mid mg by (simp add: lookup_str_def)
  ultimately show ?thesis using mg uniq m(5) by blast
qed

lemma check_regions_keys:
  "list_all2 (\<lambda>p r. check_region g a d ms mfc (fst p) = Inr r) cs rs \<Longrightarrow> keys rs = keys cs"
  by (induction rule: list_all2_induct) (auto dest: check_region_Inr)

lemma choice_regions:
  assumes vg: "validate_graph c nodes tasks (by_id nodes) = Inr k" and d: "distinct (map node_id nodes)"
    and ch: "ch \<in> set nodes" "node_type ch = ''choice''"
    and mg: "mg \<in> set nodes" "node_type mg = ''merge''" "lookup_str (chk_merges k) (node_id ch) = node_id mg"
    and db: "distinct (map merge_branch (merge_branches mg))"
    and R: "R = (\<lambda>b. region (node_graph nodes) (node_id ch) (node_id mg) (merge_terminal b))"
  shows "\<exists>sets. map_of (chk_regions k) (node_id ch) = Some sets \<and>
      map (\<lambda>e. (fst e, set (snd e))) sets = map (\<lambda>b. (merge_branch b, R b)) (merge_branches mg)"
    and "b \<in> set (merge_branches mg) \<Longrightarrow> R b \<noteq> {} \<and> closed_region (node_graph nodes) (node_id ch) (node_id mg) (R b)"
    and "b \<in> set (merge_branches mg) \<Longrightarrow> b' \<in> set (merge_branches mg) \<Longrightarrow>
      merge_branch b \<noteq> merge_branch b' \<Longrightarrow> R b \<inter> R b' = {}"
    and "b \<in> set (merge_branches mg) \<Longrightarrow> x \<in> set (node_after mg) \<Longrightarrow> x \<in> R b \<Longrightarrow>
      x \<in> merge_terminal ` set (merge_branches mg)"
proof -
  let ?ms = "of_type ''merge'' (by_id nodes)" and ?cs = "of_type ''choice'' (by_id nodes)"
  let ?g = "node_graph nodes" and ?a = "chk_ancestors k"
  let ?d = "descendants_of (by_id nodes) (chk_ancestors k)"
  let ?bs = "\<lambda>b. branch_set (keys ?g) ?a ?d (node_id ch) (node_id mg) (merge_terminal b)"
  from vg obtain vis: "visit_all ?g (map node_id nodes) = Inr ?a"
    and em: "emap (\<lambda>p. check_region ?g ?a ?d ?ms (chk_merges k) (fst p)) ?cs = Inr (chk_regions k)"
    and md: "\<forall>r \<in> set (chk_regions k). check_merge_deps ?g ?ms (chk_merges k) r = Inr ()"
    by (rule validate_graphE)
  have cid: "node_id ch \<in> set (keys (by_id nodes))" using ch by simp
  have chin: "(node_id ch, ch) \<in> set ?cs" using ch by (simp add: of_type_by_id)
  have mof: "map_of ?ms (node_id mg) = Some mg" by (rule map_of_of_type [OF d mg(1,2)])
  from em have l2: "list_all2 (\<lambda>p r. check_region ?g ?a ?d ?ms (chk_merges k) (fst p) = Inr r) ?cs (chk_regions k)"
    by (simp add: emap_Inr_list_all2)
  then have keys: "keys (chk_regions k) = keys ?cs"
    by (rule check_regions_keys)
  then obtain sets where sets: "map_of (chk_regions k) (node_id ch) = Some sets"
    using chin map_of_Some_ex [of "node_id ch" "chk_regions k"] by force
  then have rin: "(node_id ch, sets) \<in> set (chk_regions k)" by (rule map_of_in_set)
  with l2 obtain p where "check_region ?g ?a ?d ?ms (chk_merges k) (fst p) = Inr (node_id ch, sets)"
    by (auto simp: list_all2_conv_all_nth in_set_conv_nth)
  from check_region_Inr [OF this] have r: "check_region ?g ?a ?d ?ms (chk_merges k) (node_id ch) = Inr (node_id ch, sets)"
    using \<open>check_region ?g ?a ?d ?ms (chk_merges k) (fst p) = Inr (node_id ch, sets)\<close> by auto
  from check_region_Inr [OF this] have c1: "branch_sets (keys ?g) ?a ?d (node_id ch) (node_id mg) (merge_branches mg) = Inr sets"
    and c2: "check_disjoint sets = Inr ()" and c3: "check_single_entry_exit ?g ?a (node_id ch) (node_id mg) sets = Inr ()"
    by (simp_all add: Let_def mg(3) mof)
  have ids: "set (map node_id nodes) = set (keys ?g)" by simp
  have Rb: "set (?bs b) = R b" for b
    unfolding R by (rule branch_set_region [OF vis ids cid])
  from branch_sets_Inr [OF c1 db] have s: "sets = map (\<lambda>b. (merge_branch b, ?bs b)) (merge_branches mg)"
    and ne: "\<forall>b \<in> set (merge_branches mg). ?bs b \<noteq> []" by blast+
  show "\<exists>sets. map_of (chk_regions k) (node_id ch) = Some sets \<and>
      map (\<lambda>e. (fst e, set (snd e))) sets = map (\<lambda>b. (merge_branch b, R b)) (merge_branches mg)"
    using sets s Rb by (intro exI [of _ sets]) (simp add: comp_def)
  have e: "(merge_branch b, ?bs b) \<in> set sets" if "b \<in> set (merge_branches mg)" for b
    using that s by auto
  show "R b \<noteq> {} \<and> closed_region ?g (node_id ch) (node_id mg) (R b)" if "b \<in> set (merge_branches mg)"
    using check_single_entry_exit_Inr [OF c3 e [OF that] visit_all_after_of(1) [OF vis ids]] d ne that Rb [of b]
    by (metis keys_node_graph set_empty snd_conv)
  show "R b \<inter> R b' = {}" if "b \<in> set (merge_branches mg)" "b' \<in> set (merge_branches mg)" "merge_branch b \<noteq> merge_branch b'"
    using check_disjoint_Inr [OF c2 e [OF that(1)] e [OF that(2)]] that(3) Rb by simp
  show "x \<in> merge_terminal ` set (merge_branches mg)"
    if "b \<in> set (merge_branches mg)" "x \<in> set (node_after mg)" "x \<in> R b"
    using check_merge_deps_Inr [of ?g ?ms "chk_merges k" "node_id ch" sets mg x, unfolded mg(3), OF _ mof _ e [OF that(1)]]
      md rin after_of_node_graph [OF d mg(1)] that Rb [of b] by simp
qed

section \<open>Accepted mappings do not fail\<close>

lemma check_mapping_refs:
  "check_mapping so sch al v = Inr us \<Longrightarrow>
     mapping_ok v \<and> (\<forall>r \<in> set (map_refs v). \<exists>u. check_reference so sch al r = Inr u)"
proof (induction v arbitrary: us rule: json_induct)
  case (Arr xs)
  from Arr.prems obtain ys where "emap (check_mapping so sch al) xs = Inr ys" by auto
  then have "\<forall>x \<in> set xs. \<exists>y. check_mapping so sch al x = Inr y" using emap_Inr_ex [of "check_mapping so sch al" xs] by simp
  then have "mapping_ok x \<and> (\<forall>r \<in> set (map_refs x). \<exists>u. check_reference so sch al r = Inr u)"
    if "x \<in> set xs" for x
    using Arr.IH [OF that] that by fast
  then show ?case by simp
next
  case (Obj m)
  show ?case
  proof (cases "''literal'' \<in> set (keys m)")
    case True
    with Obj.prems show ?thesis by (simp del: set_map split: if_splits)
  next
    case nolit: False
    show ?thesis
    proof (cases "''$ref'' \<in> set (keys m)")
      case True
      with nolit Obj.prems have r: "check_reference so sch al m = Inr us" by (simp del: set_map)
      then have "Reference m = Inr ()" by (simp add: check_reference_def)
      with r True nolit show ?thesis by (simp del: set_map)
    next
      case False
      with nolit Obj.prems obtain ys where "emap (\<lambda>kv. check_mapping so sch al (snd kv)) m = Inr ys"
        by (auto simp del: set_map)
      then have "\<forall>kv \<in> set m. \<exists>y. check_mapping so sch al (snd kv) = Inr y"
        using emap_Inr_ex [of "\<lambda>kv. check_mapping so sch al (snd kv)" m] by simp
      then have *: "mapping_ok (snd kv) \<and>
          (\<forall>r \<in> set (map_refs (snd kv)). \<exists>u. check_reference so sch al r = Inr u)" if "kv \<in> set m" for kv
        using Obj.IH [OF that] that by fast
      have "mapping_ok (JObj m)" using * nolit False by (simp del: set_map)
      with * show ?thesis unfolding map_refs_plain [OF nolit False] by blast
    qed
  qed
qed auto

context schema_semantics
begin

lemma check_reference_resolves:
  assumes "check_reference so sch al r = Inr u" and "valid sch input"
    and "\<forall>x \<in> set al. \<exists>v. map_of outputs x = Some v \<and> valid (so x) v"
  shows "\<exists>x. resolve input outputs r = Inr x"
proof -
  from assms(1) obtain parts where p: "PointerParts (lookup_field r ''pointer'') = Inr parts"
    using Reference_pointer [of r] by (auto simp: check_reference_def)
  from assms(1) p have al: "is_step_ref r \<Longrightarrow> ref_step r \<in> set al"
    and g: "''default'' \<in> set (keys r) \<or> guaranteed (if is_step_ref r then so (ref_step r) else sch) parts"
    by (auto simp: check_reference_def Let_def split: if_splits)
  from al assms(2,3) obtain src where src: "(if is_step_ref r then map_of outputs (ref_step r) else Some input) = Some src"
    and v: "valid (if is_step_ref r then so (ref_step r) else sch) src"
    by (cases "is_step_ref r") auto
  show ?thesis
    by (rule resolve_succeeds [OF p]) (use g src guaranteed_lookup [OF _ v] in blast)
qed

lemma check_mapping_sound:
  assumes "check_mapping so sch al v = Inr u" and "valid sch input"
    and "\<forall>x \<in> set al. \<exists>w. map_of outputs x = Some w \<and> valid (so x) w"
  shows "\<exists>r. map_walk input outputs v = Inr r"
  using check_mapping_refs [OF assms(1)] check_reference_resolves [OF _ assms(2,3)]
  unfolding map_walk_succeeds_iff by blast

end

text \<open>What \<open>checkJSON\<close> accepts it accepts in every part.\<close>

definition json_ok :: "json \<Rightarrow> bool" where
  "json_ok v \<longleftrightarrow> clean v \<and> nesting v \<le> 32"

lemma json_ok_iff: "json_ok v \<longleftrightarrow> checkJSON v 0 = Inr ()"
  by (auto simp: json_ok_def checkJSON_iff)

lemma nesting_member: "kv \<in> set m \<Longrightarrow> nesting (snd kv) \<le> nesting (JObj m)"
  using nesting_Obj_le [of 0 m "nesting (JObj m)"] by auto

lemma nesting_item: "x \<in> set xs \<Longrightarrow> nesting x \<le> nesting (JArr xs)"
  using nesting_Arr_le [of 0 xs "nesting (JArr xs)"] by auto

lemma json_ok_field: "json_ok v \<Longrightarrow> json_ok (field v k)"
proof (cases "map_of (members v) k")
  case None
  then show ?thesis by (simp add: field_def lookup_field_def json_ok_def)
next
  case (Some w)
  assume ok: "json_ok v"
  from map_of_in_set [OF Some] obtain m where m: "v = JObj m" "(k, w) \<in> set m"
    by (cases v) (auto simp: members_def)
  with ok nesting_member [OF m(2)] have "json_ok w" by (auto simp: json_ok_def simp del: nesting.simps)
  with Some show ?thesis by (simp add: field_def lookup_field_def)
qed

lemma json_ok_items: "json_ok v \<Longrightarrow> x \<in> set (items v) \<Longrightarrow> json_ok x"
proof (cases v)
  case (JArr xs)
  assume "json_ok v" "x \<in> set (items v)"
  with JArr nesting_item [of x xs] show ?thesis
    by (auto simp: json_ok_def items_def simp del: nesting.simps)
qed (auto simp: items_def)

lemma workflow_nodes_ok: "workflow_nodes c m = Inr nodes \<Longrightarrow> json_ok m"
  by (auto simp: workflow_nodes_def json_ok_iff)

lemma MapInput_json_ok:
  assumes "json_ok mapping" "json_ok input" "json_ok (JObj outputs)"
  shows "MapInput mapping input outputs = map_walk input outputs mapping"
  using assms by (simp add: MapInput_def json_ok_iff del: checkJSON.simps)

section \<open>Properties\<close>

text \<open>A manifest with one choice, used by the witnesses.\<close>

definition sample_payload :: json where
  "sample_payload = JObj [(''type'', JStr ''object''), (''required'', JArr [JStr ''k'']),
     (''properties'', JObj [(''k'', JObj [(''type'', JStr ''string'')])])]"

definition sample_task :: json where
  "sample_task = JObj [(''name'', JStr ''t''), (''inputSchema'', sample_payload), (''outputSchema'', sample_payload)]"

definition sample_ref :: "string \<Rightarrow> json" where
  "sample_ref s = JObj [(''k'', JObj [(''$ref'', JStr ''step.output''), (''stepId'', JStr s), (''pointer'', JStr ''/k'')])]"

definition sample_node :: "string \<Rightarrow> string list \<Rightarrow> json \<Rightarrow> json" where
  "sample_node nid ds inp = JObj [(''id'', JStr nid), (''type'', JStr ''task''), (''task'', JStr ''t''),
     (''after'', JArr (map JStr ds)), (''input'', inp)]"

definition sample_choice :: json where
  "sample_choice = JObj [(''id'', JStr ''c''), (''type'', JStr ''choice''), (''after'', JArr [JStr ''a'']),
     (''choice'', JObj [(''branches'', JArr [
        JObj [(''name'', JStr ''l''), (''condition'', JObj [(''op'', JStr ''exists''), (''args'', JArr [
           JObj [(''$ref'', JStr ''step.output''), (''stepId'', JStr ''a''), (''pointer'', JStr ''/k'')]])])],
        JObj [(''name'', JStr ''r'')]]), (''default'', JStr ''r'')])]"

definition sample_merge :: json where
  "sample_merge = JObj [(''id'', JStr ''m''), (''type'', JStr ''merge''), (''after'', JArr [JStr ''x'', JStr ''y'']),
     (''merge'', JObj [(''choice'', JStr ''c''), (''outputSchema'', sample_payload), (''branches'', JArr [
        JObj [(''branch'', JStr ''l''), (''terminal'', JStr ''x''), (''value'', sample_ref ''x'')],
        JObj [(''branch'', JStr ''r''), (''terminal'', JStr ''y''), (''value'', sample_ref ''y'')]])])]"

definition sample_workflow :: json where
  "sample_workflow = JObj [(''manifestVersion'', JNum (Finite 1)), (''inputSchema'', sample_payload),
     (''outputSchema'', sample_payload), (''output'', sample_ref ''m''), (''nodes'', JArr [
        sample_node ''a'' [] (JObj [(''k'', JObj [(''$ref'', JStr ''run.input''), (''pointer'', JStr ''/k'')])]),
        sample_choice, sample_node ''x'' [''c''] (sample_ref ''a''), sample_node ''y'' [''c''] (sample_ref ''a''),
        sample_merge])]"

lemma sample_workflow_checked:
  "case workflow_checked sample_externals sample_workflow [sample_task] of
     Inl e \<Rightarrow> False
   | Inr k \<Rightarrow> chk_byID k = by_id (items (field sample_workflow ''nodes'')) \<and> chk_tasks k = [(''t'', sample_task)] \<and>
       set (node_allowed (chk_ancestors k) (chk_regions k) (chk_merges k) ''x'') = {''a'', ''c''} \<and>
       output_allowed (keys (chk_byID k)) (chk_regions k) = [''a'', ''c'', ''m'']"
  by code_simp

lemma sample_workflow_accepted: "ValidateWorkflow sample_externals sample_workflow [sample_task] = Inr ()"
  using sample_workflow_checked
  by (cases "workflow_checked sample_externals sample_workflow [sample_task]") (simp_all add: ValidateWorkflow_def)

text \<open>C19: an accepted workflow has between 1 and 50 nodes, of released types, with distinct ids; every
  dependency names a node; the dependency graph has no cycle; every task node names one of the
  task definitions, which is itself valid.\<close>

theorem accepted_structure:
  assumes "ValidateWorkflow c m defs = Inr ()" and "nodes = items (field m ''nodes'')"
  shows "1 \<le> length nodes \<and> length nodes \<le> 50 \<and> distinct (map node_id nodes) \<and>
    (\<forall>n \<in> set nodes. node_type n \<in> set released_types \<and> set (node_after n) \<subseteq> set (map node_id nodes)) \<and>
    acyclic (edges (node_graph nodes)) \<and>
    (\<forall>n \<in> set nodes. node_type n = ''task'' \<longrightarrow>
       (\<exists>t \<in> set defs. str (field t ''name'') = str (field n ''task'') \<and> ValidateTask c t = Inr ()))"
proof -
  from assms(1) obtain k where "workflow_checked c m defs = Inr k" by (auto simp: ValidateWorkflow_def)
  then obtain nodes' tasks where w: "workflow_nodes c m = Inr nodes'" "nodes' = items (field m ''nodes'')"
    "collect_tasks c defs = Inr tasks" "distinct (map node_id nodes')"
    "\<forall>n \<in> set nodes'. check_node c tasks n = Inr ()"
    "\<forall>n \<in> set nodes'. set (node_after n) \<subseteq> set (map node_id nodes')"
    "validate_graph c nodes' tasks (by_id nodes') = Inr k" by (rule workflow_checkedE)
  have n: "nodes' = nodes" using w(2) assms(2) by simp
  from w(7) have "visit_all (node_graph nodes') (map node_id nodes') = Inr (chk_ancestors k)"
    by (rule validate_graphE)
  then have "acyclic (edges (node_graph nodes))"
    using visit_all_acyclic_iff [of "map node_id nodes'" "node_graph nodes'"] n by auto
  then show ?thesis
    using w workflow_nodes_size [OF w(1)] check_node_type check_node_task collect_tasks_Inr [OF w(3)]
    unfolding n by blast
qed

theorem accepted_structure_witness:
  "acyclic (edges (node_graph (items (field sample_workflow ''nodes''))))"
  using accepted_structure [OF sample_workflow_accepted refl] by blast

text \<open>C10: in an accepted workflow (whose ids are not empty, as the manifest schema demands) every choice
  has exactly one merge; the merge names each branch of the choice once, with a terminal between
  the two; and the node sets of the branches are non-empty, pairwise disjoint and closed: a node
  of a branch depends only on the choice, on its own branch or on what precedes the choice, and only
  its own branch and the merge depend on it, the merge on terminals alone.\<close>

theorem accepted_regions:
  assumes "ValidateWorkflow c m defs = Inr ()" and "nodes = items (field m ''nodes'')"
    and "[] \<notin> set (map node_id nodes)" and "ch \<in> set nodes" and "node_type ch = ''choice''"
    and "R = (\<lambda>mg b. region (node_graph nodes) (node_id ch) (node_id mg) (merge_terminal b))"
  shows "\<exists>mg \<in> set nodes. node_type mg = ''merge'' \<and> merge_target mg = node_id ch \<and>
    (\<forall>mg' \<in> set nodes. node_type mg' = ''merge'' \<and> merge_target mg' = node_id ch \<longrightarrow> mg' = mg) \<and>
    distinct (map merge_branch (merge_branches mg)) \<and>
    set (map merge_branch (merge_branches mg)) = set (choice_names ch) \<and>
    (\<forall>b \<in> set (merge_branches mg).
       merge_terminal b \<in> preds (node_graph nodes) (node_id mg) \<and>
       node_id ch \<in> preds (node_graph nodes) (merge_terminal b) \<and>
       R mg b \<noteq> {} \<and> closed_region (node_graph nodes) (node_id ch) (node_id mg) (R mg b) \<and>
       R mg b \<inter> set (node_after mg) \<subseteq> merge_terminal ` set (merge_branches mg) \<and>
       (\<forall>b' \<in> set (merge_branches mg). merge_branch b \<noteq> merge_branch b' \<longrightarrow> R mg b \<inter> R mg b' = {}))"
proof -
  from assms(1) obtain k where "workflow_checked c m defs = Inr k" by (auto simp: ValidateWorkflow_def)
  then obtain nodes' tasks where w: "nodes' = items (field m ''nodes'')" "distinct (map node_id nodes')"
    "validate_graph c nodes' tasks (by_id nodes') = Inr k" by (rule workflow_checkedE)
  note d = w(2) and vg = w(3)
  note d = d [unfolded w(1) assms(2) [symmetric]] and vg = vg [unfolded w(1) assms(2) [symmetric]]
  from choice_has_merge [OF vg d assms(3-5)] obtain mg where mg: "mg \<in> set nodes" "node_type mg = ''merge''"
    "lookup_str (chk_merges k) (node_id ch) = node_id mg" "distinct (map merge_branch (merge_branches mg))"
    and rest: "merge_target mg = node_id ch"
    "\<forall>mg' \<in> set nodes. node_type mg' = ''merge'' \<and> merge_target mg' = node_id ch \<longrightarrow> mg' = mg"
    "set (map merge_branch (merge_branches mg)) = set (choice_names ch)"
    "\<forall>b \<in> set (merge_branches mg). merge_terminal b \<in> preds (node_graph nodes) (node_id mg) \<and>
       node_id ch \<in> preds (node_graph nodes) (merge_terminal b)" by blast
  note r = choice_regions [OF vg d assms(4,5) mg refl]
  have "R mg b \<noteq> {} \<and> closed_region (node_graph nodes) (node_id ch) (node_id mg) (R mg b) \<and>
       R mg b \<inter> set (node_after mg) \<subseteq> merge_terminal ` set (merge_branches mg) \<and>
       (\<forall>b' \<in> set (merge_branches mg). merge_branch b \<noteq> merge_branch b' \<longrightarrow> R mg b \<inter> R mg b' = {})"
    if b: "b \<in> set (merge_branches mg)" for b
    using r(2) [OF b] r(3) [OF b] r(4) [OF b] unfolding assms(6) by blast
  with mg rest show ?thesis by blast
qed

theorem accepted_regions_witness:
  "\<exists>mg \<in> set (items (field sample_workflow ''nodes'')). merge_target mg = ''c''"
proof -
  have "[] \<notin> set (map node_id (items (field sample_workflow ''nodes'')))"
    "sample_choice \<in> set (items (field sample_workflow ''nodes''))" "node_type sample_choice = ''choice''"
    "node_id sample_choice = ''c''"
    by code_simp+
  then show ?thesis
    using accepted_regions [OF sample_workflow_accepted refl _ _ _ refl, of sample_choice] by metis
qed

text \<open>C11: in an accepted workflow no input mapping of a node can fail at run time: for any
  implementation of JSON Schema with the laws of \<open>schema_semantics\<close>, given a run input that conforms
  to the workflow's input schema, and outputs of every step the node may read that conform to the
  schema those steps declare, \<open>MapInput\<close> returns a value; likewise for the workflow's output.\<close>

theorem accepted_mappings_total:
  assumes "schema_semantics valid" and "workflow_checked c m defs = Inr k"
    and "valid (field m ''inputSchema'') input" and "json_ok input" and "json_ok (JObj outputs)"
    and "produced = (\<lambda>ids. \<forall>x \<in> set ids. \<exists>v. map_of outputs x = Some v \<and>
           valid (step_schema (chk_byID k) (chk_tasks k) x) v)"
  shows "(\<forall>n \<in> set (items (field m ''nodes'')).
      produced (node_allowed (chk_ancestors k) (chk_regions k) (chk_merges k) (node_id n)) \<longrightarrow>
      (\<exists>r. MapInput (field n ''input'') input outputs = Inr r)) \<and>
    (produced (output_allowed (keys (chk_byID k)) (chk_regions k)) \<longrightarrow>
      (\<exists>r. MapInput (field m ''output'') input outputs = Inr r))"
proof -
  from assms(2) obtain nodes tasks where w: "workflow_nodes c m = Inr nodes" "nodes = items (field m ''nodes'')"
    "validate_mappings m nodes k = Inr ()" by (rule workflow_checkedE)
  have ok: "json_ok m" by (rule workflow_nodes_ok [OF w(1)])
  have maps: "\<exists>r. MapInput v input outputs = Inr r"
    if "check_mapping (step_schema (chk_byID k) (chk_tasks k)) (field m ''inputSchema'') al v = Inr u"
      "json_ok v" "produced al" for v al u
    using schema_semantics.check_mapping_sound [OF assms(1) that(1) assms(3), of outputs] that(3)
    unfolding assms(6) MapInput_json_ok [OF that(2) assms(4,5)] by blast
  have "\<exists>r. MapInput (field n ''input'') input outputs = Inr r"
    if n: "n \<in> set nodes" and p: "produced (node_allowed (chk_ancestors k) (chk_regions k) (chk_merges k) (node_id n))" for n
  proof -
    from w(3) n obtain u where "check_mapping (step_schema (chk_byID k) (chk_tasks k)) (field m ''inputSchema'')
        (node_allowed (chk_ancestors k) (chk_regions k) (chk_merges k) (node_id n)) (field n ''input'') = Inr u"
      unfolding validate_mappings_def Let_def check_node_mappings_def by fastforce
    moreover have "json_ok (field n ''input'')"
      using json_ok_items [OF json_ok_field [OF ok]] n w(2) json_ok_field by blast
    ultimately show ?thesis using maps p by blast
  qed
  moreover have "\<exists>r. MapInput (field m ''output'') input outputs = Inr r"
    if "produced (output_allowed (keys (chk_byID k)) (chk_regions k))"
    using w(3) maps that json_ok_field [OF ok] unfolding validate_mappings_def Let_def by fastforce
  ultimately show ?thesis using w(2) by blast
qed

text \<open>The hypotheses hold, with the reference validator, for the node \<open>x\<close> of the sample.\<close>

theorem accepted_mappings_total_witness:
  "\<exists>r. MapInput (sample_ref ''a'') (JObj [(''k'', JStr ''v'')])
     [(''a'', JObj [(''k'', JStr ''v'')]), (''c'', JObj [(''selected'', JStr ''l''), (''branch'', JStr ''l'')])] = Inr r"
proof -
  let ?out = "[(''a'', JObj [(''k'', JStr ''v'')]), (''c'', JObj [(''selected'', JStr ''l''), (''branch'', JStr ''l'')])]"
  let ?in = "JObj [(''k'', JStr ''v'')]"
  obtain k where k: "workflow_checked sample_externals sample_workflow [sample_task] = Inr k"
    and b: "chk_byID k = by_id (items (field sample_workflow ''nodes''))" "chk_tasks k = [(''t'', sample_task)]"
    and al: "set (node_allowed (chk_ancestors k) (chk_regions k) (chk_merges k) ''x'') = {''a'', ''c''}"
    using sample_workflow_checked by (cases "workflow_checked sample_externals sample_workflow [sample_task]") simp_all
  have "conforms (field sample_workflow ''inputSchema'') ?in" "json_ok ?in" "json_ok (JObj ?out)" by code_simp+
  note th = accepted_mappings_total [OF ref_schema.schema_semantics_axioms k this refl]
  have schemas: "step_schema (chk_byID k) (chk_tasks k) ''a'' = sample_payload"
    "step_schema (chk_byID k) (chk_tasks k) ''c'' = choice_schema"
    unfolding b by code_simp+
  have out: "conforms sample_payload (JObj [(''k'', JStr ''v'')])"
    "conforms choice_schema (JObj [(''selected'', JStr ''l''), (''branch'', JStr ''l'')])" by code_simp+
  have x: "sample_node ''x'' [''c''] (sample_ref ''a'') \<in> set (items (field sample_workflow ''nodes''))"
    "node_id (sample_node ''x'' [''c''] (sample_ref ''a'')) = ''x''"
    "field (sample_node ''x'' [''c''] (sample_ref ''a'')) ''input'' = sample_ref ''a''" by code_simp+
  have "\<forall>x \<in> set (node_allowed (chk_ancestors k) (chk_regions k) (chk_merges k) ''x'').
      \<exists>v. map_of ?out x = Some v \<and> conforms (step_schema (chk_byID k) (chk_tasks k) x) v"
    unfolding al using schemas out by simp
  with th x show ?thesis by metis
qed

text \<open>The guarantee of the last theorem does not extend to the values of merge branches: the steps such
  a value may read include the inside of a choice nested in the branch.\<close>

definition sample_choice_of :: "string \<Rightarrow> string list \<Rightarrow> json" where
  "sample_choice_of nid ds = JObj [(''id'', JStr nid), (''type'', JStr ''choice''), (''after'', JArr (map JStr ds)),
     (''choice'', JObj [(''branches'', JArr [
        JObj [(''name'', JStr ''l''), (''condition'', JObj [(''op'', JStr ''exists''), (''args'', JArr [
           JObj [(''$ref'', JStr ''run.input''), (''pointer'', JStr ''/k'')]])])],
        JObj [(''name'', JStr ''r'')]]), (''default'', JStr ''r'')])]"

definition sample_merge_of :: "string \<Rightarrow> string \<Rightarrow> (string \<times> json) \<Rightarrow> (string \<times> json) \<Rightarrow> json" where
  "sample_merge_of nid ch l r = JObj [(''id'', JStr nid), (''type'', JStr ''merge''), (''after'', JArr [JStr (fst l), JStr (fst r)]),
     (''merge'', JObj [(''choice'', JStr ch), (''outputSchema'', sample_payload), (''branches'', JArr [
        JObj [(''branch'', JStr ''l''), (''terminal'', JStr (fst l)), (''value'', snd l)],
        JObj [(''branch'', JStr ''r''), (''terminal'', JStr (fst r)), (''value'', snd r)]])])]"

definition nested_workflow :: json where
  "nested_workflow = JObj [(''manifestVersion'', JNum (Finite 1)), (''inputSchema'', sample_payload),
     (''outputSchema'', sample_payload), (''output'', sample_ref ''m''), (''nodes'', JArr [
        sample_choice_of ''c'' [], sample_choice_of ''d'' [''c''],
        sample_node ''p'' [''d''] (JObj [(''k'', JStr ''v'')]), sample_node ''q'' [''d''] (JObj [(''k'', JStr ''v'')]),
        sample_merge_of ''n'' ''d'' (''p'', sample_ref ''p'') (''q'', sample_ref ''q''),
        sample_node ''y'' [''c''] (JObj [(''k'', JStr ''v'')]),
        sample_merge_of ''m'' ''c'' (''n'', sample_ref ''p'') (''y'', sample_ref ''y'')])]"


end
