(* ===== verification/Run_State.thy ===== *)
theory Run_State
  imports Prelude
begin

text \<open>
  The lifecycle states of the durable entities, as \<open>internal/contracts/enums_generated.go\<close> and the
  check constraints of the tables name them, with a prefix per entity.
\<close>

datatype RunStatus =
    R_QUEUED | R_RUNNING | R_WAITING | R_PAUSING | R_PAUSED | R_CANCELLING
  | R_SUCCEEDED | R_FAILED | R_CANCELLED

datatype StepStatus =
    S_BLOCKED | S_READY | S_RUNNING | S_WAITING | S_SUCCEEDED | S_FAILED | S_CANCELLED | S_SKIPPED

datatype AttemptStatus =
    A_CLAIMED | A_RUNNING | A_SUCCEEDED | A_FAILED | A_TIMED_OUT | A_LOST | A_CANCELLED

datatype TimerStatus = T_PENDING | T_FIRED | T_CANCELLED

datatype ApprovalStatus = P_PENDING | P_APPROVED | P_REJECTED | P_EXPIRED | P_CANCELLED

text \<open>The value of the status column.\<close>

fun run_status_name :: "RunStatus \<Rightarrow> string" where
  "run_status_name R_QUEUED = ''QUEUED''"
| "run_status_name R_RUNNING = ''RUNNING''"
| "run_status_name R_WAITING = ''WAITING''"
| "run_status_name R_PAUSING = ''PAUSING''"
| "run_status_name R_PAUSED = ''PAUSED''"
| "run_status_name R_CANCELLING = ''CANCELLING''"
| "run_status_name R_SUCCEEDED = ''SUCCEEDED''"
| "run_status_name R_FAILED = ''FAILED''"
| "run_status_name R_CANCELLED = ''CANCELLED''"

definition run_terminal :: "RunStatus \<Rightarrow> bool" where
  "run_terminal s \<longleftrightarrow> s \<in> {R_SUCCEEDED, R_FAILED, R_CANCELLED}"

definition step_terminal :: "StepStatus \<Rightarrow> bool" where
  "step_terminal s \<longleftrightarrow> s \<in> {S_SUCCEEDED, S_FAILED, S_CANCELLED, S_SKIPPED}"

definition attempt_live :: "AttemptStatus \<Rightarrow> bool" where
  "attempt_live s \<longleftrightarrow> s \<in> {A_CLAIMED, A_RUNNING}"

lemma run_terminal_simps [simp]:
  "\<not> run_terminal R_QUEUED" "\<not> run_terminal R_RUNNING" "\<not> run_terminal R_WAITING" "\<not> run_terminal R_PAUSING"
  "\<not> run_terminal R_PAUSED" "\<not> run_terminal R_CANCELLING" "run_terminal R_SUCCEEDED" "run_terminal R_FAILED"
  "run_terminal R_CANCELLED"
  by (simp_all add: run_terminal_def)

lemma step_terminal_simps [simp]:
  "\<not> step_terminal S_BLOCKED" "\<not> step_terminal S_READY" "\<not> step_terminal S_RUNNING" "\<not> step_terminal S_WAITING"
  "step_terminal S_SUCCEEDED" "step_terminal S_FAILED" "step_terminal S_CANCELLED" "step_terminal S_SKIPPED"
  by (simp_all add: step_terminal_def)

lemma attempt_live_simps [simp]:
  "attempt_live A_CLAIMED" "attempt_live A_RUNNING" "\<not> attempt_live A_SUCCEEDED" "\<not> attempt_live A_FAILED"
  "\<not> attempt_live A_TIMED_OUT" "\<not> attempt_live A_LOST" "\<not> attempt_live A_CANCELLED"
  by (simp_all add: attempt_live_def)

end
