(* ===== verification/Retry_Policy.thy ===== *)
theory Retry_Policy
  imports Run_State "HOL-Library.Word"
begin

text \<open>
  The pure retry and deadline arithmetic of \<open>internal/execution/retry.go\<close>.  Go's \<open>int\<close> and \<open>int64\<close>
  are integers with the wrap-around written out where an operation can overflow; a \<open>time.Time\<close> is
  its number of nanoseconds, a \<open>time.Duration\<close> an \<open>int64\<close> number of nanoseconds; a \<open>float64\<close> that is
  always finite is a rational, with the rounding of a product written out.
\<close>

section \<open>Strings\<close>

text \<open>The UTF-8 encodings of the code points \<open>strings.TrimSpace\<close> cuts: the ASCII white space, U+0085,
  U+00A0, U+1680, U+2000 to U+200A, U+2028, U+2029, U+202F, U+205F and U+3000.\<close>

definition white_space :: "string list" where
  "white_space = map (\<lambda>n. [char_of n]) [9, 10, 11, 12, 13, 32 :: int] @
     map (map char_of) ([[194, 133], [194, 160], [225, 154, 128], [226, 128, 168], [226, 128, 169],
       [226, 128, 175], [226, 129, 159], [227, 128, 128 :: int]] @ map (\<lambda>n. [226, 128, n]) [128..138])"

fun strip :: "string list \<Rightarrow> nat \<Rightarrow> string \<Rightarrow> string" where
  "strip ws 0 s = s"
| "strip ws (Suc fuel) s =
     (case List.find (\<lambda>w. take (length w) s = w) ws of
        None \<Rightarrow> s | Some w \<Rightarrow> strip ws fuel (drop (length w) s))"

text \<open>Each round removes at least one byte, so as many rounds as bytes are enough.\<close>

definition TrimSpace :: "string \<Rightarrow> string" where
  "TrimSpace s =
     (let l = strip white_space (length s) s in
      rev (strip (map rev white_space) (length l) (rev l)))"

text \<open>\<open>strings.ToUpper\<close> and \<open>strings.ToLower\<close> up to the letters whose other case is outside ASCII as
  well: only U+0131, U+017F (upper) and U+0130, U+212A (lower) map into ASCII, so the comparisons
  with ASCII names that follow every call are not affected by the rest.\<close>

definition upper_char :: "char \<Rightarrow> char" where
  "upper_char c = (let n = of_char c :: nat in if 97 \<le> n \<and> n \<le> 122 then char_of (n - 32) else c)"

definition lower_char :: "char \<Rightarrow> char" where
  "lower_char c = (let n = of_char c :: nat in if 65 \<le> n \<and> n \<le> 90 then char_of (n + 32) else c)"

fun ToUpper :: "string \<Rightarrow> string" where
  "ToUpper [] = []"
| "ToUpper (c # s) =
     (if c = CHR 0xC4 \<and> s \<noteq> [] \<and> hd s = CHR 0xB1 then CHR ''I'' # ToUpper (tl s)
      else if c = CHR 0xC5 \<and> s \<noteq> [] \<and> hd s = CHR 0xBF then CHR ''S'' # ToUpper (tl s)
      else upper_char c # ToUpper s)"

fun ToLower :: "string \<Rightarrow> string" where
  "ToLower [] = []"
| "ToLower (c # s) =
     (if c = CHR 0xC4 \<and> s \<noteq> [] \<and> hd s = CHR 0xB0 then CHR ''i'' # ToLower (tl s)
      else if c = CHR 0xE2 \<and> take 2 s = [CHR 0x84, CHR 0xAA] then CHR ''k'' # ToLower (drop 2 s)
      else lower_char c # ToLower s)"

definition lower_trim :: "string \<Rightarrow> string" where
  "lower_trim s = ToLower (TrimSpace s)"

definition upper_trim :: "string \<Rightarrow> string" where
  "upper_trim s = ToUpper (TrimSpace s)"

section \<open>Constants and the policy record\<close>

definition DefaultMaxAttempts :: int where "DefaultMaxAttempts = 3"
definition MaxMaxAttempts :: int where "MaxMaxAttempts = 10"
definition MinMaxAttempts :: int where "MinMaxAttempts = 1"
definition DefaultInitialDelayMs :: int where "DefaultInitialDelayMs = 1000"
definition DefaultMaxDelayMs :: int where "DefaultMaxDelayMs = 30000"
definition DefaultAttemptTimeoutMs :: int where "DefaultAttemptTimeoutMs = 300000"
definition MaxAttemptTimeoutMs :: int where "MaxAttemptTimeoutMs = 3600000"
definition RunLifetimeMs :: int where "RunLifetimeMs = 7 * 24 * 60 * 60 * 1000"
definition MaxRunLifetimeMs :: int where "MaxRunLifetimeMs = 30 * 24 * 60 * 60 * 1000"
definition CancelGraceMs :: int where "CancelGraceMs = 10 * 1000"
definition ClaimStartBudgetMs :: int where "ClaimStartBudgetMs = 5000"

lemmas retry_consts = DefaultMaxAttempts_def MaxMaxAttempts_def MinMaxAttempts_def
  DefaultInitialDelayMs_def DefaultMaxDelayMs_def DefaultAttemptTimeoutMs_def MaxAttemptTimeoutMs_def
  RunLifetimeMs_def MaxRunLifetimeMs_def CancelGraceMs_def ClaimStartBudgetMs_def

record RetryPolicy =
  MaxAttempts :: int
  InitialDelayMs :: int
  MaxDelayMs :: int
  TimeoutMs :: int
  Recovery :: string
  IdempotencyWindowMs :: "int option"

definition NormalizeRetryPolicy ::
    "int \<Rightarrow> int \<Rightarrow> int \<Rightarrow> int \<Rightarrow> string \<Rightarrow> int option \<Rightarrow> RetryPolicy" where
  "NormalizeRetryPolicy maxAttempts initialDelayMs maxDelayMs timeoutMs recovery idempotencyWindowMs =
     (let maxAttempts = (if maxAttempts \<le> 0 then DefaultMaxAttempts else maxAttempts);
          maxAttempts = (if maxAttempts < MinMaxAttempts then MinMaxAttempts else maxAttempts);
          maxAttempts = (if maxAttempts > MaxMaxAttempts then MaxMaxAttempts else maxAttempts);
          initialDelayMs = (if initialDelayMs < 0 then DefaultInitialDelayMs else initialDelayMs);
          unset = (initialDelayMs = 0 \<and> maxDelayMs = 0);
          initialDelayMs = (if unset then DefaultInitialDelayMs else initialDelayMs);
          maxDelayMs = (if unset then DefaultMaxDelayMs else maxDelayMs);
          maxDelayMs = (if maxDelayMs \<le> 0 then DefaultMaxDelayMs else maxDelayMs);
          timeoutMs = (if timeoutMs \<le> 0 then DefaultAttemptTimeoutMs else timeoutMs);
          timeoutMs = (if timeoutMs > MaxAttemptTimeoutMs then MaxAttemptTimeoutMs else timeoutMs)
      in \<lparr> MaxAttempts = maxAttempts, InitialDelayMs = initialDelayMs, MaxDelayMs = maxDelayMs,
           TimeoutMs = timeoutMs, Recovery = recovery, IdempotencyWindowMs = idempotencyWindowMs \<rparr>)"

section \<open>Backoff\<close>

definition BackoffCapMs :: "int \<Rightarrow> int \<Rightarrow> int \<Rightarrow> int" where
  "BackoffCapMs failedAttemptNumber initialDelayMs maxDelayMs =
     (let n = (if failedAttemptNumber < 1 then 1 else failedAttemptNumber);
          maxDelayMs = (if maxDelayMs \<le> 0 then DefaultMaxDelayMs else maxDelayMs) in
      if initialDelayMs \<le> 0 then 0
      else
        (let shift = n - 1;
             base = (if shift \<ge> 62 then MaxInt64
                     else if initialDelayMs > MaxInt64 div 2 ^ nat shift then MaxInt64
                     else wrap64 (initialDelayMs * 2 ^ nat shift));
             base = (if base > maxDelayMs then maxDelayMs else base)
         in if base < 0 then 0 else base))"

text \<open>The nearest double to a non-negative rational, ties to even (the values that occur are far from
  the smallest normal number).  \<open>exponent2\<close> is the position of the leading bit.\<close>

fun bit_length :: "nat \<Rightarrow> nat" where
  "bit_length n = (if n = 0 then 0 else Suc (bit_length (n div 2)))"

declare bit_length.simps [simp del]

definition two_pow :: "int \<Rightarrow> rat" where
  "two_pow e = (if e \<ge> 0 then 2 ^ nat e else 1 / 2 ^ nat (- e))"

definition exponent2 :: "rat \<Rightarrow> int" where
  "exponent2 x =
     (let pq = quotient_of x; e = int (bit_length (nat (fst pq))) - int (bit_length (nat (snd pq))) in
      if two_pow e \<le> x then e else e - 1)"

definition round_even :: "rat \<Rightarrow> int" where
  "round_even x =
     (let f = \<lfloor>x\<rfloor>; d = x - of_int f in
      if d < 1 / 2 \<or> (d = 1 / 2 \<and> even f) then f else f + 1)"

definition to_float :: "rat \<Rightarrow> rat" where
  "to_float x = (if x \<le> 0 then 0
     else of_int (round_even (x / two_pow (exponent2 x - 52))) * two_pow (exponent2 x - 52))"

definition JitteredDelayMs :: "int \<Rightarrow> rat \<Rightarrow> int" where
  "JitteredDelayMs capMs sample =
     (if capMs \<le> 0 then 0
      else
        (let sample = (if sample < 0 then 0 else sample) in
         if sample \<ge> 1 then capMs else \<lfloor>to_float (sample * to_float (of_int capMs))\<rfloor>))"

text \<open>\<open>None\<close> is a failing random source.  The top 53 bits of the word fit a double exactly.\<close>

definition SampleJitter :: "64 word option \<Rightarrow> rat" where
  "SampleJitter b = (case b of None \<Rightarrow> 1 / 2 | Some v \<Rightarrow> of_int (uint (drop_bit 11 v)) / 2 ^ 53)"

definition ComputeRetryDelayMs :: "int \<Rightarrow> int \<Rightarrow> int \<Rightarrow> rat \<Rightarrow> int option \<Rightarrow> int" where
  "ComputeRetryDelayMs failedAttemptNumber initialDelayMs maxDelayMs jitterSample retryAfterMs =
     (let capMs = BackoffCapMs failedAttemptNumber initialDelayMs maxDelayMs;
          delay = JitteredDelayMs capMs jitterSample in
      case retryAfterMs of
        None \<Rightarrow> delay
      | Some ra \<Rightarrow>
          (let ra = (if ra < 0 then 0 else ra);
               ra = (if ra > maxDelayMs \<and> maxDelayMs > 0 then maxDelayMs else ra)
           in if ra > delay then ra else delay))"

text \<open>\<open>strconv.ParseInt(s, 10, 64)\<close>: an optional sign and decimal digits, in range.\<close>

definition decimal :: "string \<Rightarrow> int option" where
  "decimal s = (if s = [] \<or> (\<exists>c \<in> set s. of_char c < (48 :: nat) \<or> of_char c > (57 :: nat)) then None
     else Some (fold (\<lambda>c acc. 10 * acc + (of_char c - 48)) s 0))"

definition ParseInt64 :: "string \<Rightarrow> int option" where
  "ParseInt64 s =
     (case (case s of
              [] \<Rightarrow> None
            | c # r \<Rightarrow> if c = CHR ''-'' then map_option uminus (decimal r)
                      else if c = CHR ''+'' then decimal r else decimal s) of
        None \<Rightarrow> None
      | Some n \<Rightarrow> if int64 n then Some n else None)"

text \<open>\<open>parse_date\<close> stands for \<open>time.Parse\<close> tried on the seven layouts; \<open>t.Sub(now)\<close> saturates.\<close>

definition clamp64 :: "int \<Rightarrow> int" where
  "clamp64 x = (if x > MaxInt64 then MaxInt64 else if x < MinInt64 then MinInt64 else x)"

definition ParseRetryAfter :: "(string \<Rightarrow> int option) \<Rightarrow> string \<Rightarrow> int \<Rightarrow> int option" where
  "ParseRetryAfter parse_date v now =
     (let s = TrimSpace v in
      if s = [] then None
      else
        (case ParseInt64 s of
           Some secs \<Rightarrow>
             if secs < 0 then None
             else if secs > MaxInt64 div 1000 then Some MaxInt64
             else Some (secs * 1000)
         | None \<Rightarrow>
             (case parse_date s of
                None \<Rightarrow> None
              | Some t \<Rightarrow>
                  (let d = clamp64 (t - now) in if d < 0 then Some 0 else Some (d div 1000000)))))"

section \<open>Policy predicates\<close>

definition IsValidRecoveryPolicy :: "string \<Rightarrow> bool" where
  "IsValidRecoveryPolicy recovery \<longleftrightarrow> lower_trim recovery \<in> {''safe'', ''idempotent'', ''reconcile''}"

definition nonRetryableCodes :: "string list" where
  "nonRetryableCodes = [''INPUT_MAPPING_ERROR'', ''OUTPUT_MAPPING_ERROR'', ''OUTPUT_SCHEMA_VIOLATION'',
     ''SCHEMA_VIOLATION'', ''SCHEMA_VALIDATION_ERROR'', ''INVALID_INPUT'', ''INVALID_OUTPUT'',
     ''MISSING_TASK'', ''MISSING_TASK_REF'', ''TASK_NOT_FOUND'', ''INCOMPATIBLE_BUNDLE'',
     ''INCOMPATIBLE_DEPLOYMENT'', ''UNSUPPORTED_CAPABILITY'', ''UNAUTHORIZED'', ''AUTH_ERROR'',
     ''PERMISSION_DENIED'', ''FORBIDDEN'']"

definition IsNonRetryableCode :: "string \<Rightarrow> bool" where
  "IsNonRetryableCode code \<longleftrightarrow> code \<noteq> [] \<and> upper_trim code \<in> set nonRetryableCodes"

definition HasRetryBudget :: "int \<Rightarrow> int \<Rightarrow> bool" where
  "HasRetryBudget nextAttemptNumber maxAttempts =
     (let maxAttempts = (if maxAttempts \<le> 0 then DefaultMaxAttempts else maxAttempts) in
      nextAttemptNumber \<le> maxAttempts \<and> nextAttemptNumber \<ge> 1)"

definition RequiresReconciliation :: "string \<Rightarrow> string \<Rightarrow> bool" where
  "RequiresReconciliation recovery effectStatus \<longleftrightarrow>
     lower_trim recovery = ''reconcile'' \<and> upper_trim effectStatus = ''UNKNOWN''"

text \<open>\<open>time.Duration(ms) * time.Millisecond\<close>.\<close>

definition ms_duration :: "int \<Rightarrow> int" where
  "ms_duration ms = wrap64 (ms * 1000000)"

definition InsufficientIdempotencyWindow :: "int \<Rightarrow> int \<Rightarrow> int \<Rightarrow> bool" where
  "InsufficientIdempotencyWindow now validUntil attemptTimeoutMs =
     (let t = (if attemptTimeoutMs \<le> 0 then DefaultAttemptTimeoutMs else attemptTimeoutMs) in
      now + ms_duration (wrap64 (ClaimStartBudgetMs + t)) > validUntil)"

definition InsufficientRunDeadline :: "int \<Rightarrow> int \<Rightarrow> int option \<Rightarrow> bool" where
  "InsufficientRunDeadline dueAt attemptTimeoutMs runDeadline =
     (case runDeadline of
        None \<Rightarrow> False
      | Some deadline \<Rightarrow>
          (let t = (if attemptTimeoutMs \<le> 0 then DefaultAttemptTimeoutMs else attemptTimeoutMs) in
           dueAt + ms_duration (wrap64 (ClaimStartBudgetMs + t)) > deadline))"

text \<open>Guards on the run state.\<close>

definition CanScheduleRetry :: "RunStatus \<Rightarrow> string \<Rightarrow> bool" where
  "CanScheduleRetry runStatus runReason =
     (if runStatus \<in> {R_QUEUED, R_RUNNING, R_PAUSING, R_PAUSED} then True
      else if runStatus = R_WAITING then upper_trim runReason \<noteq> ''RECONCILIATION''
      else False)"

definition CanFireRetry :: "RunStatus \<Rightarrow> string \<Rightarrow> bool" where
  "CanFireRetry runStatus runReason =
     (if runStatus \<in> {R_QUEUED, R_RUNNING} then True
      else if runStatus = R_WAITING then upper_trim runReason \<in> {''RETRY_BACKOFF'', ''RETRY'', ''''}
      else False)"

section \<open>Backoff: the saturating shift is exact\<close>

lemma shift_saturates:
  assumes "0 < i" "i \<le> MaxInt64" "0 < m" "m < 2 ^ 62" "0 \<le> s"
  shows "min m (if s \<ge> 62 then MaxInt64 else if i > MaxInt64 div 2 ^ nat s then MaxInt64
     else wrap64 (i * 2 ^ nat s)) = min m (i * 2 ^ nat s)"
proof (cases "s \<ge> 62")
  case True
  then have "(2 :: int) ^ 62 \<le> 2 ^ nat s" by (intro power_increasing) auto
  then have "2 ^ 62 \<le> i * 2 ^ nat s" using assms(1) mult_mono [of 1 i "2 ^ 62" "2 ^ nat s"] by simp
  then show ?thesis using True assms(4) by (simp add: MaxInt64_def)
next
  case False
  show ?thesis
  proof (cases "i > MaxInt64 div 2 ^ nat s")
    case True
    then have "i \<ge> MaxInt64 div 2 ^ nat s + 1" by simp
    then have "i * 2 ^ nat s \<ge> (MaxInt64 div 2 ^ nat s + 1) * 2 ^ nat s" by (intro mult_right_mono) auto
    moreover have "(MaxInt64 div 2 ^ nat s + 1) * 2 ^ nat s > MaxInt64"
    proof -
      have "MaxInt64 mod 2 ^ nat s < 2 ^ nat s" by simp
      then show ?thesis using div_mult_mod_eq [of MaxInt64 "2 ^ nat s"] by (simp only: distrib_right mult_1)
    qed
    ultimately have "i * 2 ^ nat s > MaxInt64" by linarith
    then show ?thesis using True False assms(4) by (simp add: MaxInt64_def)
  next
    case le: False
    then have "i * 2 ^ nat s \<le> (MaxInt64 div 2 ^ nat s) * 2 ^ nat s" by (intro mult_right_mono) auto
    also have "\<dots> \<le> MaxInt64"
    proof -
      have "0 \<le> MaxInt64 mod 2 ^ nat s" by simp
      then show ?thesis using div_mult_mod_eq [of MaxInt64 "2 ^ nat s"] by linarith
    qed
    finally have "int64 (i * 2 ^ nat s)" using assms(1)
      by (simp add: int64_def MinInt64_def order_trans [of _ 0])
    then show ?thesis using le False by simp
  qed
qed

lemma BackoffCapMs_exact:
  assumes "0 < i" "i \<le> MaxInt64" "0 < m" "m < 2 ^ 62" "1 \<le> n"
  shows "BackoffCapMs n i m = min m (i * 2 ^ nat (n - 1))"
  using shift_saturates [OF assms(1-4), of "n - 1"] assms
  by (auto simp: BackoffCapMs_def Let_def min_def not_less split: if_splits)

lemma BackoffCapMs_bounds:
  assumes "0 < m"
  shows "0 \<le> BackoffCapMs n i m \<and> BackoffCapMs n i m \<le> m"
  using assms by (auto simp: BackoffCapMs_def Let_def)

section \<open>Jitter: rounding stays inside the cap\<close>

lemma bit_length_upper: "n < 2 ^ bit_length n"
proof (induction n rule: bit_length.induct)
  case (1 n)
  show ?case
  proof (cases "n = 0")
    case False
    then have "n div 2 < 2 ^ bit_length (n div 2)" by (rule 1)
    then have "n < 2 * 2 ^ bit_length (n div 2)" by linarith
    then show ?thesis using False by (simp add: bit_length.simps [of n])
  qed (simp add: bit_length.simps [of 0])
qed

lemma bit_length_lower: "n \<noteq> 0 \<Longrightarrow> 2 ^ bit_length n \<le> 2 * n"
proof (induction n rule: bit_length.induct)
  case (1 n)
  show ?case
  proof (cases "n div 2 = 0")
    case True
    then show ?thesis using "1.prems" by (simp add: bit_length.simps [of n] bit_length.simps [of 0])
  next
    case False
    then have "2 ^ bit_length (n div 2) \<le> 2 * (n div 2)" using 1 by blast
    then have "2 * 2 ^ bit_length (n div 2) \<le> 2 * n" by linarith
    then show ?thesis using "1.prems" by (simp add: bit_length.simps [of n])
  qed
qed

lemma two_pow_pos [simp]: "0 < two_pow e"
  by (simp add: two_pow_def)

lemma two_pow_bound: "two_pow a < 2 ^ k \<Longrightarrow> a < int k"
proof (cases "a \<ge> 0")
  case True
  assume "two_pow a < 2 ^ k"
  then have "(2 :: rat) ^ nat a < 2 ^ k" using True by (simp add: two_pow_def)
  then have "nat a < k" using power_less_imp_less_exp by fastforce
  then show ?thesis using True by linarith
qed simp

lemma two_pow_diff: "two_pow (int a - int b) = 2 ^ a / 2 ^ b"
proof (cases "b \<le> a")
  case True
  then have "nat (int a - int b) = a - b" by simp
  then show ?thesis using True by (simp add: two_pow_def power_diff)
next
  case False
  then have "nat (int b - int a) = b - a" by simp
  then show ?thesis using False by (simp add: two_pow_def power_diff)
qed

lemma exponent2_le: "0 < x \<Longrightarrow> two_pow (exponent2 x) \<le> x"
proof -
  assume x: "0 < x"
  obtain p q where pq: "quotient_of x = (p, q)" by (cases "quotient_of x")
  have q: "0 < q" and xpq: "x = of_int p / of_int q"
    using quotient_of_denom_pos [OF pq] quotient_of_div [OF pq] by auto
  have p: "0 < p" using x q unfolding xpq by (simp add: zero_less_divide_iff)
  let ?a = "bit_length (nat p)" and ?b = "bit_length (nat q)"
  have "(2 :: rat) ^ ?a = of_nat (2 ^ ?a)" by simp
  also have "\<dots> \<le> of_nat (2 * nat p)" using bit_length_lower [of "nat p"] p by (intro of_nat_mono) auto
  also have "\<dots> = 2 * of_int p" using p by simp
  finally have "(2 :: rat) ^ ?a \<le> 2 * of_int p" .
  moreover have "(of_int q :: rat) \<le> 2 ^ ?b"
  proof -
    have "(of_int q :: rat) = of_nat (nat q)" using q by simp
    also have "\<dots> \<le> of_nat (2 ^ ?b)" using bit_length_upper [of "nat q"] by (intro of_nat_mono) simp
    finally show ?thesis by simp
  qed
  ultimately have "(2 :: rat) ^ ?a * of_int q \<le> 2 * of_int p * 2 ^ ?b"
    using p q by (intro mult_mono) auto
  then have "two_pow (int ?a - int (Suc ?b)) \<le> x"
    unfolding two_pow_diff xpq using q by (simp add: field_simps)
  then have "two_pow (int ?a - int ?b - 1) \<le> x" by (simp add: algebra_simps)
  then show ?thesis by (simp add: exponent2_def pq Let_def)
qed

lemma round_even_le: "x \<le> of_int m \<Longrightarrow> round_even x \<le> m"
proof -
  assume x: "x \<le> of_int m"
  then have "\<lfloor>x\<rfloor> \<le> m" using floor_mono [OF x] by simp
  moreover have "x = of_int m" if "\<lfloor>x\<rfloor> = m" using that x of_int_floor_le [of x] by simp
  ultimately show ?thesis by (cases "\<lfloor>x\<rfloor> = m") (auto simp: round_even_def Let_def)
qed

lemma round_even_nonneg: "0 \<le> x \<Longrightarrow> 0 \<le> round_even x"
  by (auto simp: round_even_def Let_def)

lemma to_float_bounds:
  assumes "x \<le> of_int n" "0 \<le> n" "n < 2 ^ 53"
  shows "0 \<le> to_float x \<and> to_float x \<le> of_int n"
proof (cases "x \<le> 0")
  case True
  then show ?thesis using assms by (simp add: to_float_def)
next
  case False
  then have x: "0 < x" by simp
  have "(of_int n :: rat) < of_int (2 ^ 53)" using assms(3) of_int_less_iff by blast
  then have "x < 2 ^ 53" using assms(1) by simp
  then have "exponent2 x < int 53" using exponent2_le [OF x] by (intro two_pow_bound) simp
  define k where "k = nat (52 - exponent2 x)"
  have t: "two_pow (exponent2 x - 52) = 1 / 2 ^ k"
    using two_pow_diff [of 0 k] \<open>exponent2 x < int 53\<close> by (simp add: k_def)
  have "x * 2 ^ k \<le> of_int (n * 2 ^ k)" using assms(1) by simp
  then have r: "round_even (x * 2 ^ k) \<le> n * 2 ^ k" by (rule round_even_le)
  then have "(of_int (round_even (x * 2 ^ k)) :: rat) \<le> of_int (n * 2 ^ k)" using of_int_le_iff by blast
  then have "of_int (round_even (x * 2 ^ k)) / 2 ^ k \<le> (of_int n :: rat)" by (simp add: divide_le_eq)
  moreover have "0 \<le> round_even (x * 2 ^ k)" using x by (intro round_even_nonneg) simp
  ultimately show ?thesis using False t by (simp add: to_float_def)
qed

lemma JitteredDelayMs_bounds:
  assumes "0 \<le> c" "c < 2 ^ 53"
  shows "0 \<le> JitteredDelayMs c s \<and> JitteredDelayMs c s \<le> c"
proof (cases "c = 0 \<or> s \<ge> 1")
  case True
  then show ?thesis using assms by (auto simp: JitteredDelayMs_def)
next
  case False
  let ?s = "if s < 0 then 0 else s" and ?c = "to_float (of_int c)"
  have c: "0 \<le> ?c" "?c \<le> of_int c" using to_float_bounds [of "of_int c" c] assms by auto
  then have "?s * ?c \<le> 1 * of_int c" using False by (intro mult_mono) auto
  then have "0 \<le> to_float (?s * ?c) \<and> to_float (?s * ?c) \<le> of_int c"
    using to_float_bounds assms by simp
  then have "0 \<le> \<lfloor>to_float (?s * ?c)\<rfloor> \<and> \<lfloor>to_float (?s * ?c)\<rfloor> \<le> c" by (simp add: floor_le_iff)
  then show ?thesis using False assms by (simp add: JitteredDelayMs_def Let_def)
qed

lemma SampleJitter_range: "0 \<le> SampleJitter b \<and> SampleJitter b < 1"
proof (cases b)
  case (Some v)
  define n where "n = uint (drop_bit 11 v)"
  have "n = uint v div 2 ^ 11" by (simp add: n_def uint_div drop_bit_eq_div)
  moreover have "uint v < 2 ^ 64" using uint_lt2p [of v] by simp
  ultimately have "0 \<le> n" "n < 2 ^ 53"
    using uint_ge_0 [of v] by (simp_all add: div_less_iff_less_mult pos_imp_zdiv_nonneg_iff del: uint_ge_0)
  moreover have "SampleJitter b = of_int n / 2 ^ 53" by (simp only: SampleJitter_def Some option.case n_def)
  moreover have "(of_int n :: rat) < of_int (2 ^ 53)" using \<open>n < 2 ^ 53\<close> of_int_less_iff by blast
  ultimately show ?thesis by simp
qed (simp add: SampleJitter_def)

section \<open>Delays\<close>

lemma NormalizeRetryPolicy_bounds:
  "p = NormalizeRetryPolicy a i m t r w \<Longrightarrow>
     1 \<le> MaxAttempts p \<and> MaxAttempts p \<le> 10 \<and> 0 \<le> InitialDelayMs p \<and> 0 < MaxDelayMs p \<and>
     1 \<le> TimeoutMs p \<and> TimeoutMs p \<le> 3600000 \<and> Recovery p = r \<and> IdempotencyWindowMs p = w"
  by (auto simp: NormalizeRetryPolicy_def Let_def retry_consts)

lemma ComputeRetryDelayMs_bounds:
  assumes "0 < m" "m < 2 ^ 53"
  shows "0 \<le> ComputeRetryDelayMs n i m s ra \<and> ComputeRetryDelayMs n i m s ra \<le> m"
proof -
  have c: "0 \<le> BackoffCapMs n i m" "BackoffCapMs n i m \<le> m" using BackoffCapMs_bounds [OF assms(1)] by auto
  then have "0 \<le> JitteredDelayMs (BackoffCapMs n i m) s \<and> JitteredDelayMs (BackoffCapMs n i m) s \<le> m"
    using JitteredDelayMs_bounds [of "BackoffCapMs n i m" s] assms(2) by linarith
  then show ?thesis using assms(1) by (auto simp: ComputeRetryDelayMs_def Let_def split: option.splits)
qed

lemma ms_duration_small: "0 \<le> d \<Longrightarrow> d \<le> MaxInt64 div 1000000 \<Longrightarrow> ms_duration d = d * 1000000"
  unfolding ms_duration_def by (rule wrap64_id) (simp add: int64_def MaxInt64_def MinInt64_def)

section \<open>Properties\<close>

text \<open>C30: \<open>NormalizeRetryPolicy\<close> always yields 1 to 10 attempts, a non-negative initial delay, a positive
  maximum delay and a timeout of 1 ms to 1 h, keeps the recovery mode and the idempotency window
  untouched, and changes nothing when applied to its own result.\<close>

theorem NormalizeRetryPolicy_normal:
  "let p = NormalizeRetryPolicy a i m t r w in
     1 \<le> MaxAttempts p \<and> MaxAttempts p \<le> MaxMaxAttempts \<and> 0 \<le> InitialDelayMs p \<and> 0 < MaxDelayMs p \<and>
     1 \<le> TimeoutMs p \<and> TimeoutMs p \<le> MaxAttemptTimeoutMs \<and> Recovery p = r \<and> IdempotencyWindowMs p = w \<and>
     NormalizeRetryPolicy (MaxAttempts p) (InitialDelayMs p) (MaxDelayMs p) (TimeoutMs p) (Recovery p)
       (IdempotencyWindowMs p) = p"
  by (auto simp: NormalizeRetryPolicy_def Let_def retry_consts)

text \<open>C31: the saturating shift of \<open>BackoffCapMs\<close> computes the documented cap exactly, the smaller of the
  maximum delay and the initial delay doubled once per earlier failure, for every attempt number
  and every 64-bit initial delay, as long as the maximum is below 2^62 ms.\<close>

theorem BackoffCapMs_formula:
  assumes "0 < i" "i \<le> MaxInt64" "0 < m" "m < 2 ^ 62" "1 \<le> n"
  shows "BackoffCapMs n i m = min m (i * 2 ^ nat (n - 1))"
  by (rule BackoffCapMs_exact [OF assms])

theorem BackoffCapMs_formula_witness: "BackoffCapMs 4 1000 30000 = 8000 \<and> BackoffCapMs 90 1000 30000 = 30000"
proof -
  have "(30000 :: int) \<le> 1000 * 2 ^ 89" by simp
  then show ?thesis
    using BackoffCapMs_formula [of 1000 30000 4] BackoffCapMs_formula [of 1000 30000 90]
    by (simp add: MaxInt64_def min_def)
qed

text \<open>C32: whatever the random source, the attempt number and the Retry-After value, the delay of a
  retry is between 0 and the maximum delay (below 2^53 ms, the largest the task schema admits):
  rounding in the jitter never leaves the cap; without Retry-After it stays within the backoff cap;
  and a Retry-After value raises it to at least that value, up to the maximum.\<close>

theorem ComputeRetryDelayMs_range:
  assumes "0 < m" "m < 2 ^ 53"
  shows "0 \<le> ComputeRetryDelayMs n i m (SampleJitter b) ra \<and> ComputeRetryDelayMs n i m (SampleJitter b) ra \<le> m \<and>
    ComputeRetryDelayMs n i m (SampleJitter b) None \<le> BackoffCapMs n i m \<and>
    (\<forall>r. ra = Some r \<longrightarrow> min r m \<le> ComputeRetryDelayMs n i m (SampleJitter b) ra) \<and>
    ComputeRetryDelayMs n i m (SampleJitter b) None \<le> ComputeRetryDelayMs n i m (SampleJitter b) ra"
proof -
  have "JitteredDelayMs (BackoffCapMs n i m) (SampleJitter b) \<le> BackoffCapMs n i m"
    using JitteredDelayMs_bounds BackoffCapMs_bounds [OF assms(1), of n i] assms(2) by auto
  then show ?thesis using ComputeRetryDelayMs_bounds [OF assms, of n i "SampleJitter b"] assms(1)
    by (auto simp: ComputeRetryDelayMs_def Let_def split: option.splits)
qed

theorem ComputeRetryDelayMs_range_witness:
  "ComputeRetryDelayMs 2 1000 30000 (SampleJitter (Some 7)) (Some 90000) = 30000"
proof -
  have "(30000 :: int) < 2 ^ 53" by simp
  then have "min 90000 30000 \<le> ComputeRetryDelayMs 2 1000 30000 (SampleJitter (Some 7)) (Some 90000)"
    "ComputeRetryDelayMs 2 1000 30000 (SampleJitter (Some 7)) (Some 90000) \<le> 30000"
    using ComputeRetryDelayMs_range [of 30000 2 1000 "Some 7" "Some 90000"] by auto
  then show ?thesis by simp
qed

text \<open>C33: the comment in \<open>ParseRetryAfter\<close> says a saturated value never becomes a negative or immediate
  retry.  It does: with a maximum delay the task schema admits, the delay is within its bounds but its
  conversion to nanoseconds overflows, and the due time lies before the present.\<close>

theorem retry_due_overflows:
  "\<exists>m delay. 0 < m \<and> m \<le> 9007199254740991 \<and>
     ParseRetryAfter (\<lambda>_. None) ''9223372036854775807'' now = Some MaxInt64 \<and>
     delay = ComputeRetryDelayMs 1 1000 m (SampleJitter b) (Some MaxInt64) \<and> delay = m \<and>
     now + ms_duration delay < now"
proof -
  let ?m = "9223372036855 :: int"
  have "(?m :: int) < 2 ^ 53" by simp
  then have "ComputeRetryDelayMs 1 1000 ?m (SampleJitter b) (Some MaxInt64) = ?m"
    using ComputeRetryDelayMs_bounds [of ?m 1 1000 "SampleJitter b" None]
    by (auto simp: ComputeRetryDelayMs_def Let_def MaxInt64_def)
  moreover have "ParseRetryAfter (\<lambda>_. None) ''9223372036854775807'' now = Some MaxInt64"
  proof -
    have "TrimSpace ''9223372036854775807'' = ''9223372036854775807''"
      "ParseInt64 ''9223372036854775807'' = Some MaxInt64" by code_simp+
    then show ?thesis by (simp add: ParseRetryAfter_def MaxInt64_def)
  qed
  moreover have "ms_duration ?m < 0" by code_simp
  ultimately show ?thesis by (intro exI [of _ ?m]) simp
qed

end
