(* ===== verification/Run_Store.thy ===== *)
theory Run_Store
  imports Retry_Policy Json_Value
begin

text \<open>
  The durable state of the execution engine: one tenant's rows of the tables in
  \<open>src/migrations\<close> that the engine reads and writes (every statement of the engine is scoped to one
  organization), and the primitives all of its transactions share
  (\<open>internal/execution/worker_engine.go\<close>, \<open>reconcile.go\<close>).  A table is the list of its rows; an
  \<open>UPDATE ... WHERE\<close> is \<open>upd\<close>; a transaction maps a state to a new state or to an error, and an
  error leaves the old state (rollback).  Identifiers are natural numbers drawn from a counter;
  times are nanoseconds, and a transaction reads the clock once.  Columns that no modelled
  statement reads (\<open>created_at\<close> of most tables, \<open>updated_at\<close>, texts of messages and event payloads)
  are left out.
\<close>

section \<open>Rows\<close>

type_synonym uid = nat

type_synonym time = int

record run_row =
  r_id :: uid
  r_env :: uid
  r_deployment :: uid
  r_workflow :: string
  r_status :: RunStatus
  r_reason :: "string option"
  r_revision :: int
  r_input :: json
  r_output :: "json option"
  r_deadline :: "time option"
  r_last_event :: int
  r_confirmed :: "bool option"
  r_pause_requested :: bool

record step_row =
  s_id :: uid
  s_run :: uid
  s_node :: string
  s_kind :: string
  s_state :: StepStatus
  s_wait :: "string option"
  s_epoch :: int
  s_next_attempt :: int
  s_eligible :: "time option"
  s_output :: "json option"
  s_valid_until :: "time option"
  s_source :: "string option"

record attempt_error =
  e_code :: string
  e_retryable :: bool
  e_effect :: string

record attempt_row =
  a_id :: uid
  a_step :: uid
  a_number :: int
  a_session :: "uid option"
  a_epoch :: int
  a_status :: AttemptStatus
  a_digest :: "string option"
  a_error :: "attempt_error option"
  a_started :: "time option"
  a_deadline :: "time option"
  a_completed :: "time option"
  a_created :: time
  a_start_deadline :: "time option"
  a_timeout_ms :: int

record lease_row =
  l_step :: uid
  l_attempt :: uid
  l_session :: uid
  l_epoch :: int
  l_expires :: time

record timer_row =
  t_id :: uid
  t_kind :: string
  t_ref :: uid
  t_run :: uid
  t_step :: uid
  t_number :: "int option"
  t_reason :: string
  t_due :: time
  t_state :: TimerStatus

datatype CaseStatus = C_OPEN | C_RESOLVED

record case_row =
  c_id :: uid
  c_step :: uid
  c_attempt :: "uid option"
  c_reason :: string
  c_status :: CaseStatus
  c_resolution :: "string option"
  c_actor :: "string option"
  c_revision :: int

record approval_row =
  p_id :: uid
  p_step :: uid
  p_payload :: json
  p_status :: ApprovalStatus
  p_expires :: "time option"
  p_decided :: "time option"
  p_comment :: "string option"
  p_actor :: "string option"
  p_revision :: int

record stop_row =
  x_id :: uid
  x_attempt :: uid
  x_reason :: string
  x_deadline :: time
  x_acked :: "time option"
  x_confirmed :: "time option"

record event_row =
  v_run :: uid
  v_seq :: int
  v_type :: string

record db =
  db_runs :: "run_row list"
  db_steps :: "step_row list"
  db_attempts :: "attempt_row list"
  db_leases :: "lease_row list"
  db_timers :: "timer_row list"
  db_cases :: "case_row list"
  db_approvals :: "approval_row list"
  db_stops :: "stop_row list"
  db_events :: "event_row list"
  db_outbox :: "event_row list"
  db_audits :: "(string \<times> uid) list"
  db_next :: uid

datatype engine_error =
    ErrRunNotFound | ErrRunTerminal | ErrRunCancelling | ErrRunNotPaused | ErrRevisionConflict
  | ErrRunDeadlineExceeded | ErrHistoryLimitExceeded | ErrNoRows
  | ErrCaseNotFound | ErrCaseResolved | ErrBudgetExhausted | ErrInvalidAction | ErrMissingEvidence
  | ErrMissingReason | ErrReasonTooLong | ErrMissingResult | ErrResultTooLarge | ErrResultSchema
  | ErrWindowInsufficient | ErrMachineForbidden | ErrInvalidRecovery | ErrAuditRequired
  | ErrApprovalNotFound | ErrApprovalTerminal | ErrApprovalConflict | ErrApprovalExpired
  | ErrApprovalHumanOnly | ErrInvalidDecision | ErrPayloadTooLarge | ErrInvalidDelay
  | ErrUnauthorized | ErrStaleOwnership | ErrAttemptNotFound | ErrStartDeadlineExceeded | ErrResultConflict
  | ErrInvalidOutcome | ErrSessionRevoked | ErrSessionExpired | ErrWorkerRevoked | ErrRecoveryControlsUnavailable
  | ErrAdmissionDisabled | ErrCreateRateLimited | ErrRunQuotaExceeded | ErrDeploymentNotFound | ErrNoActiveDeployment
  | ErrWorkflowNotFound | ErrWorkflowTooLarge | ErrSchemaViolation | ErrRunIdempotencyConflict | EngineError string

type_synonym 'a tx = "engine_error + 'a"

section \<open>Statements\<close>

definition upd :: "('a \<Rightarrow> bool) \<Rightarrow> ('a \<Rightarrow> 'a) \<Rightarrow> 'a list \<Rightarrow> 'a list" where
  "upd P f rows = map (\<lambda>x. if P x then f x else x) rows"

definition upd_runs :: "(run_row \<Rightarrow> bool) \<Rightarrow> (run_row \<Rightarrow> run_row) \<Rightarrow> db \<Rightarrow> db" where
  "upd_runs P f d = d\<lparr>db_runs := upd P f (db_runs d)\<rparr>"

definition upd_steps :: "(step_row \<Rightarrow> bool) \<Rightarrow> (step_row \<Rightarrow> step_row) \<Rightarrow> db \<Rightarrow> db" where
  "upd_steps P f d = d\<lparr>db_steps := upd P f (db_steps d)\<rparr>"

definition upd_attempts :: "(attempt_row \<Rightarrow> bool) \<Rightarrow> (attempt_row \<Rightarrow> attempt_row) \<Rightarrow> db \<Rightarrow> db" where
  "upd_attempts P f d = d\<lparr>db_attempts := upd P f (db_attempts d)\<rparr>"

definition upd_timers :: "(timer_row \<Rightarrow> bool) \<Rightarrow> (timer_row \<Rightarrow> timer_row) \<Rightarrow> db \<Rightarrow> db" where
  "upd_timers P f d = d\<lparr>db_timers := upd P f (db_timers d)\<rparr>"

definition upd_cases :: "(case_row \<Rightarrow> bool) \<Rightarrow> (case_row \<Rightarrow> case_row) \<Rightarrow> db \<Rightarrow> db" where
  "upd_cases P f d = d\<lparr>db_cases := upd P f (db_cases d)\<rparr>"

definition upd_approvals :: "(approval_row \<Rightarrow> bool) \<Rightarrow> (approval_row \<Rightarrow> approval_row) \<Rightarrow> db \<Rightarrow> db" where
  "upd_approvals P f d = d\<lparr>db_approvals := upd P f (db_approvals d)\<rparr>"

definition delete_leases :: "(lease_row \<Rightarrow> bool) \<Rightarrow> db \<Rightarrow> db" where
  "delete_leases P d = d\<lparr>db_leases := filter (\<lambda>l. \<not> P l) (db_leases d)\<rparr>"

definition find_run :: "db \<Rightarrow> uid \<Rightarrow> run_row option" where
  "find_run d rid = List.find (\<lambda>r. r_id r = rid) (db_runs d)"

definition find_step :: "db \<Rightarrow> uid \<Rightarrow> step_row option" where
  "find_step d sid = List.find (\<lambda>s. s_id s = sid) (db_steps d)"

definition get_run :: "db \<Rightarrow> uid \<Rightarrow> run_row tx" where
  "get_run d rid = (case find_run d rid of None \<Rightarrow> Inl ErrNoRows | Some r \<Rightarrow> Inr r)"

definition get_step :: "db \<Rightarrow> uid \<Rightarrow> step_row tx" where
  "get_step d sid = (case find_step d sid of None \<Rightarrow> Inl ErrNoRows | Some s \<Rightarrow> Inr s)"

text \<open>\<open>COALESCE(reason_code, '')\<close>.\<close>

definition text_or_empty :: "string option \<Rightarrow> string" where
  "text_or_empty o' = (case o' of None \<Rightarrow> [] | Some s \<Rightarrow> s)"

text \<open>The joins of the engine: the steps of a run and the rows that hang on them.\<close>

definition step_ids :: "db \<Rightarrow> uid \<Rightarrow> uid list" where
  "step_ids d rid = map s_id (filter (\<lambda>s. s_run s = rid) (db_steps d))"

definition live_attempts :: "db \<Rightarrow> uid \<Rightarrow> attempt_row list" where
  "live_attempts d rid = filter (\<lambda>a. a_step a \<in> set (step_ids d rid) \<and> attempt_live (a_status a)) (db_attempts d)"

definition open_cases :: "db \<Rightarrow> uid \<Rightarrow> case_row list" where
  "open_cases d rid = filter (\<lambda>c. c_step c \<in> set (step_ids d rid) \<and> c_status c = C_OPEN) (db_cases d)"

definition pending_timers :: "db \<Rightarrow> uid \<Rightarrow> timer_row list" where
  "pending_timers d rid = filter (\<lambda>t. t_run t = rid \<and> t_state t = T_PENDING) (db_timers d)"

definition steps_in :: "db \<Rightarrow> uid \<Rightarrow> StepStatus list \<Rightarrow> step_row list" where
  "steps_in d rid states = filter (\<lambda>s. s_run s = rid \<and> s_state s \<in> set states) (db_steps d)"

definition insert_stop :: "uid \<Rightarrow> string \<Rightarrow> time \<Rightarrow> db \<Rightarrow> db" where
  "insert_stop aid reason deadline d =
     d\<lparr>db_stops := db_stops d @ [\<lparr> x_id = db_next d, x_attempt = aid, x_reason = reason, x_deadline = deadline,
         x_acked = None, x_confirmed = None \<rparr>], db_next := db_next d + 1\<rparr>"

definition audit :: "string \<Rightarrow> uid \<Rightarrow> db \<Rightarrow> db" where
  "audit action target d = d\<lparr>db_audits := db_audits d @ [(action, target)]\<rparr>"

section \<open>Run history\<close>

definition maxRunEvents :: int where "maxRunEvents = 10000"

definition terminal_event :: "string \<Rightarrow> bool" where
  "terminal_event t \<longleftrightarrow> t \<in> {''RUN_COMPLETED'', ''RUN_FAILED'', ''RUN_CANCELLED''}"

definition within_budget :: "string \<Rightarrow> int \<Rightarrow> bool" where
  "within_budget eventType n \<longleftrightarrow>
     n < maxRunEvents - 1 \<or> (terminal_event eventType \<and> n = maxRunEvents - 1)"

definition appendRunEvent :: "uid \<Rightarrow> string \<Rightarrow> db \<Rightarrow> db tx" where
  "appendRunEvent runID eventType d =
     (case find_run d runID of
        None \<Rightarrow> Inl ErrHistoryLimitExceeded
      | Some r \<Rightarrow>
          if \<not> within_budget eventType (r_last_event r) then Inl ErrHistoryLimitExceeded
          else
            (let e = \<lparr> v_run = runID, v_seq = r_last_event r + 1, v_type = eventType \<rparr>;
                 d = upd_runs (\<lambda>q. r_id q = runID) (\<lambda>q. q\<lparr>r_last_event := r_last_event q + 1\<rparr>) d
             in Inr (d\<lparr>db_events := db_events d @ [e], db_outbox := db_outbox d @ [e]\<rparr>)))"

section \<open>Settlement\<close>

definition closeOpenCasesTx :: "uid \<Rightarrow> string option \<Rightarrow> string \<Rightarrow> db \<Rightarrow> db tx" where
  "closeOpenCasesTx runID actorID resolution d =
     (let closed = open_cases d runID;
          d' = upd_cases (\<lambda>c. c_step c \<in> set (step_ids d runID) \<and> c_status c = C_OPEN)
                 (\<lambda>c. c\<lparr>c_status := C_RESOLVED, c_resolution := Some resolution, c_actor := actorID,
                        c_revision := c_revision c + 1\<rparr>) d
      in if closed = [] then Inr d' else appendRunEvent runID ''CASE_RESOLVED'' d')"

definition effect_of :: "attempt_row \<Rightarrow> string" where
  "effect_of a = (if a_status a = A_RUNNING \<or> a_started a \<noteq> None then ''UNKNOWN'' else ''NOT_APPLIED'')"

text \<open>One live attempt loses its ownership and its worker is told to stop.\<close>

definition fail_live_attempt :: "time \<Rightarrow> attempt_row \<Rightarrow> db \<Rightarrow> db" where
  "fail_live_attempt now a d =
     insert_stop (a_id a) ''SIBLING_FAILED'' (now + 10 * 1000000000)
       (delete_leases (\<lambda>l. l_attempt l = a_id a)
         (upd_attempts (\<lambda>b. a_id b = a_id a \<and> attempt_live (a_status b))
           (\<lambda>b. b\<lparr>a_status := A_CANCELLED, a_completed := Some now,
                  a_error := Some \<lparr> e_code = ''SIBLING_FAILED'', e_retryable = False, e_effect = effect_of a \<rparr>\<rparr>) d))"

definition open_states :: "StepStatus list" where
  "open_states = [S_BLOCKED, S_READY, S_WAITING, S_RUNNING]"

definition cancel_timers :: "uid \<Rightarrow> db \<Rightarrow> db" where
  "cancel_timers runID = upd_timers (\<lambda>t. t_run t = runID \<and> t_state t = T_PENDING) (\<lambda>t. t\<lparr>t_state := T_CANCELLED\<rparr>)"

definition failRunForStepTx :: "time \<Rightarrow> uid \<Rightarrow> uid \<Rightarrow> string \<Rightarrow> string option \<Rightarrow> db \<Rightarrow> db tx" where
  "failRunForStepTx now runID stepID reasonCode actorID d =
     (let d1 = fold (fail_live_attempt now) (live_attempts d runID) d;
          d2 = upd_steps (\<lambda>s. s_id s = stepID) (\<lambda>s. s\<lparr>s_state := S_FAILED, s_wait := Some reasonCode\<rparr>) d1
      in ebind (closeOpenCasesTx runID actorID ''FAIL'' d2) (\<lambda>d3.
           (let d4 = upd_runs (\<lambda>r. r_id r = runID) (\<lambda>r. r\<lparr>r_status := R_FAILED, r_reason := Some reasonCode\<rparr>) d3;
                d5 = upd_steps (\<lambda>s. s_run s = runID \<and> s_id s \<noteq> stepID \<and> s_state s \<in> set open_states)
                       (\<lambda>s. s\<lparr>s_state := S_CANCELLED, s_wait := None\<rparr>) d4;
                d6 = cancel_timers runID d5
            in appendRunEvent runID ''RUN_FAILED'' d6)))"

section \<open>Statement lemmas\<close>

lemma upd_runs_simps [simp]:
  "db_runs (upd_runs P f d) = upd P f (db_runs d)"
  "db_steps (upd_runs P f d) = db_steps d"
  "db_attempts (upd_runs P f d) = db_attempts d"
  "db_leases (upd_runs P f d) = db_leases d"
  "db_timers (upd_runs P f d) = db_timers d"
  "db_cases (upd_runs P f d) = db_cases d"
  "db_approvals (upd_runs P f d) = db_approvals d"
  "db_stops (upd_runs P f d) = db_stops d"
  "db_events (upd_runs P f d) = db_events d"
  "db_outbox (upd_runs P f d) = db_outbox d"
  "db_audits (upd_runs P f d) = db_audits d"
  "db_next (upd_runs P f d) = db_next d"
  by (simp_all add: upd_runs_def)

lemma upd_steps_simps [simp]:
  "db_runs (upd_steps P f d) = db_runs d"
  "db_steps (upd_steps P f d) = upd P f (db_steps d)"
  "db_attempts (upd_steps P f d) = db_attempts d"
  "db_leases (upd_steps P f d) = db_leases d"
  "db_timers (upd_steps P f d) = db_timers d"
  "db_cases (upd_steps P f d) = db_cases d"
  "db_approvals (upd_steps P f d) = db_approvals d"
  "db_stops (upd_steps P f d) = db_stops d"
  "db_events (upd_steps P f d) = db_events d"
  "db_outbox (upd_steps P f d) = db_outbox d"
  "db_audits (upd_steps P f d) = db_audits d"
  "db_next (upd_steps P f d) = db_next d"
  by (simp_all add: upd_steps_def)

lemma upd_attempts_simps [simp]:
  "db_runs (upd_attempts P f d) = db_runs d"
  "db_steps (upd_attempts P f d) = db_steps d"
  "db_attempts (upd_attempts P f d) = upd P f (db_attempts d)"
  "db_leases (upd_attempts P f d) = db_leases d"
  "db_timers (upd_attempts P f d) = db_timers d"
  "db_cases (upd_attempts P f d) = db_cases d"
  "db_approvals (upd_attempts P f d) = db_approvals d"
  "db_stops (upd_attempts P f d) = db_stops d"
  "db_events (upd_attempts P f d) = db_events d"
  "db_outbox (upd_attempts P f d) = db_outbox d"
  "db_audits (upd_attempts P f d) = db_audits d"
  "db_next (upd_attempts P f d) = db_next d"
  by (simp_all add: upd_attempts_def)

lemma upd_timers_simps [simp]:
  "db_runs (upd_timers P f d) = db_runs d"
  "db_steps (upd_timers P f d) = db_steps d"
  "db_attempts (upd_timers P f d) = db_attempts d"
  "db_leases (upd_timers P f d) = db_leases d"
  "db_timers (upd_timers P f d) = upd P f (db_timers d)"
  "db_cases (upd_timers P f d) = db_cases d"
  "db_approvals (upd_timers P f d) = db_approvals d"
  "db_stops (upd_timers P f d) = db_stops d"
  "db_events (upd_timers P f d) = db_events d"
  "db_outbox (upd_timers P f d) = db_outbox d"
  "db_audits (upd_timers P f d) = db_audits d"
  "db_next (upd_timers P f d) = db_next d"
  by (simp_all add: upd_timers_def)

lemma upd_cases_simps [simp]:
  "db_runs (upd_cases P f d) = db_runs d"
  "db_steps (upd_cases P f d) = db_steps d"
  "db_attempts (upd_cases P f d) = db_attempts d"
  "db_leases (upd_cases P f d) = db_leases d"
  "db_timers (upd_cases P f d) = db_timers d"
  "db_cases (upd_cases P f d) = upd P f (db_cases d)"
  "db_approvals (upd_cases P f d) = db_approvals d"
  "db_stops (upd_cases P f d) = db_stops d"
  "db_events (upd_cases P f d) = db_events d"
  "db_outbox (upd_cases P f d) = db_outbox d"
  "db_audits (upd_cases P f d) = db_audits d"
  "db_next (upd_cases P f d) = db_next d"
  by (simp_all add: upd_cases_def)

lemma upd_approvals_simps [simp]:
  "db_runs (upd_approvals P f d) = db_runs d"
  "db_steps (upd_approvals P f d) = db_steps d"
  "db_attempts (upd_approvals P f d) = db_attempts d"
  "db_leases (upd_approvals P f d) = db_leases d"
  "db_timers (upd_approvals P f d) = db_timers d"
  "db_cases (upd_approvals P f d) = db_cases d"
  "db_approvals (upd_approvals P f d) = upd P f (db_approvals d)"
  "db_stops (upd_approvals P f d) = db_stops d"
  "db_events (upd_approvals P f d) = db_events d"
  "db_outbox (upd_approvals P f d) = db_outbox d"
  "db_audits (upd_approvals P f d) = db_audits d"
  "db_next (upd_approvals P f d) = db_next d"
  by (simp_all add: upd_approvals_def)

lemma delete_leases_simps [simp]:
  "db_runs (delete_leases Q d) = db_runs d"
  "db_steps (delete_leases Q d) = db_steps d"
  "db_attempts (delete_leases Q d) = db_attempts d"
  "db_leases (delete_leases Q d) = filter (\<lambda>l. \<not> Q l) (db_leases d)"
  "db_timers (delete_leases Q d) = db_timers d"
  "db_cases (delete_leases Q d) = db_cases d"
  "db_approvals (delete_leases Q d) = db_approvals d"
  "db_stops (delete_leases Q d) = db_stops d"
  "db_events (delete_leases Q d) = db_events d"
  "db_outbox (delete_leases Q d) = db_outbox d"
  "db_audits (delete_leases Q d) = db_audits d"
  "db_next (delete_leases Q d) = db_next d"
  by (simp_all add: delete_leases_def)

lemma insert_stop_simps [simp]:
  "db_runs (insert_stop a r t d) = db_runs d"
  "db_steps (insert_stop a r t d) = db_steps d"
  "db_attempts (insert_stop a r t d) = db_attempts d"
  "db_leases (insert_stop a r t d) = db_leases d"
  "db_timers (insert_stop a r t d) = db_timers d"
  "db_cases (insert_stop a r t d) = db_cases d"
  "db_approvals (insert_stop a r t d) = db_approvals d"
  "db_events (insert_stop a r t d) = db_events d"
  "db_outbox (insert_stop a r t d) = db_outbox d"
  "db_audits (insert_stop a r t d) = db_audits d"
  by (simp_all add: insert_stop_def)

lemma audit_simps [simp]:
  "db_runs (audit a t d) = db_runs d"
  "db_steps (audit a t d) = db_steps d"
  "db_attempts (audit a t d) = db_attempts d"
  "db_leases (audit a t d) = db_leases d"
  "db_timers (audit a t d) = db_timers d"
  "db_cases (audit a t d) = db_cases d"
  "db_approvals (audit a t d) = db_approvals d"
  "db_stops (audit a t d) = db_stops d"
  "db_events (audit a t d) = db_events d"
  "db_outbox (audit a t d) = db_outbox d"
  "db_next (audit a t d) = db_next d"
  by (simp_all add: audit_def)

lemma upd_id [simp]: "upd P (\<lambda>x. x) xs = xs"
  by (simp add: upd_def)

lemma length_upd [simp]: "length (upd P f xs) = length xs"
  by (simp add: upd_def)

lemma in_upd: "x \<in> set (upd P f xs) \<longleftrightarrow> (\<exists>y \<in> set xs. x = (if P y then f y else y))"
  by (auto simp: upd_def)

lemma map_upd_same: "(\<And>x. k (f x) = k x) \<Longrightarrow> map k (upd P f xs) = map k xs"
  by (auto simp: upd_def)

lemma find_upd:
  assumes "\<And>x. P (f x) = P x"
  shows "List.find P (upd Q f xs) = map_option (\<lambda>x. if Q x then f x else x) (List.find P xs)"
  using assms by (induction xs) (auto simp: upd_def)

lemma find_run_cong [simp]:
  "find_run (upd_steps P1 f1 d) = find_run d" "find_run (upd_attempts P2 f2 d) = find_run d"
  "find_run (upd_timers P3 f3 d) = find_run d" "find_run (upd_cases P4 f4 d) = find_run d"
  "find_run (upd_approvals P5 f5 d) = find_run d" "find_run (delete_leases Q d) = find_run d"
  "find_run (insert_stop a r t d) = find_run d" "find_run (audit x y d) = find_run d"
  by (simp_all add: find_run_def fun_eq_iff)

lemma find_run_upd:
  "(\<And>r. r_id (f r) = r_id r) \<Longrightarrow>
     find_run (upd_runs P f d) x = map_option (\<lambda>r. if P r then f r else r) (find_run d x)"
  unfolding find_run_def upd_runs_simps by (rule find_upd) simp

lemma find_run_id: "find_run d x = Some r \<Longrightarrow> r_id r = x \<and> r \<in> set (db_runs d)"
  unfolding find_run_def using find_Some_set by fastforce

lemma find_step_id: "find_step d x = Some s \<Longrightarrow> s_id s = x \<and> s \<in> set (db_steps d)"
  unfolding find_step_def using find_Some_set by fastforce

lemma find_step_upd:
  "(\<And>s. s_id (f s) = s_id s) \<Longrightarrow>
     find_step (upd_steps P f d) x = map_option (\<lambda>s. if P s then f s else s) (find_step d x)"
  unfolding find_step_def upd_steps_simps by (rule find_upd) simp

lemma find_step_frame [simp]:
  "find_step (upd_runs P1 f1 d) = find_step d" "find_step (upd_attempts P2 f2 d) = find_step d"
  "find_step (upd_timers P3 f3 d) = find_step d" "find_step (upd_cases P4 f4 d) = find_step d"
  "find_step (upd_approvals P5 f5 d) = find_step d" "find_step (delete_leases Q d) = find_step d"
  "find_step (insert_stop a r t d) = find_step d" "find_step (audit x y d) = find_step d"
  by (simp_all add: find_step_def fun_eq_iff)

lemma step_ids_cong [simp]:
  "step_ids (upd_runs P1 f1 d) = step_ids d" "step_ids (upd_attempts P2 f2 d) = step_ids d"
  "step_ids (upd_timers P3 f3 d) = step_ids d" "step_ids (upd_cases P4 f4 d) = step_ids d"
  "step_ids (upd_approvals P5 f5 d) = step_ids d" "step_ids (delete_leases Q d) = step_ids d"
  "step_ids (insert_stop a r t d) = step_ids d" "step_ids (audit x y d) = step_ids d"
  by (simp_all add: step_ids_def fun_eq_iff)

lemma map_filter_upd:
  "(\<And>x. k (f x) = k x \<and> Q (f x) = Q x) \<Longrightarrow> map k (filter Q (upd P f xs)) = map k (filter Q xs)"
  by (induction xs) (auto simp: upd_def)

lemma step_ids_upd:
  "(\<And>s. s_id (f s) = s_id s \<and> s_run (f s) = s_run s) \<Longrightarrow> step_ids (upd_steps P f d) = step_ids d"
  by (simp add: step_ids_def fun_eq_iff map_filter_upd)

section \<open>Run history lemmas\<close>

lemma appendRunEvent_Inr:
  "appendRunEvent rid t d = Inr d' \<longleftrightarrow>
     (\<exists>r. find_run d rid = Some r \<and> within_budget t (r_last_event r) \<and>
       d' = (upd_runs (\<lambda>q. r_id q = rid) (\<lambda>q. q\<lparr>r_last_event := r_last_event q + 1\<rparr>) d)
         \<lparr>db_events := db_events d @ [\<lparr> v_run = rid, v_seq = r_last_event r + 1, v_type = t \<rparr>],
          db_outbox := db_outbox d @ [\<lparr> v_run = rid, v_seq = r_last_event r + 1, v_type = t \<rparr>]\<rparr>)"
  by (auto simp: appendRunEvent_def Let_def split: option.splits if_splits)

text \<open>What a state holds of the history: every run's last sequence number, and the events.  Only
  \<open>appendRunEvent\<close> changes it.\<close>

definition history :: "db \<Rightarrow> (uid \<times> int) list \<times> event_row list" where
  "history d = (map (\<lambda>r. (r_id r, r_last_event r)) (db_runs d), db_events d)"

lemma history_upd_runs:
  "(\<And>r. r_id (f r) = r_id r \<and> r_last_event (f r) = r_last_event r) \<Longrightarrow> history (upd_runs P f d) = history d"
  by (simp add: history_def map_upd_same)

lemma history_simps [simp]:
  "history (upd_steps P1 f1 d) = history d" "history (upd_attempts P2 f2 d) = history d"
  "history (upd_timers P3 f3 d) = history d" "history (upd_cases P4 f4 d) = history d"
  "history (upd_approvals P5 f5 d) = history d" "history (delete_leases Q d) = history d"
  "history (insert_stop a r t d) = history d" "history (audit x y d) = history d"
  by (simp_all add: history_def)

definition run_events :: "event_row list \<Rightarrow> uid \<Rightarrow> event_row list" where
  "run_events es rid = filter (\<lambda>e. v_run e = rid) es"

text \<open>A well-formed history: run ids are distinct; the events of a run are numbered 1, 2, ... without a
  gap up to its last sequence number, which is at most 10000; and number 10000 is a terminal event.\<close>

definition history_ok :: "(uid \<times> int) list \<times> event_row list \<Rightarrow> bool" where
  "history_ok h \<longleftrightarrow> distinct (map fst (fst h)) \<and>
     (\<forall>(rid, n) \<in> set (fst h). 0 \<le> n \<and> n \<le> maxRunEvents \<and> map v_seq (run_events (snd h) rid) = [1..n]) \<and>
     (\<forall>e \<in> set (snd h). v_seq e = maxRunEvents \<longrightarrow> terminal_event (v_type e))"

lemma history_okD:
  assumes "history_ok (history d)" and "find_run d rid = Some r"
  shows "0 \<le> r_last_event r" and "r_last_event r \<le> maxRunEvents" and "map v_seq (run_events (db_events d) rid) = [1..r_last_event r]"
proof -
  have "(rid, r_last_event r) \<in> set (fst (history d))"
    using find_run_id [OF assms(2)] by (force simp: history_def)
  then show "0 \<le> r_last_event r" "r_last_event r \<le> maxRunEvents" "map v_seq (run_events (db_events d) rid) = [1..r_last_event r]"
    using assms(1) by (auto simp: history_ok_def history_def)
qed

lemma appendRunEvent_history:
  assumes "appendRunEvent rid t d = Inr d'" and "history_ok (history d)"
  shows "history_ok (history d')"
proof -
  from assms(1) obtain r where r: "find_run d rid = Some r" and b: "within_budget t (r_last_event r)"
    and d': "d' = (upd_runs (\<lambda>q. r_id q = rid) (\<lambda>q. q\<lparr>r_last_event := r_last_event q + 1\<rparr>) d)
         \<lparr>db_events := db_events d @ [\<lparr> v_run = rid, v_seq = r_last_event r + 1, v_type = t \<rparr>],
          db_outbox := db_outbox d @ [\<lparr> v_run = rid, v_seq = r_last_event r + 1, v_type = t \<rparr>]\<rparr>"
    unfolding appendRunEvent_Inr by blast
  let ?e = "\<lparr> v_run = rid, v_seq = r_last_event r + 1, v_type = t \<rparr>"
  have runs: "map (\<lambda>r. (r_id r, r_last_event r)) (db_runs d') =
      map (\<lambda>p. if fst p = rid then (rid, snd p + 1) else p) (map (\<lambda>r. (r_id r, r_last_event r)) (db_runs d))"
    unfolding d' by (simp add: upd_def)
  have ids: "map fst (fst (history d')) = map fst (fst (history d))"
    unfolding history_def fst_conv runs by auto
  have *: "0 \<le> n \<and> n \<le> maxRunEvents \<and> map v_seq (run_events (db_events d') x) = [1..n]"
    if x: "(x, n) \<in> set (fst (history d'))" for x n
  proof -
    obtain q where q: "q \<in> set (db_runs d)" "x = r_id q"
      "n = (if r_id q = rid then r_last_event q + 1 else r_last_event q)"
      using x unfolding history_def fst_conv runs by (auto split: if_splits)
    define m where "m = r_last_event q"
    have m: "(x, m) \<in> set (fst (history d))" using q by (auto simp: m_def history_def)
    have n: "n = (if x = rid then m + 1 else m)" using q by (simp add: m_def)
    have ok: "0 \<le> m" "m \<le> maxRunEvents" "map v_seq (run_events (db_events d) x) = [1..m]"
      using assms(2) m by (auto simp: history_ok_def history_def)
    show ?thesis
    proof (cases "x = rid")
      case True
      have "m = r_last_event r"
      proof -
        have "(rid, r_last_event r) \<in> set (fst (history d))"
          using find_run_id [OF r] by (force simp: history_def)
        with m True assms(2) show ?thesis by (auto simp: history_ok_def dest: eq_key_imp_eq_value)
      qed
      then show ?thesis
        using True n ok b unfolding d' by (auto simp: run_events_def within_budget_def upto_rec2)
    next
      case False
      then show ?thesis using n ok unfolding d' by (simp add: run_events_def)
    qed
  qed
  moreover have "terminal_event (v_type e)" if "e \<in> set (db_events d')" "v_seq e = maxRunEvents" for e
    using that assms(2) b unfolding d' by (auto simp: history_ok_def history_def within_budget_def)
  moreover have "distinct (map fst (fst (history d')))"
    using assms(2) unfolding ids by (simp add: history_ok_def)
  ultimately show ?thesis by (auto simp: history_ok_def history_def)
qed

section \<open>Results of transactions\<close>

text \<open>\<open>holds I t\<close>: if the transaction commits, its result satisfies \<open>I\<close>.\<close>

definition holds :: "('a \<Rightarrow> bool) \<Rightarrow> 'a tx \<Rightarrow> bool" where
  "holds I t \<longleftrightarrow> (\<forall>d. t = Inr d \<longrightarrow> I d)"

lemma holds_Inr [simp]: "holds I (Inr d) \<longleftrightarrow> I d"
  by (simp add: holds_def)

lemma holds_Inl [simp]: "holds I (Inl e)"
  by (simp add: holds_def)

lemma holds_mono: "holds J t \<Longrightarrow> (\<And>d. J d \<Longrightarrow> I d) \<Longrightarrow> holds I t"
  by (simp add: holds_def)

lemma holds_bind: "holds J t \<Longrightarrow> (\<And>d. J d \<Longrightarrow> holds I (k d)) \<Longrightarrow> holds I (ebind t k)"
  by (cases t) (simp_all add: holds_def)

lemma holds_guard [simp]: "holds I (ebind (guard_err b e) k) \<longleftrightarrow> (b \<longrightarrow> holds I (k ()))"
  by (cases b) (simp_all add: guard_err_def)

lemma holds_efold:
  "(\<And>x d. x \<in> set xs \<Longrightarrow> I d \<Longrightarrow> holds I (f x d)) \<Longrightarrow> I d \<Longrightarrow> holds I (efold f xs d)"
  by (induction xs arbitrary: d) (auto intro: holds_bind)

lemma holds_fold: "(\<And>x d. x \<in> set xs \<Longrightarrow> I d \<Longrightarrow> I (f x d)) \<Longrightarrow> I d \<Longrightarrow> I (fold f xs d)"
  by (induction xs arbitrary: d) auto

lemma holds_ebindD: "ebind t k = Inr x \<Longrightarrow> \<exists>d. t = Inr d \<and> k d = Inr x"
  by (cases t) simp_all

section \<open>Settlement lemmas\<close>

text \<open>The loop over the live attempts, on each table it touches.\<close>

definition stop_live :: "time \<Rightarrow> attempt_row list \<Rightarrow> attempt_row \<Rightarrow> attempt_row" where
  "stop_live now as b = fold (\<lambda>a b. if a_id b = a_id a \<and> attempt_live (a_status b)
     then b\<lparr>a_status := A_CANCELLED, a_completed := Some now,
            a_error := Some \<lparr> e_code = ''SIBLING_FAILED'', e_retryable = False, e_effect = effect_of a \<rparr>\<rparr>
     else b) as b"

lemma stop_live_Nil [simp]: "stop_live now [] b = b"
  by (simp add: stop_live_def)

lemma stop_live_idle [simp]: "\<not> attempt_live (a_status b) \<Longrightarrow> stop_live now as b = b"
  unfolding stop_live_def by (induction as) auto

lemma stop_live_Cons:
  "stop_live now (a # as) b = (if a_id b = a_id a \<and> attempt_live (a_status b)
     then b\<lparr>a_status := A_CANCELLED, a_completed := Some now,
            a_error := Some \<lparr> e_code = ''SIBLING_FAILED'', e_retryable = False, e_effect = effect_of a \<rparr>\<rparr>
     else stop_live now as b)"
proof -
  have "stop_live now (a # as) b = stop_live now as (if a_id b = a_id a \<and> attempt_live (a_status b)
     then b\<lparr>a_status := A_CANCELLED, a_completed := Some now,
            a_error := Some \<lparr> e_code = ''SIBLING_FAILED'', e_retryable = False, e_effect = effect_of a \<rparr>\<rparr>
     else b)" by (simp add: stop_live_def)
  then show ?thesis by simp
qed

lemma stop_live_keys [simp]:
  "a_id (stop_live now as b) = a_id b" "a_step (stop_live now as b) = a_step b"
  by (induction as) (simp_all add: stop_live_Cons)

lemma stop_live_status [simp]:
  "attempt_live (a_status (stop_live now as b)) \<longleftrightarrow> attempt_live (a_status b) \<and> a_id b \<notin> a_id ` set as"
  by (induction as) (auto simp: stop_live_Cons)

lemma fail_live_attempt [simp]:
  "db_runs (fail_live_attempt now a d) = db_runs d"
  "db_steps (fail_live_attempt now a d) = db_steps d"
  "db_timers (fail_live_attempt now a d) = db_timers d"
  "db_cases (fail_live_attempt now a d) = db_cases d"
  "db_approvals (fail_live_attempt now a d) = db_approvals d"
  "db_events (fail_live_attempt now a d) = db_events d"
  "db_audits (fail_live_attempt now a d) = db_audits d"
  "db_attempts (fail_live_attempt now a d) = map (stop_live now [a]) (db_attempts d)"
  "db_leases (fail_live_attempt now a d) = filter (\<lambda>l. l_attempt l \<noteq> a_id a) (db_leases d)"
  "db_stops (fail_live_attempt now a d) = db_stops d @ [\<lparr> x_id = db_next d, x_attempt = a_id a,
      x_reason = ''SIBLING_FAILED'', x_deadline = now + 10 * 1000000000, x_acked = None, x_confirmed = None \<rparr>]"
  by (simp_all add: fail_live_attempt_def upd_def stop_live_Cons) (simp add: insert_stop_def)

lemma stop_live_append: "stop_live now as (stop_live now [a] b) = stop_live now (a # as) b"
  by (simp add: stop_live_def)

lemma fail_live_attempts [simp]:
  "db_runs (fold (fail_live_attempt now) as d) = db_runs d"
  "db_steps (fold (fail_live_attempt now) as d) = db_steps d"
  "db_timers (fold (fail_live_attempt now) as d) = db_timers d"
  "db_cases (fold (fail_live_attempt now) as d) = db_cases d"
  "db_approvals (fold (fail_live_attempt now) as d) = db_approvals d"
  "db_events (fold (fail_live_attempt now) as d) = db_events d"
  "db_audits (fold (fail_live_attempt now) as d) = db_audits d"
  "db_attempts (fold (fail_live_attempt now) as d) = map (stop_live now as) (db_attempts d)"
  "db_leases (fold (fail_live_attempt now) as d) = filter (\<lambda>l. l_attempt l \<notin> a_id ` set as) (db_leases d)"
  by (induction as arbitrary: d) (simp_all add: map_idI stop_live_append conj_commute)

lemma fail_live_stops_keep:
  "x \<in> set (db_stops d) \<Longrightarrow> x \<in> set (db_stops (fold (fail_live_attempt now) as d))"
  by (induction as arbitrary: d) simp_all

lemma fail_live_stops:
  assumes "a \<in> set as"
  shows "\<exists>x \<in> set (db_stops (fold (fail_live_attempt now) as d)). x_attempt x = a_id a \<and>
     x_reason x = ''SIBLING_FAILED'' \<and> x_deadline x = now + 10 * 1000000000 \<and> x_acked x = None"
  using assms
proof (induction as arbitrary: d)
  case (Cons b as)
  show ?case
  proof (cases "a = b")
    case True
    have "last (db_stops (fail_live_attempt now b d)) \<in> set (db_stops (fold (fail_live_attempt now) (b # as) d))"
      by (simp add: fail_live_stops_keep)
    then show ?thesis by (rule bexI [rotated]) (simp add: True)
  qed (use Cons in simp)
qed simp

lemma history_fail_live [simp]: "history (fold (fail_live_attempt now) as d) = history d"
  by (simp add: history_def)

lemma step_ids_fail_live [simp]: "step_ids (fold (fail_live_attempt now) as d) = step_ids d"
  by (simp add: step_ids_def fun_eq_iff)


lemma appendRunEventD:
  assumes "appendRunEvent rid t d = Inr d'"
  shows "db_runs d' = upd (\<lambda>q. r_id q = rid) (\<lambda>q. q\<lparr>r_last_event := r_last_event q + 1\<rparr>) (db_runs d)"
    "db_steps d' = db_steps d" "db_attempts d' = db_attempts d" "db_leases d' = db_leases d"
    "db_timers d' = db_timers d" "db_cases d' = db_cases d" "db_approvals d' = db_approvals d"
    "db_stops d' = db_stops d" "db_audits d' = db_audits d" "db_next d' = db_next d"
    "step_ids d' = step_ids d"
    "find_run d' x = map_option (\<lambda>q. if r_id q = rid then q\<lparr>r_last_event := r_last_event q + 1\<rparr> else q) (find_run d x)"
    "\<exists>n. db_events d' = db_events d @ [\<lparr> v_run = rid, v_seq = n, v_type = t \<rparr>]"
    "\<exists>r. find_run d rid = Some r \<and> within_budget t (r_last_event r)"
  using assms unfolding appendRunEvent_Inr by (auto simp: step_ids_def find_run_def find_upd)

lemma find_step_append: "appendRunEvent rid t d = Inr d' \<Longrightarrow> find_step d' = find_step d"
  by (simp add: find_step_def fun_eq_iff appendRunEventD)

lemma closeOpenCasesTxD:
  assumes "closeOpenCasesTx rid actor res d = Inr d'"
  shows "db_cases d' = upd (\<lambda>c. c_step c \<in> set (step_ids d rid) \<and> c_status c = C_OPEN)
           (\<lambda>c. c\<lparr>c_status := C_RESOLVED, c_resolution := Some res, c_actor := actor,
                  c_revision := c_revision c + 1\<rparr>) (db_cases d)"
    "db_steps d' = db_steps d" "db_attempts d' = db_attempts d" "db_leases d' = db_leases d"
    "db_timers d' = db_timers d" "db_approvals d' = db_approvals d"
    "db_stops d' = db_stops d" "db_audits d' = db_audits d" "db_next d' = db_next d"
    "step_ids d' = step_ids d"
    "map_option (\<lambda>q. q\<lparr>r_last_event := 0\<rparr>) (find_run d' x) = map_option (\<lambda>q. q\<lparr>r_last_event := 0\<rparr>) (find_run d x)"
  using assms unfolding closeOpenCasesTx_def Let_def
  by (auto simp: appendRunEventD option.map_comp comp_def split: if_splits intro: map_option_cong)

lemma closeOpenCasesTx_history:
  "history_ok (history d) \<Longrightarrow> holds (\<lambda>d'. history_ok (history d')) (closeOpenCasesTx rid actor res d)"
  by (auto simp: closeOpenCasesTx_def Let_def holds_def intro: appendRunEvent_history)

lemma failRunForStepTx_history:
  "history_ok (history d) \<Longrightarrow> holds (\<lambda>d'. history_ok (history d')) (failRunForStepTx now rid sid code actor d)"
  unfolding failRunForStepTx_def Let_def
  by (rule holds_bind [OF closeOpenCasesTx_history])
    (auto simp: holds_def cancel_timers_def history_upd_runs intro: appendRunEvent_history)


lemma stepstates: "x \<in> set open_states \<longleftrightarrow> \<not> step_terminal x"
  by (cases x) (simp_all add: open_states_def)

lemma live_attempts_stopped:
  "db_attempts d' = map (stop_live now (live_attempts d rid)) (db_attempts d) \<Longrightarrow> step_ids d' = step_ids d \<Longrightarrow>
     live_attempts d' rid = []"
  by (auto simp: live_attempts_def filter_empty_conv)

lemma map_option_find_run_status:
  assumes "map_option (\<lambda>q. q\<lparr>r_last_event := 0\<rparr>) x = map_option (\<lambda>q. q\<lparr>r_last_event := 0\<rparr>) y"
    and "x = Some r"
  shows "\<exists>n. y = Some (r\<lparr>r_last_event := n\<rparr>)"
proof -
  obtain q where q: "y = Some q" "r\<lparr>r_last_event := 0\<rparr> = q\<lparr>r_last_event := 0\<rparr>"
    using assms by (cases y) simp_all
  then have "q = r\<lparr>r_last_event := r_last_event q\<rparr>" by (cases r, cases q) simp
  then show ?thesis using q(1) by blast
qed

lemma failRunForStepTxE:
  assumes "failRunForStepTx now rid sid code actor d = Inr d'"
  obtains d3 where "closeOpenCasesTx rid actor ''FAIL''
      (upd_steps (\<lambda>s. s_id s = sid) (\<lambda>s. s\<lparr>s_state := S_FAILED, s_wait := Some code\<rparr>)
        (fold (fail_live_attempt now) (live_attempts d rid) d)) = Inr d3"
    and "appendRunEvent rid ''RUN_FAILED'' (cancel_timers rid
      (upd_steps (\<lambda>s. s_run s = rid \<and> s_id s \<noteq> sid \<and> s_state s \<in> set open_states)
        (\<lambda>s. s\<lparr>s_state := S_CANCELLED, s_wait := None\<rparr>)
        (upd_runs (\<lambda>r. r_id r = rid) (\<lambda>r. r\<lparr>r_status := R_FAILED, r_reason := Some code\<rparr>) d3))) = Inr d'"
  using assms unfolding failRunForStepTx_def Let_def by (blast dest: holds_ebindD)

lemma find_run_Some_upd:
  "find_run d x = Some r \<Longrightarrow> (\<And>r. r_id (f r) = r_id r) \<Longrightarrow> find_run (upd_runs (\<lambda>r. r_id r = x) f d) x = Some (f r)"
  using find_run_id [of d x r] by (simp add: find_run_upd)

lemma failRunForStepTx_run:
  assumes "failRunForStepTx now rid sid code actor d = Inr d'"
  shows "\<exists>r'. find_run d' rid = Some r' \<and> r_status r' = R_FAILED \<and> r_reason r' = Some code"
    "\<exists>n es. db_events d' = es @ [\<lparr> v_run = rid, v_seq = n, v_type = ''RUN_FAILED'' \<rparr>]"
proof -
  obtain d3 where 1: "closeOpenCasesTx rid actor ''FAIL''
      (upd_steps (\<lambda>s. s_id s = sid) (\<lambda>s. s\<lparr>s_state := S_FAILED, s_wait := Some code\<rparr>)
        (fold (fail_live_attempt now) (live_attempts d rid) d)) = Inr d3"
    and 2: "appendRunEvent rid ''RUN_FAILED'' (cancel_timers rid
      (upd_steps (\<lambda>s. s_run s = rid \<and> s_id s \<noteq> sid \<and> s_state s \<in> set open_states)
        (\<lambda>s. s\<lparr>s_state := S_CANCELLED, s_wait := None\<rparr>)
        (upd_runs (\<lambda>r. r_id r = rid) (\<lambda>r. r\<lparr>r_status := R_FAILED, r_reason := Some code\<rparr>) d3))) = Inr d'"
    by (rule failRunForStepTxE [OF assms(1)])
  obtain r where "find_run d3 rid = Some r" "r_id r = rid"
    using appendRunEventD(14) [OF 2] find_run_id by (auto simp: cancel_timers_def find_run_upd)
  then show "\<exists>r'. find_run d' rid = Some r' \<and> r_status r' = R_FAILED \<and> r_reason r' = Some code"
    by (simp add: appendRunEventD(12) [OF 2] cancel_timers_def find_run_upd)
  show "\<exists>n es. db_events d' = es @ [\<lparr> v_run = rid, v_seq = n, v_type = ''RUN_FAILED'' \<rparr>]"
    using appendRunEventD(13) [OF 2] by blast
qed

text \<open>The state a failed run is left in, table by table.\<close>

lemma failRunForStepTxD:
  assumes "failRunForStepTx now rid sid code actor d = Inr d'"
  shows "db_steps d' = upd (\<lambda>s. s_run s = rid \<and> s_id s \<noteq> sid \<and> s_state s \<in> set open_states)
       (\<lambda>s. s\<lparr>s_state := S_CANCELLED, s_wait := None\<rparr>)
       (upd (\<lambda>s. s_id s = sid) (\<lambda>s. s\<lparr>s_state := S_FAILED, s_wait := Some code\<rparr>) (db_steps d))"
    "db_attempts d' = map (stop_live now (live_attempts d rid)) (db_attempts d)"
    "db_leases d' = filter (\<lambda>l. l_attempt l \<notin> a_id ` set (live_attempts d rid)) (db_leases d)"
    "db_timers d' = upd (\<lambda>t. t_run t = rid \<and> t_state t = T_PENDING) (\<lambda>t. t\<lparr>t_state := T_CANCELLED\<rparr>) (db_timers d)"
    "db_cases d' = upd (\<lambda>c. c_step c \<in> set (step_ids d rid) \<and> c_status c = C_OPEN)
           (\<lambda>c. c\<lparr>c_status := C_RESOLVED, c_resolution := Some ''FAIL'', c_actor := actor,
                  c_revision := c_revision c + 1\<rparr>) (db_cases d)"
    "db_approvals d' = db_approvals d" "step_ids d' = step_ids d" "db_audits d' = db_audits d"
    "db_stops d' = db_stops (fold (fail_live_attempt now) (live_attempts d rid) d)"
  by (rule failRunForStepTxE [OF assms];
    simp add: appendRunEventD(1-11) closeOpenCasesTxD cancel_timers_def step_ids_upd)+

lemma appendRunEvent_commits:
  "(\<exists>d'. appendRunEvent rid t d = Inr d') \<longleftrightarrow> (\<exists>r. find_run d rid = Some r \<and> within_budget t (r_last_event r))"
  by (auto simp: appendRunEvent_Inr)

lemma open_cases_cong:
  "db_cases d' = db_cases d \<Longrightarrow> step_ids d' = step_ids d \<Longrightarrow> open_cases d' rid = open_cases d rid"
  by (simp add: open_cases_def)

lemma upd_none: "(\<And>x. x \<in> set xs \<Longrightarrow> \<not> P x) \<Longrightarrow> upd P f xs = xs"
  by (simp add: upd_def map_idI)

lemma ball_upd: "(\<forall>x \<in> set (upd P f xs). Q x) \<longleftrightarrow> (\<forall>x \<in> set xs. if P x then Q (f x) else Q x)"
  by (auto simp: upd_def)

lemma appendRunEvent_commits_upd:
  "(\<And>r. r_id (f r) = r_id r \<and> r_last_event (f r) = r_last_event r) \<Longrightarrow>
     (\<exists>r. find_run (upd_runs P f d) x = Some r \<and> within_budget t (r_last_event r)) \<longleftrightarrow>
     (\<exists>r. find_run d x = Some r \<and> within_budget t (r_last_event r))"
  by (cases "find_run d x") (simp_all add: find_run_upd)

lemma ex_appended:
  "(\<exists>d3 r. appendRunEvent rid ''CASE_RESOLVED'' d = Inr d3 \<and> find_run d3 rid = Some r \<and>
      within_budget ''RUN_FAILED'' (r_last_event r)) \<longleftrightarrow>
   (\<exists>r. find_run d rid = Some r \<and> r_last_event r < maxRunEvents - 1)"
proof (cases "find_run d rid")
  case (Some r)
  then have "r_id r = rid" using find_run_id by blast
  then show ?thesis
  proof (cases "within_budget ''CASE_RESOLVED'' (r_last_event r)")
    case True
    then obtain d3 where d3: "appendRunEvent rid ''CASE_RESOLVED'' d = Inr d3"
      using Some appendRunEvent_commits by blast
    show ?thesis using True d3 Some \<open>r_id r = rid\<close>
      by (auto simp: appendRunEventD(12) [OF d3] within_budget_def terminal_event_def)
  qed (use Some in \<open>simp add: appendRunEvent_Inr within_budget_def terminal_event_def\<close>)
qed (simp add: appendRunEvent_Inr)

lemma closeOpenCasesTx_noop:
  "open_cases d rid = [] \<Longrightarrow> closeOpenCasesTx rid actor res d = Inr d"
  by (simp add: closeOpenCasesTx_def upd_cases_def open_cases_def filter_empty_conv upd_none)

section \<open>A sample state\<close>

text \<open>A run of four steps: one done, one executing on a worker, one waiting for a retry and one blocked.\<close>

definition sample_step :: "uid \<Rightarrow> string \<Rightarrow> StepStatus \<Rightarrow> step_row" where
  "sample_step sid node st = \<lparr> s_id = sid, s_run = 1, s_node = node, s_kind = ''task'', s_state = st, s_wait = None, s_epoch = 1,
     s_next_attempt = 2, s_eligible = None, s_output = None, s_valid_until = None, s_source = None \<rparr>"

definition sample_run :: run_row where
  "sample_run = \<lparr> r_id = 1, r_env = 1, r_deployment = 1, r_workflow = ''w'', r_status = R_RUNNING, r_reason = None,
     r_revision = 1, r_input = JObj [], r_output = None, r_deadline = None, r_last_event = 2, r_confirmed = None,
     r_pause_requested = False \<rparr>"

definition sample_attempt :: "uid \<Rightarrow> uid \<Rightarrow> AttemptStatus \<Rightarrow> attempt_row" where
  "sample_attempt aid sid st = \<lparr> a_id = aid, a_step = sid, a_number = 1, a_session = Some 5, a_epoch = 1, a_status = st,
     a_digest = None, a_error = None, a_started = Some 10, a_deadline = None, a_completed = None, a_created = 5,
     a_start_deadline = None, a_timeout_ms = 1000 \<rparr>"

definition sample_lease :: lease_row where
  "sample_lease = \<lparr> l_step = 11, l_attempt = 21, l_session = 5, l_epoch = 1, l_expires = 100 \<rparr>"

definition sample_timer :: timer_row where
  "sample_timer = \<lparr> t_id = 30, t_kind = ''RETRY_BACKOFF'', t_ref = 12, t_run = 1, t_step = 12, t_number = Some 2,
     t_reason = ''TASK_FAILED'', t_due = 500, t_state = T_PENDING \<rparr>"

definition sample_case :: case_row where
  "sample_case = \<lparr> c_id = 40, c_step = 11, c_attempt = Some 21, c_reason = ''AMBIGUOUS_EFFECT'', c_status = C_OPEN,
     c_resolution = None, c_actor = None, c_revision = 1 \<rparr>"

definition sample_db :: db where
  "sample_db = \<lparr> db_runs = [sample_run],
     db_steps = [(sample_step 10 ''a'' S_SUCCEEDED)\<lparr>s_output := Some (JObj [])\<rparr>, sample_step 11 ''b'' S_RUNNING,
       (sample_step 12 ''c'' S_WAITING)\<lparr>s_wait := Some ''RETRY_BACKOFF''\<rparr>, sample_step 13 ''d'' S_BLOCKED],
     db_attempts = [sample_attempt 20 10 A_SUCCEEDED, sample_attempt 21 11 A_RUNNING],
     db_leases = [sample_lease], db_timers = [sample_timer], db_cases = [sample_case], db_approvals = [], db_stops = [],
     db_events = [\<lparr> v_run = 1, v_seq = 1, v_type = ''RUN_CREATED'' \<rparr>, \<lparr> v_run = 1, v_seq = 2, v_type = ''STEP_SUCCEEDED'' \<rparr>],
     db_outbox = [], db_audits = [], db_next = 50 \<rparr>"

lemma failRunForStepTx_commits:
  "(\<exists>d'. failRunForStepTx now rid sid code actor d = Inr d') \<longleftrightarrow>
     (\<exists>r. find_run d rid = Some r \<and>
       (if open_cases d rid = [] then r_last_event r < maxRunEvents else r_last_event r < maxRunEvents - 1))"
proof -
  define d2 where "d2 = upd_steps (\<lambda>s. s_id s = sid) (\<lambda>s. s\<lparr>s_state := S_FAILED, s_wait := Some code\<rparr>)
        (fold (fail_live_attempt now) (live_attempts d rid) d)"
  have o: "open_cases d2 rid = open_cases d rid" and f: "find_run d2 = find_run d"
    by (simp_all add: open_cases_def d2_def step_ids_upd find_run_def fun_eq_iff)
  let ?c = "closeOpenCasesTx rid actor ''FAIL'' d2"
  have *: "(\<exists>d'. failRunForStepTx now rid sid code actor d = Inr d') \<longleftrightarrow>
      (\<exists>d3 r. ?c = Inr d3 \<and> find_run d3 rid = Some r \<and> within_budget ''RUN_FAILED'' (r_last_event r))"
    unfolding failRunForStepTx_def Let_def d2_def [symmetric]
    by (cases ?c) (simp_all add: appendRunEvent_commits cancel_timers_def appendRunEvent_commits_upd)
  show ?thesis
  proof (cases "open_cases d rid = []")
    case True
    then show ?thesis unfolding * by (auto simp: closeOpenCasesTx_noop o f within_budget_def terminal_event_def)
  next
    case False
    then have c: "?c = appendRunEvent rid ''CASE_RESOLVED'' (upd_cases (\<lambda>c. c_step c \<in> set (step_ids d2 rid) \<and> c_status c = C_OPEN)
                 (\<lambda>c. c\<lparr>c_status := C_RESOLVED, c_resolution := Some ''FAIL'', c_actor := actor,
                        c_revision := c_revision c + 1\<rparr>) d2)"
      using o by (simp add: closeOpenCasesTx_def Let_def)
    show ?thesis unfolding * c ex_appended using False
      by (simp add: f)
  qed
qed

section \<open>Properties\<close>

text \<open>C1: \<open>failRunForStepTx\<close> settles the whole run in its transaction: when it commits, the run is
  FAILED with the given reason and RUN_FAILED is its latest event; the step is FAILED and every other
  step of the run that was not terminal is CANCELLED, while the steps that were terminal and the
  steps of other runs are untouched; the run has no claimed or running attempt, no lease of one, no
  pending timer and no open reconciliation case left; and the worker of every attempt that was live
  has a stop request with a ten second deadline.\<close>

theorem failRunForStepTx_settles:
  assumes "failRunForStepTx now rid sid code actor d = Inr d'"
    and "find_step d sid = Some s" and "s_run s = rid"
  shows "(\<exists>r. find_run d' rid = Some r \<and> r_status r = R_FAILED \<and> r_reason r = Some code)
    \<and> (\<exists>n es. db_events d' = es @ [\<lparr> v_run = rid, v_seq = n, v_type = ''RUN_FAILED'' \<rparr>])
    \<and> (\<exists>s'. find_step d' sid = Some s' \<and> s_state s' = S_FAILED \<and> s_wait s' = Some code)
    \<and> steps_in d' rid open_states = []
    \<and> (\<forall>q \<in> set (db_steps d). s_id q \<noteq> sid \<longrightarrow> s_run q \<noteq> rid \<or> step_terminal (s_state q) \<longrightarrow> q \<in> set (db_steps d'))
    \<and> live_attempts d' rid = []
    \<and> (\<forall>l \<in> set (db_leases d'). \<forall>a \<in> set (live_attempts d rid). l_attempt l \<noteq> a_id a)
    \<and> pending_timers d' rid = [] \<and> open_cases d' rid = []
    \<and> (\<forall>a \<in> set (live_attempts d rid). \<exists>x \<in> set (db_stops d'). x_attempt x = a_id a \<and>
         x_reason x = ''SIBLING_FAILED'' \<and> x_deadline x = now + 10 * 1000000000)"
proof -
  note D = failRunForStepTxD [OF assms(1)]
  have "\<exists>s'. find_step d' sid = Some s' \<and> s_state s' = S_FAILED \<and> s_wait s' = Some code"
    using assms(2) find_step_id [OF assms(2)] unfolding find_step_def D(1) by (simp add: find_upd)
  moreover have "steps_in d' rid open_states = []"
    by (simp add: steps_in_def D filter_empty_conv ball_upd stepstates)
  moreover have "\<forall>q \<in> set (db_steps d). s_id q \<noteq> sid \<longrightarrow> s_run q \<noteq> rid \<or> step_terminal (s_state q) \<longrightarrow> q \<in> set (db_steps d')"
    by (force simp: D in_upd stepstates)
  moreover have "live_attempts d' rid = []" by (rule live_attempts_stopped) (rule D)+
  moreover have "pending_timers d' rid = []" "open_cases d' rid = []"
    by (simp_all add: pending_timers_def open_cases_def D filter_empty_conv ball_upd)
  moreover have "\<forall>a \<in> set (live_attempts d rid). \<exists>x \<in> set (db_stops d'). x_attempt x = a_id a \<and>
         x_reason x = ''SIBLING_FAILED'' \<and> x_deadline x = now + 10 * 1000000000"
    unfolding D by (blast dest: fail_live_stops [where now = now and d = d])
  moreover have "\<forall>l \<in> set (db_leases d'). \<forall>a \<in> set (live_attempts d rid). l_attempt l \<noteq> a_id a"
    by (auto simp: D)
  ultimately show ?thesis using failRunForStepTx_run [OF assms(1)] by simp
qed

theorem failRunForStepTx_settles_witness:
  "\<exists>d'. failRunForStepTx 1000 1 11 ''TASK_FAILED'' None sample_db = Inr d' \<and> length (live_attempts sample_db 1) = 1 \<and>
     live_attempts d' 1 = [] \<and> pending_timers d' 1 = [] \<and> open_cases d' 1 = []"
proof -
  have c: "case failRunForStepTx 1000 1 11 ''TASK_FAILED'' None sample_db of Inl _ \<Rightarrow> False | Inr _ \<Rightarrow> True"
    "case find_step sample_db 11 of None \<Rightarrow> False | Some s \<Rightarrow> s_run s = 1" "length (live_attempts sample_db 1) = 1"
    by code_simp+
  obtain d' s where "failRunForStepTx 1000 1 11 ''TASK_FAILED'' None sample_db = Inr d'"
    "find_step sample_db 11 = Some s" "s_run s = 1"
    using c(1,2) by (auto split: sum.splits option.splits)
  from failRunForStepTx_settles [OF this] c(3) this(1) show ?thesis by blast
qed

text \<open>C21: The event budget decides whether a run can be failed: the transaction commits exactly when the
  run has room for the events it appends.  The slot reserved for a terminal event (number 10000) is
  enough when no case is open, but with an open case the transaction needs the non-terminal
  CASE_RESOLVED event as well, so a run with 9999 events and an open case cannot be failed.\<close>

theorem failRunForStepTx_commits_iff:
  "(\<exists>d'. failRunForStepTx now rid sid code actor d = Inr d') \<longleftrightarrow>
     (\<exists>r. find_run d rid = Some r \<and>
       (if open_cases d rid = [] then r_last_event r < maxRunEvents else r_last_event r < maxRunEvents - 1))"
  by (rule failRunForStepTx_commits)

end
