(* ===== verification/Run_Invariant.thy ===== *)
theory Run_Invariant
  imports Run_Store
begin

text \<open>
  What every transaction of the engine keeps (\<open>src/internal/execution\<close>): \<open>inv\<close>, the well-formedness of
  the stored state, and \<open>extends\<close>, the facts a later state never takes back.  \<open>step_ok\<close> combines
  them; the rules of \<open>step_ok_intros\<close> prove it statement by statement.
\<close>

named_theorems step_ok_intros

section \<open>Rows over time\<close>

text \<open>A terminal run or step never reopens and keeps its status, except that a step cancelled with its run
  may still be marked as the one that failed; a step's epoch and its next attempt number never go back;
  a step's output is fixed once it is terminal and its
  idempotency deadline once it is set; a settled timer stays so; an attempt that has ended and a
  resolved case keep every field.\<close>

definition run_le :: "run_row \<Rightarrow> run_row \<Rightarrow> bool" where
  "run_le r r' \<longleftrightarrow> r_id r' = r_id r \<and> r_env r' = r_env r \<and> r_deployment r' = r_deployment r \<and>
     r_workflow r' = r_workflow r \<and> r_input r' = r_input r \<and> (run_terminal (r_status r) \<longrightarrow> r_status r' = r_status r)"

definition step_le :: "step_row \<Rightarrow> step_row \<Rightarrow> bool" where
  "step_le s s' \<longleftrightarrow> s_id s' = s_id s \<and> s_run s' = s_run s \<and> s_node s' = s_node s \<and> s_kind s' = s_kind s \<and>
     s_epoch s \<le> s_epoch s' \<and> s_next_attempt s \<le> s_next_attempt s' \<and>
     (step_terminal (s_state s) \<longrightarrow> s_output s' = s_output s \<and>
        (s_state s' = s_state s \<or> s_state s = S_CANCELLED \<and> s_state s' = S_FAILED)) \<and>
     (s_valid_until s \<noteq> None \<longrightarrow> s_valid_until s' = s_valid_until s)"

text \<open>The columns that a change of state leaves alone.\<close>

abbreviation same_step :: "step_row \<Rightarrow> step_row \<Rightarrow> bool" where
  "same_step s' s \<equiv> s_id s' = s_id s \<and> s_run s' = s_run s \<and> s_node s' = s_node s \<and> s_kind s' = s_kind s \<and>
     s_valid_until s' = s_valid_until s \<and> s_epoch s' = s_epoch s \<and> s_next_attempt s' = s_next_attempt s"

definition attempt_le :: "attempt_row \<Rightarrow> attempt_row \<Rightarrow> bool" where
  "attempt_le a a' \<longleftrightarrow> a_id a' = a_id a \<and> a_step a' = a_step a \<and> a_number a' = a_number a \<and>
     a_epoch a' = a_epoch a \<and> a_session a' = a_session a \<and> a_created a' = a_created a \<and> (\<not> attempt_live (a_status a) \<longrightarrow> a' = a)"

definition timer_le :: "timer_row \<Rightarrow> timer_row \<Rightarrow> bool" where
  "timer_le t t' \<longleftrightarrow> t_id t' = t_id t \<and> t_kind t' = t_kind t \<and> t_ref t' = t_ref t \<and> t_run t' = t_run t \<and> t_due t' = t_due t \<and>
     (t_state t \<noteq> T_PENDING \<longrightarrow> t_state t' = t_state t)"

definition case_le :: "case_row \<Rightarrow> case_row \<Rightarrow> bool" where
  "case_le c c' \<longleftrightarrow> c_id c' = c_id c \<and> c_step c' = c_step c \<and> (c_status c = C_RESOLVED \<longrightarrow> c' = c)"

lemmas row_le_defs = run_le_def step_le_def attempt_le_def timer_le_def case_le_def

definition grows :: "('a \<Rightarrow> 'a \<Rightarrow> bool) \<Rightarrow> 'a list \<Rightarrow> 'a list \<Rightarrow> bool" where
  "grows R xs ys \<longleftrightarrow> (\<exists>zs ws. ys = zs @ ws \<and> list_all2 R xs zs)"

lemma grows_refl: "(\<And>x. R x x) \<Longrightarrow> grows R xs xs"
  unfolding grows_def by (rule exI [of _ xs], rule exI [of _ "[]"]) (simp add: list_all2_refl)

lemma grows_trans:
  assumes "\<And>x y z. R x y \<Longrightarrow> R y z \<Longrightarrow> R x z" and "grows R xs ys" and "grows R ys zs"
  shows "grows R xs zs"
proof -
  obtain a b where ab: "ys = a @ b" "list_all2 R xs a" using assms(2) unfolding grows_def by blast
  obtain c e where ce: "zs = c @ e" "list_all2 R (a @ b) c" using assms(3) ab unfolding grows_def by blast
  obtain c1 c2 where c: "c = c1 @ c2" "list_all2 R a c1" using ce(2) by (auto simp: list_all2_append1)
  have "list_all2 R xs c1" by (rule list_all2_trans [OF _ ab(2) c(2)]) (rule assms(1))
  then show ?thesis unfolding grows_def ce(1) c(1) by (metis append.assoc)
qed

lemma grows_append: "(\<And>x. R x x) \<Longrightarrow> grows R xs (xs @ ys)"
  unfolding grows_def by (blast intro: list_all2_refl)

lemma grows_upd:
  "(\<And>x. R x x) \<Longrightarrow> (\<And>x. x \<in> set xs \<Longrightarrow> P x \<Longrightarrow> R x (f x)) \<Longrightarrow> grows R xs (upd P f xs)"
  unfolding grows_def upd_def
  by (rule exI, rule exI [of _ "[]"]) (auto simp: list_all2_map2 intro!: list.rel_refl_strong)

lemma growsD:
  assumes "grows R xs ys" and "x \<in> set xs"
  shows "\<exists>y \<in> set ys. R x y"
  proof -
  obtain zs ws where "ys = zs @ ws" "list_all2 R xs zs" using assms(1) unfolding grows_def by blast
  moreover obtain i where "i < length xs" "x = xs ! i" using assms(2) by (auto simp: in_set_conv_nth)
  ultimately show ?thesis by (intro bexI [of _ "zs ! i"]) (auto simp: list_all2_conv_all_nth)
qed


section \<open>Invariant and preorder\<close>

definition pending_key :: "timer_row \<Rightarrow> string \<times> uid" where
  "pending_key t = (t_kind t, t_ref t)"

definition timers_unique :: "timer_row list \<Rightarrow> bool" where
  "timers_unique ts \<longleftrightarrow> distinct (map pending_key (filter (\<lambda>t. t_state t = T_PENDING) ts))"

definition ids_ok :: "uid \<Rightarrow> uid list \<Rightarrow> bool" where
  "ids_ok next ids \<longleftrightarrow> distinct ids \<and> (\<forall>i \<in> set ids. i < next)"

text \<open>Ownership.  The attempts of a step have distinct numbers, below the next one, and distinct epochs, at
  most that of the step; a live attempt has the step's own epoch, and its step is not one a worker
  could be offered or that waits.  A lease belongs to a live attempt.\<close>

definition idle :: "StepStatus \<Rightarrow> bool" where
  "idle st \<longleftrightarrow> st \<in> {S_BLOCKED, S_READY, S_WAITING}"

lemma idle_simps [simp]:
  "idle S_BLOCKED" "idle S_READY" "idle S_WAITING" "\<not> idle S_RUNNING" "\<not> idle S_SUCCEEDED" "\<not> idle S_SKIPPED"
  "\<not> idle S_FAILED" "\<not> idle S_CANCELLED"
  by (simp_all add: idle_def)

definition fence :: "step_row \<Rightarrow> attempt_row \<Rightarrow> bool" where
  "fence s a \<longleftrightarrow> a_number a < s_next_attempt s \<and> a_epoch a \<le> s_epoch s \<and>
     (attempt_live (a_status a) \<longrightarrow> a_epoch a = s_epoch s \<and> \<not> idle (s_state s))"

definition fenced :: "step_row list \<Rightarrow> attempt_row list \<Rightarrow> bool" where
  "fenced ss as \<longleftrightarrow> distinct (map (\<lambda>a. (a_step a, a_number a)) as) \<and> distinct (map (\<lambda>a. (a_step a, a_epoch a)) as) \<and>
     (\<forall>a \<in> set as. a_step a \<in> set (map s_id ss)) \<and> (\<forall>a \<in> set as. \<forall>s \<in> set ss. s_id s = a_step a \<longrightarrow> fence s a)"

definition lease_of :: "lease_row \<Rightarrow> attempt_row \<Rightarrow> bool" where
  "lease_of l a \<longleftrightarrow> a_id a = l_attempt l \<and> a_step a = l_step l \<and> a_epoch a = l_epoch l \<and> a_session a = Some (l_session l) \<and>
     attempt_live (a_status a)"

definition leased :: "attempt_row list \<Rightarrow> lease_row list \<Rightarrow> bool" where
  "leased as ls \<longleftrightarrow> distinct (map l_step ls) \<and> (\<forall>l \<in> set ls. \<exists>a \<in> set as. lease_of l a)"

text \<open>A well-formed history for every run; identifiers are distinct in each table and below the
  counter, as are the run ids of events and steps; at most one pending timer per kind and step; and
  the ownership of work.\<close>

definition inv :: "db \<Rightarrow> bool" where
  "inv d \<longleftrightarrow> history_ok (history d) \<and> ids_ok (db_next d) (map r_id (db_runs d)) \<and> ids_ok (db_next d) (map s_id (db_steps d)) \<and>
     ids_ok (db_next d) (map a_id (db_attempts d)) \<and> ids_ok (db_next d) (map t_id (db_timers d)) \<and>
     ids_ok (db_next d) (map c_id (db_cases d)) \<and> timers_unique (db_timers d) \<and>
     (\<forall>e \<in> set (db_events d). v_run e < db_next d) \<and> (\<forall>s \<in> set (db_steps d). s_run s < db_next d) \<and>
     fenced (db_steps d) (db_attempts d) \<and> leased (db_attempts d) (db_leases d)"

definition extends :: "db \<Rightarrow> db \<Rightarrow> bool" where
  "extends d d' \<longleftrightarrow> grows run_le (db_runs d) (db_runs d') \<and> grows step_le (db_steps d) (db_steps d') \<and>
     grows attempt_le (db_attempts d) (db_attempts d') \<and> grows timer_le (db_timers d) (db_timers d') \<and>
     grows case_le (db_cases d) (db_cases d') \<and> (\<exists>es. db_events d' = db_events d @ es)"

definition step_ok :: "db \<Rightarrow> db \<Rightarrow> bool" where
  "step_ok d d' \<longleftrightarrow> (inv d \<longrightarrow> inv d' \<and> extends d d')"

lemma extends_refl: "extends d d"
  by (auto simp: extends_def row_le_defs intro!: grows_refl)

lemma row_le_trans:
  "run_le r1 r2 \<Longrightarrow> run_le r2 r3 \<Longrightarrow> run_le r1 r3"
  "step_le s1 s2 \<Longrightarrow> step_le s2 s3 \<Longrightarrow> step_le s1 s3"
  "timer_le t1 t2 \<Longrightarrow> timer_le t2 t3 \<Longrightarrow> timer_le t1 t3"
  by (auto simp: row_le_defs)

lemma attempt_le_trans: "attempt_le a1 a2 \<Longrightarrow> attempt_le a2 a3 \<Longrightarrow> attempt_le a1 a3"
  unfolding attempt_le_def by metis

lemma case_le_trans: "case_le c1 c2 \<Longrightarrow> case_le c2 c3 \<Longrightarrow> case_le c1 c3"
  unfolding case_le_def by metis

lemma extends_trans:
  assumes "extends a b" and "extends b c"
  shows "extends a c"
  unfolding extends_def
proof (intro conjI)
  show "grows run_le (db_runs a) (db_runs c)"
    by (rule grows_trans [where ys = "db_runs b"], erule (1) row_le_trans) (use assms in \<open>simp_all add: extends_def\<close>)
  show "grows step_le (db_steps a) (db_steps c)"
    by (rule grows_trans [where ys = "db_steps b"], erule (1) row_le_trans) (use assms in \<open>simp_all add: extends_def\<close>)
  show "grows attempt_le (db_attempts a) (db_attempts c)"
    by (rule grows_trans [where ys = "db_attempts b"], erule (1) attempt_le_trans) (use assms in \<open>simp_all add: extends_def\<close>)
  show "grows timer_le (db_timers a) (db_timers c)"
    by (rule grows_trans [where ys = "db_timers b"], erule (1) row_le_trans) (use assms in \<open>simp_all add: extends_def\<close>)
  show "grows case_le (db_cases a) (db_cases c)"
    by (rule grows_trans [where ys = "db_cases b"], erule (1) case_le_trans) (use assms in \<open>simp_all add: extends_def\<close>)
  show "\<exists>es. db_events c = db_events a @ es" using assms by (auto simp: extends_def)
qed

lemma step_ok_refl [step_ok_intros, simp]: "step_ok d d"
  by (simp add: step_ok_def extends_refl)

lemma step_ok_trans: "step_ok a b \<Longrightarrow> step_ok b c \<Longrightarrow> step_ok a c"
  unfolding step_ok_def by (blast intro: extends_trans)


text \<open>A statement that is safe where the invariant holds can follow any safe sequence.\<close>

lemma step_okI:
  "step_ok d x \<Longrightarrow> (inv x \<Longrightarrow> inv d' \<and> extends x d') \<Longrightarrow> step_ok d d'"
  unfolding step_ok_def by (blast intro: extends_trans)

section \<open>One rule per statement\<close>

lemma row_le_refl [simp, intro!]: "run_le r r" "step_le s s" "attempt_le a a" "timer_le t t" "case_le c c"
  by (simp_all add: row_le_defs)

lemma ids_upd: "(\<And>x. x \<in> set xs \<Longrightarrow> P x \<Longrightarrow> k (f x) = k x) \<Longrightarrow> map k (upd P f xs) = map k xs"
  by (auto simp: upd_def)

lemma history_upd_runs':
  "(\<And>r. r \<in> set (db_runs d) \<Longrightarrow> P r \<Longrightarrow> r_id (f r) = r_id r \<and> r_last_event (f r) = r_last_event r) \<Longrightarrow>
     history (upd_runs P f d) = history d"
  by (auto simp: history_def upd_def)

lemma timers_unique_upd:
  assumes "timers_unique ts" and "\<And>t. t \<in> set ts \<Longrightarrow> P t \<Longrightarrow> timer_le t (f t)"
  shows "timers_unique (upd P f ts)"
  using assms
proof (induction ts)
  case (Cons t ts)
  have sub: "set (map pending_key (filter (\<lambda>t. t_state t = T_PENDING) (upd P f ts))) \<subseteq>
      set (map pending_key (filter (\<lambda>t. t_state t = T_PENDING) ts))"
    using Cons.prems(2) by (fastforce simp: upd_def timer_le_def pending_key_def)
  have le: "timer_le t (if P t then f t else t)" using Cons.prems(2) by simp
  have IH: "timers_unique (upd P f ts)" using Cons by (auto simp: timers_unique_def split: if_splits)
  show ?case
    using Cons.prems(1) IH sub le by (auto simp: timers_unique_def upd_def timer_le_def pending_key_def split: if_splits)
qed (simp add: timers_unique_def upd_def)

lemma step_ok_upd_runs [step_ok_intros]:
  assumes "step_ok d x"
    and "\<And>r. inv x \<Longrightarrow> r \<in> set (db_runs x) \<Longrightarrow> P r \<Longrightarrow> run_le r (f r) \<and> r_last_event (f r) = r_last_event r"
  shows "step_ok d (upd_runs P f x)"
proof (rule step_okI [OF assms(1)])
  assume i: "inv x"
  have le: "run_le r (f r)" "r_last_event (f r) = r_last_event r" "r_id (f r) = r_id r" if "r \<in> set (db_runs x)" "P r" for r
    using assms(2) [OF i that] by (simp_all add: run_le_def)
  have "history (upd_runs P f x) = history x" using le by (intro history_upd_runs') simp
  then show "inv (upd_runs P f x) \<and> extends x (upd_runs P f x)"
    using i le by (simp add: inv_def extends_def ids_upd grows_upd grows_refl)
qed

text \<open>A step none of whose attempts is live.\<close>

definition no_live :: "db \<Rightarrow> uid \<Rightarrow> bool" where
  "no_live d sid \<longleftrightarrow> (\<forall>a \<in> set (db_attempts d). a_step a = sid \<longrightarrow> \<not> attempt_live (a_status a))"

lemma fenced_upd_steps:
  assumes "fenced ss as" and "\<And>s. s \<in> set ss \<Longrightarrow> P s \<Longrightarrow> s_id (f s) = s_id s"
    and "\<And>s a. s \<in> set ss \<Longrightarrow> P s \<Longrightarrow> a \<in> set as \<Longrightarrow> a_step a = s_id s \<Longrightarrow> fence s a \<Longrightarrow> fence (f s) a"
  shows "fenced (upd P f ss) as"
  using assms unfolding fenced_def by (auto simp: ids_upd ball_upd)

lemma step_ok_upd_steps [step_ok_intros]:
  assumes "step_ok d x" and "\<And>s. inv x \<Longrightarrow> s \<in> set (db_steps x) \<Longrightarrow> P s \<Longrightarrow>
      step_le s (f s) \<and> s_epoch (f s) = s_epoch s \<and> (idle (s_state (f s)) \<longrightarrow> idle (s_state s) \<or> no_live x (s_id s))"
  shows "step_ok d (upd_steps P f x)"
proof (rule step_okI [OF assms(1)])
  assume i: "inv x"
  have le: "step_le s (f s)" "s_epoch (f s) = s_epoch s" "idle (s_state (f s)) \<Longrightarrow> idle (s_state s) \<or> no_live x (s_id s)" "s_id (f s) = s_id s"
    "s_run (f s) = s_run s" "s_next_attempt s \<le> s_next_attempt (f s)" if "s \<in> set (db_steps x)" "P s" for s
    using assms(2) [OF i that] by (simp_all add: step_le_def)
  have "fenced (upd P f (db_steps x)) (db_attempts x)"
    using i le by (intro fenced_upd_steps) (auto simp: inv_def fence_def no_live_def intro: less_le_trans)
  then show "inv (upd_steps P f x) \<and> extends x (upd_steps P f x)"
    using i le by (simp add: inv_def extends_def ids_upd grows_upd grows_refl ball_upd)
qed

lemma fenced_upd_attempts:
  assumes "fenced ss as" and "\<And>a. a \<in> set as \<Longrightarrow> P a \<Longrightarrow> attempt_le a (f a)"
  shows "fenced ss (upd P f as)"
proof -
  have k: "a_step (f a) = a_step a" "a_number (f a) = a_number a" "a_epoch (f a) = a_epoch a"
    "attempt_live (a_status (f a)) \<Longrightarrow> attempt_live (a_status a)" if "a \<in> set as" "P a" for a
    using assms(2) [OF that] by (auto simp: attempt_le_def)
  have "map (\<lambda>a. (a_step a, a_number a)) (upd P f as) = map (\<lambda>a. (a_step a, a_number a)) as"
    "map (\<lambda>a. (a_step a, a_epoch a)) (upd P f as) = map (\<lambda>a. (a_step a, a_epoch a)) as"
    by (rule ids_upd, simp add: k)+
  then show ?thesis
    using assms(1) k unfolding fenced_def ball_upd by (auto simp: fence_def)
qed

lemma leased_upd_attempts:
  assumes "leased as ls" and "distinct (map a_id as)" and "\<And>a. a \<in> set as \<Longrightarrow> P a \<Longrightarrow> attempt_le a (f a)"
    and "\<And>a l. a \<in> set as \<Longrightarrow> P a \<Longrightarrow> l \<in> set ls \<Longrightarrow> lease_of l a \<Longrightarrow> \<not> Q l \<Longrightarrow> attempt_live (a_status (f a))"
  shows "leased (upd P f as) (filter (\<lambda>l. \<not> Q l) ls)"
  unfolding leased_def
proof (intro conjI ballI)
  show "distinct (map l_step (filter (\<lambda>l. \<not> Q l) ls))" using assms(1) by (simp add: leased_def distinct_map_filter)
  fix l assume l: "l \<in> set (filter (\<lambda>l. \<not> Q l) ls)"
  then obtain a where a: "a \<in> set as" "lease_of l a" using assms(1) by (auto simp: leased_def)
  have "lease_of l (if P a then f a else a)"
    using assms(3) [OF a(1)] assms(4) [OF a(1) _ _ a(2)] a(2) l by (auto simp: lease_of_def attempt_le_def)
  then show "\<exists>b \<in> set (upd P f as). lease_of l b" using a(1) by (cases "P a") (auto simp: upd_def)
qed

text \<open>Attempts end together with their leases.\<close>

lemma step_ok_end_attempts:
  assumes "step_ok d x" and "\<And>a. inv x \<Longrightarrow> a \<in> set (db_attempts x) \<Longrightarrow> P a \<Longrightarrow> attempt_le a (f a)"
    and "\<And>a l. inv x \<Longrightarrow> a \<in> set (db_attempts x) \<Longrightarrow> P a \<Longrightarrow> l \<in> set (db_leases x) \<Longrightarrow> lease_of l a \<Longrightarrow> \<not> Q l \<Longrightarrow>
      attempt_live (a_status (f a))"
  shows "step_ok d (delete_leases Q (upd_attempts P f x))"
proof (rule step_okI [OF assms(1)])
  assume i: "inv x"
  have le: "attempt_le a (f a)" "a_id (f a) = a_id a" if "a \<in> set (db_attempts x)" "P a" for a
    using assms(2) [OF i that] by (simp_all add: attempt_le_def)
  have "leased (upd P f (db_attempts x)) (filter (\<lambda>l. \<not> Q l) (db_leases x))"
    by (rule leased_upd_attempts) (use i le assms(3) [OF i] in \<open>simp_all add: inv_def ids_ok_def\<close>)
  then show "inv (delete_leases Q (upd_attempts P f x)) \<and> extends x (delete_leases Q (upd_attempts P f x))"
    using i le by (simp add: inv_def extends_def ids_upd grows_upd grows_refl fenced_upd_attempts)
qed

lemma step_ok_upd_attempts:
  assumes "step_ok d x" and "\<And>a. inv x \<Longrightarrow> a \<in> set (db_attempts x) \<Longrightarrow> P a \<Longrightarrow>
      attempt_le a (f a) \<and> (attempt_live (a_status a) \<longrightarrow> attempt_live (a_status (f a)))"
  shows "step_ok d (upd_attempts P f x)"
proof -
  have "step_ok d (delete_leases (\<lambda>_. False) (upd_attempts P f x))"
    by (rule step_ok_end_attempts [OF assms(1)]) (use assms(2) in \<open>auto simp: lease_of_def\<close>)
  then show ?thesis by (simp add: delete_leases_def upd_attempts_def)
qed

lemma step_ok_upd_timers [step_ok_intros]:
  assumes "step_ok d x" and "\<And>t. inv x \<Longrightarrow> t \<in> set (db_timers x) \<Longrightarrow> P t \<Longrightarrow> timer_le t (f t)"
  shows "step_ok d (upd_timers P f x)"
proof (rule step_okI [OF assms(1)])
  assume i: "inv x"
  have le: "timer_le t (f t)" "t_id (f t) = t_id t" if "t \<in> set (db_timers x)" "P t" for t
    using assms(2) [OF i that] by (simp_all add: timer_le_def)
  show "inv (upd_timers P f x) \<and> extends x (upd_timers P f x)"
    using i le by (simp add: inv_def extends_def ids_upd grows_upd grows_refl timers_unique_upd)
qed

lemma step_ok_upd_cases [step_ok_intros]:
  assumes "step_ok d x" and "\<And>c. inv x \<Longrightarrow> c \<in> set (db_cases x) \<Longrightarrow> P c \<Longrightarrow> case_le c (f c)"
  shows "step_ok d (upd_cases P f x)"
proof (rule step_okI [OF assms(1)])
  assume i: "inv x"
  have le: "case_le c (f c)" "c_id (f c) = c_id c" if "c \<in> set (db_cases x)" "P c" for c
    using assms(2) [OF i that] by (simp_all add: case_le_def)
  show "inv (upd_cases P f x) \<and> extends x (upd_cases P f x)"
    using i le by (simp add: inv_def extends_def ids_upd grows_upd grows_refl)
qed

lemma step_ok_same:
  assumes "step_ok d x" and "history x' = history x" and "db_runs x' = db_runs x" "db_steps x' = db_steps x"
    and "db_attempts x' = db_attempts x" "db_timers x' = db_timers x" "db_cases x' = db_cases x" "db_events x' = db_events x"
    and "db_next x \<le> db_next x'" and "leased (db_attempts x) (db_leases x) \<Longrightarrow> leased (db_attempts x) (db_leases x')"
  shows "step_ok d x'"
  using assms(1) by (rule step_okI) (use assms(2-) in \<open>auto simp: inv_def extends_def ids_ok_def grows_refl dest: less_le_trans\<close>)

lemma leased_filter: "leased as ls \<Longrightarrow> leased as (filter P ls)"
  by (auto simp: leased_def distinct_map_filter)

lemma insert_stop_next [simp]: "db_next (insert_stop a r t d) = db_next d + 1"
  by (simp add: insert_stop_def)

lemma step_ok_others [step_ok_intros]:
  assumes "step_ok d x"
  shows "step_ok d (upd_approvals P f x)" "step_ok d (delete_leases Q x)" "step_ok d (insert_stop a r t x)"
    "step_ok d (audit b u x)"
  by (rule step_ok_same [OF assms]; simp add: leased_filter)+

text \<open>New rows take the next identifier.\<close>

lemma ids_ok_Suc: "ids_ok n ids \<Longrightarrow> ids_ok (Suc n) ids"
  by (auto simp: ids_ok_def)

lemma ids_ok_append: "ids_ok n ids \<Longrightarrow> ids_ok (Suc n) (ids @ [n])"
  by (auto simp: ids_ok_def)

lemma step_ok_new_case [step_ok_intros]:
  assumes "step_ok d x" and "c_id c = db_next x"
  shows "step_ok d (x\<lparr>db_cases := db_cases x @ [c], db_next := Suc (db_next x)\<rparr>)"
  using assms(1) by (rule step_okI)
    (use assms(2) in \<open>auto simp: inv_def extends_def history_def grows_refl grows_append ids_ok_Suc ids_ok_append less_SucI\<close>)

lemma step_ok_new_timer [step_ok_intros]:
  assumes "step_ok d x" and "t_id t = db_next x"
    and "\<And>u. u \<in> set (db_timers x) \<Longrightarrow> t_state u = T_PENDING \<Longrightarrow> pending_key u \<noteq> pending_key t"
  shows "step_ok d (x\<lparr>db_timers := db_timers x @ [t], db_next := Suc (db_next x)\<rparr>)"
proof (rule step_okI [OF assms(1)])
  assume i: "inv x"
  then have "timers_unique (db_timers x @ [t])" using assms(3) by (fastforce simp: inv_def timers_unique_def)
  then show "inv (x\<lparr>db_timers := db_timers x @ [t], db_next := Suc (db_next x)\<rparr>) \<and>
      extends x (x\<lparr>db_timers := db_timers x @ [t], db_next := Suc (db_next x)\<rparr>)"
    using i assms(2) by (simp add: inv_def extends_def history_def grows_refl grows_append ids_ok_Suc ids_ok_append less_SucI)
qed

section \<open>Events and settlement\<close>

lemma step_ok_appendRunEvent [step_ok_intros]:
  assumes "step_ok d x"
  shows "holds (step_ok d) (appendRunEvent rid t x)"
  unfolding holds_def
proof (intro allI impI)
  fix d' assume a: "appendRunEvent rid t x = Inr d'"
  note A = appendRunEventD [OF a]
  show "step_ok d d'"
  proof (rule step_okI [OF assms])
    assume i: "inv x"
    have "history_ok (history d')" using appendRunEvent_history [OF a] i by (simp add: inv_def)
    moreover have "grows run_le (db_runs x) (db_runs d')"
      unfolding A(1) by (rule grows_upd) (simp_all add: run_le_def)
    moreover have "map r_id (db_runs d') = map r_id (db_runs x)" unfolding A(1) by (rule ids_upd) simp
    moreover have "rid < db_next x"
      using i A(14) find_run_id [of x rid] by (fastforce simp: inv_def ids_ok_def)
    ultimately show "inv d' \<and> extends x d'"
      using i A(13) unfolding inv_def extends_def A(2-10) by (auto simp: grows_refl)
  qed
qed

lemma step_ok_bind [step_ok_intros]:
  "holds (step_ok d) t \<Longrightarrow> (\<And>x. step_ok d x \<Longrightarrow> holds (step_ok d) (k x)) \<Longrightarrow> holds (step_ok d) (ebind t k)"
  by (rule holds_bind)

text \<open>The same for transactions that return a value beside the state.\<close>

definition returns_ok :: "db \<Rightarrow> ('a \<times> db) tx \<Rightarrow> bool" where
  "returns_ok d t \<longleftrightarrow> holds (\<lambda>p. step_ok d (snd p)) t"

lemma returns_ok_simps [simp]:
  "returns_ok d (Inr (v, x)) \<longleftrightarrow> step_ok d x" "returns_ok d (Inl e)"
  by (simp_all add: returns_ok_def)

lemma returns_ok_bind [step_ok_intros]:
  "holds (step_ok d) t \<Longrightarrow> (\<And>x. step_ok d x \<Longrightarrow> returns_ok d (k x)) \<Longrightarrow> returns_ok d (ebind t k)"
  unfolding returns_ok_def by (rule holds_bind)

lemma returns_ok_bind2:
  "returns_ok d t \<Longrightarrow> (\<And>v x. step_ok d x \<Longrightarrow> returns_ok d (k (v, x))) \<Longrightarrow> returns_ok d (ebind t k)"
  unfolding returns_ok_def by (erule holds_bind) (metis prod.collapse)

lemma step_ok_bind2:
  "returns_ok d t \<Longrightarrow> (\<And>v x. step_ok d x \<Longrightarrow> holds (step_ok d) (k (v, x))) \<Longrightarrow> holds (step_ok d) (ebind t k)"
  unfolding returns_ok_def by (erule holds_bind) (metis prod.collapse)

lemma bind_get [simp]:
  "ebind (get_run d rid) k = (case find_run d rid of None \<Rightarrow> Inl ErrNoRows | Some r \<Rightarrow> k r)"
  "ebind (get_step d sid) k' = (case find_step d sid of None \<Rightarrow> Inl ErrNoRows | Some s \<Rightarrow> k' s)"
  by (simp_all add: get_run_def get_step_def split: option.split)

lemma step_ok_closeOpenCasesTx [step_ok_intros]:
  "step_ok d x \<Longrightarrow> holds (step_ok d) (closeOpenCasesTx rid actor res x)"
  unfolding closeOpenCasesTx_def Let_def
  by (auto intro!: step_ok_intros simp: case_le_def)

lemma step_ok_fail_live [step_ok_intros]:
  "step_ok d x \<Longrightarrow> step_ok d (fold (fail_live_attempt now) as x)"
  by (rule holds_fold) (auto simp: fail_live_attempt_def attempt_le_def lease_of_def intro!: step_ok_others(3) step_ok_end_attempts)

text \<open>What a run (a step) with a given id is not.\<close>

definition run_at :: "(RunStatus \<Rightarrow> bool) \<Rightarrow> db \<Rightarrow> uid \<Rightarrow> bool" where
  "run_at Q d rid \<longleftrightarrow> (\<forall>r \<in> set (db_runs d). r_id r = rid \<longrightarrow> Q (r_status r))"

definition step_at :: "(StepStatus \<Rightarrow> bool) \<Rightarrow> db \<Rightarrow> uid \<Rightarrow> bool" where
  "step_at Q d sid \<longleftrightarrow> (\<forall>s \<in> set (db_steps d). s_id s = sid \<longrightarrow> Q (s_state s))"

abbreviation run_open :: "db \<Rightarrow> uid \<Rightarrow> bool" where
  "run_open \<equiv> run_at (\<lambda>q. \<not> run_terminal q)"

abbreviation step_open :: "db \<Rightarrow> uid \<Rightarrow> bool" where
  "step_open \<equiv> step_at (\<lambda>q. \<not> step_terminal q)"

abbreviation run_failable :: "db \<Rightarrow> uid \<Rightarrow> bool" where
  "run_failable \<equiv> run_at (\<lambda>q. q \<notin> {R_SUCCEEDED, R_CANCELLED})"

abbreviation step_failable :: "db \<Rightarrow> uid \<Rightarrow> bool" where
  "step_failable \<equiv> step_at (\<lambda>q. q \<notin> {S_SUCCEEDED, S_SKIPPED})"

lemma run_open_failable: "run_open d rid \<Longrightarrow> run_failable d rid"
  by (auto simp: run_at_def)

lemma step_open_failable: "step_open d sid \<Longrightarrow> step_failable d sid"
  by (auto simp: step_at_def)

lemma run_at_frame [simp]:
  "run_at Q (upd_steps P1 f1 d) = run_at Q d" "run_at Q (upd_attempts P2 f2 d) = run_at Q d"
  "run_at Q (upd_timers P3 f3 d) = run_at Q d" "run_at Q (upd_cases P4 f4 d) = run_at Q d"
  "run_at Q (upd_approvals P5 f5 d) = run_at Q d" "run_at Q (delete_leases P6 d) = run_at Q d"
  "run_at Q (insert_stop a r t d) = run_at Q d" "run_at Q (audit x y d) = run_at Q d"
  "run_at Q (fold (fail_live_attempt now) as d) = run_at Q d"
  by (simp_all add: run_at_def fun_eq_iff)

lemma step_at_frame [simp]:
  "step_at Q (upd_runs P1 f1 d) = step_at Q d" "step_at Q (upd_attempts P2 f2 d) = step_at Q d"
  "step_at Q (upd_timers P3 f3 d) = step_at Q d" "step_at Q (upd_cases P4 f4 d) = step_at Q d"
  "step_at Q (upd_approvals P5 f5 d) = step_at Q d" "step_at Q (delete_leases P6 d) = step_at Q d"
  "step_at Q (insert_stop a r t d) = step_at Q d" "step_at Q (audit x y d) = step_at Q d"
  "step_at Q (fold (fail_live_attempt now) as d) = step_at Q d"
  by (simp_all add: step_at_def fun_eq_iff)

lemma step_at_upd:
  assumes "\<And>s. s_id (f s) = s_id s \<and> s_state (f s) = s_state s"
  shows "step_at Q (upd_steps P f d) = step_at Q d"
proof (rule ext)
  show "step_at Q (upd_steps P f d) i = step_at Q d i" for i
    unfolding step_at_def upd_steps_simps ball_upd by (rule ball_cong) (simp_all add: assms)
qed

lemma run_at_upd:
  assumes "\<And>r. r_id (f r) = r_id r \<and> r_status (f r) = r_status r"
  shows "run_at Q (upd_runs P f d) = run_at Q d"
proof (rule ext)
  show "run_at Q (upd_runs P f d) i = run_at Q d i" for i
    unfolding run_at_def upd_runs_simps ball_upd by (rule ball_cong) (simp_all add: assms)
qed

lemma run_at_keep:
  "run_at Q d rid \<Longrightarrow> (\<And>r. r_id (f r) = r_id r \<and> (Q (r_status r) \<longrightarrow> Q (r_status (f r)))) \<Longrightarrow> run_at Q (upd_runs P f d) rid"
  by (auto simp: run_at_def ball_upd)

lemma step_at_keep:
  "step_at Q d sid \<Longrightarrow> (\<And>s. s_id (f s) = s_id s \<and> (Q (s_state s) \<longrightarrow> Q (s_state (f s)))) \<Longrightarrow> step_at Q (upd_steps P f d) sid"
  by (auto simp: step_at_def ball_upd)

lemma appendRunEvent_at:
  assumes "appendRunEvent rid t d = Inr d'"
  shows "run_at Q d' = run_at Q d" "step_at Q' d' = step_at Q' d"
proof -
  show "run_at Q d' = run_at Q d"
  proof (rule ext)
    show "run_at Q d' i = run_at Q d i" for i
      unfolding run_at_def appendRunEventD(1) [OF assms] ball_upd by (rule ball_cong) simp_all
  qed
  show "step_at Q' d' = step_at Q' d" by (simp add: step_at_def fun_eq_iff appendRunEventD(2) [OF assms])
qed

lemma closeOpenCasesTx_at:
  assumes "closeOpenCasesTx rid actor res d = Inr d'"
  shows "run_at Q d' = run_at Q d" "step_at Q' d' = step_at Q' d"
  using assms unfolding closeOpenCasesTx_def Let_def
  by (auto split: if_splits simp: appendRunEvent_at)

text \<open>With distinct ids the row a statement finds is the only one.\<close>

lemma find_run_at:
  assumes "inv d" and "find_run d rid = Some r"
  shows "run_at Q d rid \<longleftrightarrow> Q (r_status r)"
proof -
  have "distinct (map r_id (db_runs d))" using assms(1) by (simp add: inv_def ids_ok_def)
  then have "q = r" if "q \<in> set (db_runs d)" "r_id q = rid" for q
    using that find_run_id [OF assms(2)] by (auto simp: distinct_map dest: inj_onD)
  then show ?thesis using find_run_id [OF assms(2)] by (auto simp: run_at_def)
qed

lemma find_step_at:
  assumes "inv d" and "find_step d sid = Some s"
  shows "step_at Q d sid \<longleftrightarrow> Q (s_state s)"
proof -
  have "distinct (map s_id (db_steps d))" using assms(1) by (simp add: inv_def ids_ok_def)
  then have "q = s" if "q \<in> set (db_steps d)" "s_id q = sid" for q
    using that find_step_id [OF assms(2)] by (auto simp: distinct_map dest: inj_onD)
  then show ?thesis using find_step_id [OF assms(2)] by (auto simp: step_at_def)
qed

lemma holds_step_okI:
  "step_ok d x \<Longrightarrow> (inv x \<Longrightarrow> holds (step_ok x) t) \<Longrightarrow> holds (step_ok d) t"
  unfolding holds_def step_ok_def by (blast intro: extends_trans)

lemma returns_step_okI:
  "step_ok d x \<Longrightarrow> (inv x \<Longrightarrow> returns_ok x t) \<Longrightarrow> returns_ok d t"
  unfolding returns_ok_def holds_def step_ok_def by (blast intro: extends_trans)

lemma returns_ok_bindP: "holds J t \<Longrightarrow> (\<And>x. J x \<Longrightarrow> returns_ok d (k x)) \<Longrightarrow> returns_ok d (ebind t k)"
  unfolding returns_ok_def by (rule holds_bind)

text \<open>A step that is open where the transaction starts may take any state once its attempts have ended.\<close>

lemma no_live_frame [simp]:
  "no_live (upd_runs P1 f1 d) = no_live d" "no_live (upd_steps P2 f2 d) = no_live d"
  "no_live (upd_timers P3 f3 d) = no_live d" "no_live (upd_cases P4 f4 d) = no_live d"
  "no_live (upd_approvals P5 f5 d) = no_live d" "no_live (delete_leases P6 d) = no_live d"
  "no_live (insert_stop a r t d) = no_live d" "no_live (audit x y d) = no_live d"
  by (simp_all add: no_live_def fun_eq_iff)

lemma appendRunEvent_no_live: "appendRunEvent rid t d = Inr d' \<Longrightarrow> no_live d' = no_live d"
  by (simp add: no_live_def fun_eq_iff appendRunEventD(3))

lemma step_ok_upd_open_step:
  assumes "step_ok d x" and "inv d \<Longrightarrow> step_open d sid" and "inv x \<Longrightarrow> no_live x sid"
    and "\<And>s. same_step (f s) s"
  shows "step_ok d (upd_steps (\<lambda>s. s_id s = sid \<and> P s) f x)"
  unfolding step_ok_def
proof
  let ?u = "upd_steps (\<lambda>s. s_id s = sid \<and> P s) f x"
  assume d: "inv d"
  then have x: "inv x" "extends d x" using assms(1) by (auto simp: step_ok_def)
  obtain zs ws where z: "db_steps x = zs @ ws" "list_all2 step_le (db_steps d) zs"
    using x(2) by (auto simp: extends_def grows_def)
  let ?g = "\<lambda>s. if s_id s = sid \<and> P s then f s else s"
  have "list_all2 step_le (db_steps d) (map ?g zs)"
    unfolding list_all2_map2 using z(2)
  proof (rule list.rel_mono_strong)
    fix s y assume "s \<in> set (db_steps d)" "y \<in> set zs" and le: "step_le s y"
    moreover have "\<not> step_terminal (s_state s)" if "s_id s = sid"
      using assms(2) [OF d] \<open>s \<in> set (db_steps d)\<close> that by (simp add: step_at_def)
    ultimately show "step_le s (?g y)" using assms(4) [of y] by (auto simp: step_le_def)
  qed
  then have "grows step_le (db_steps d) (db_steps ?u)" unfolding grows_def z(1) by (auto simp: upd_def z(1))
  moreover have "fenced (db_steps ?u) (db_attempts ?u)"
    unfolding upd_steps_simps
    by (rule fenced_upd_steps) (use x(1) assms(3) assms(4) in \<open>auto simp: inv_def no_live_def fence_def\<close>)
  ultimately show "inv ?u \<and> extends d ?u"
    using x assms(4) by (simp add: inv_def extends_def ids_upd ball_upd)
qed

lemma failRunForStepTx_step_ok:
  assumes "step_ok d x" and "inv x \<Longrightarrow> run_failable x rid" and "inv x \<Longrightarrow> step_failable x sid"
  shows "holds (step_ok d) (failRunForStepTx now rid sid code actor x)"
proof (rule holds_step_okI [OF assms(1)])
  assume i: "inv x"
  let ?d2 = "upd_steps (\<lambda>s. s_id s = sid) (\<lambda>s. s\<lparr>s_state := S_FAILED, s_wait := Some code\<rparr>)
      (fold (fail_live_attempt now) (live_attempts x rid) x)"
  have "step_ok x ?d2"
    using assms(3) [OF i] by (intro step_ok_intros) (auto simp: step_le_def step_at_def step_terminal_def)
  then have "holds (\<lambda>d3. step_ok x d3 \<and> run_failable d3 rid) (closeOpenCasesTx rid actor ''FAIL'' ?d2)"
    using step_ok_closeOpenCasesTx [of x ?d2] assms(2) [OF i] closeOpenCasesTx_at(1) by (auto simp: holds_def)
  then show "holds (step_ok x) (failRunForStepTx now rid sid code actor x)"
    unfolding failRunForStepTx_def Let_def
    by (rule holds_bind)
      (auto intro!: step_ok_intros simp: cancel_timers_def row_le_defs run_at_def open_states_def run_terminal_def)
qed

end
