(* ===== verification/Deployment_Manifest.thy ===== *)
theory Deployment_Manifest
  imports Retry_Policy Json_Value
begin

text \<open>
  The deployment manifest as the engine decodes it from the deployment's row
  (\<open>internal/execution/worker_engine.go\<close>, the structs \<open>deploymentManifest\<close> down to \<open>choiceBranch\<close>),
  and the lookups of a task's policy and schemas.  A Go value of type \<open>any\<close> is a \<open>json\<close> (a missing
  field decodes to nil, \<open>JNull\<close>); a pointer is an option.  The fields that only travel to a worker
  (\<open>secretNames\<close>) are left out.
\<close>

record choiceBranch =
  cb_Name :: string
  cb_Condition :: json

record choiceConfig =
  cc_Branches :: "choiceBranch list"
  cc_Default :: string

record mergeBranch =
  mb_Branch :: string
  mb_Terminal :: string
  mb_Value :: json

record mergeConfig =
  mc_Choice :: string
  mc_Branches :: "mergeBranch list"
  mc_OutputSchema :: json

record approvalNodeConfig =
  ap_Payload :: json
  ap_OutputSchema :: json
  ap_RequiredPermission :: string
  ap_ExpiresInMs :: int

record workflowNode =
  wn_ID :: string
  wn_Type :: string
  wn_Task :: string
  wn_After :: "string list"
  wn_Input :: json
  wn_DelayMs :: "int option"
  wn_Choice :: "choiceConfig option"
  wn_Merge :: "mergeConfig option"
  wn_Approval :: "approvalNodeConfig option"

record workflowManifest =
  wm_Name :: string
  wm_InputSchema :: json
  wm_OutputSchema :: json
  wm_Nodes :: "workflowNode list"
  wm_Output :: json

record taskManifest =
  tm_Name :: string
  tm_Entrypoint :: string
  tm_Recovery :: string
  tm_TimeoutMs :: int
  tm_InputSchema :: json
  tm_OutputSchema :: json
  tm_IdempotencyWindowMs :: "int option"
  tm_MaxAttempts :: int
  tm_InitialDelayMs :: int
  tm_MaxDelayMs :: int

record deploymentManifest =
  dm_TargetOS :: string
  dm_TargetArchitecture :: string
  dm_Tasks :: "taskManifest list"
  dm_Workflows :: "workflowManifest list"

section \<open>Task lookups\<close>

text \<open>The loop of \<open>taskRetryPolicy\<close> leaves the workflows at the first one with the name; the loops of
  \<open>taskPolicy\<close> and \<open>taskSchemas\<close> go through all of them, so there the last match wins.\<close>

definition node_task :: "string \<Rightarrow> workflowManifest \<Rightarrow> string option" where
  "node_task nodeID wfl =
     map_option wn_Task (List.find (\<lambda>n. wn_ID n = nodeID \<and> wn_Task n \<noteq> []) (wm_Nodes wfl))"

definition first_task_name :: "deploymentManifest \<Rightarrow> string \<Rightarrow> string \<Rightarrow> string" where
  "first_task_name m workflowName nodeID =
     (case List.find (\<lambda>wfl. wm_Name wfl = workflowName) (dm_Workflows m) of
        None \<Rightarrow> nodeID
      | Some wfl \<Rightarrow> (case node_task nodeID wfl of None \<Rightarrow> nodeID | Some t \<Rightarrow> t))"

definition last_task_name :: "deploymentManifest \<Rightarrow> string \<Rightarrow> string \<Rightarrow> string" where
  "last_task_name m workflowName nodeID =
     fold (\<lambda>wfl acc. if wm_Name wfl \<noteq> workflowName then acc
                     else (case node_task nodeID wfl of None \<Rightarrow> acc | Some t \<Rightarrow> t)) (dm_Workflows m) nodeID"

definition find_task :: "deploymentManifest \<Rightarrow> string \<Rightarrow> taskManifest option" where
  "find_task m name = List.find (\<lambda>t. tm_Name t = name) (dm_Tasks m)"

definition taskRetryPolicy :: "deploymentManifest \<Rightarrow> string \<Rightarrow> string \<Rightarrow> RetryPolicy" where
  "taskRetryPolicy m workflowName nodeID =
     (case find_task m (first_task_name m workflowName nodeID) of
        Some t \<Rightarrow> NormalizeRetryPolicy (tm_MaxAttempts t) (tm_InitialDelayMs t) (tm_MaxDelayMs t) (tm_TimeoutMs t)
                   (tm_Recovery t) (tm_IdempotencyWindowMs t)
      | None \<Rightarrow> NormalizeRetryPolicy 0 0 0 0 '''' None)"

definition taskRecoveryPolicy :: "deploymentManifest \<Rightarrow> string \<Rightarrow> string \<Rightarrow> string \<times> int" where
  "taskRecoveryPolicy m workflowName nodeID =
     (let p = taskRetryPolicy m workflowName nodeID in (Recovery p, MaxAttempts p))"

definition taskPolicy :: "deploymentManifest \<Rightarrow> string \<Rightarrow> string \<Rightarrow> string \<times> int" where
  "taskPolicy m workflowName nodeID =
     (case find_task m (last_task_name m workflowName nodeID) of
        Some t \<Rightarrow>
          (let timeout = (if tm_TimeoutMs t \<le> 0 then 300000 else tm_TimeoutMs t);
               timeout = (if timeout > MaxAttemptTimeoutMs then MaxAttemptTimeoutMs else timeout)
           in (tm_Entrypoint t, timeout))
      | None \<Rightarrow> (nodeID, 300000))"

definition taskSchemas :: "deploymentManifest \<Rightarrow> string \<Rightarrow> string \<Rightarrow> json \<times> json" where
  "taskSchemas m workflowName nodeID =
     (case find_task m (last_task_name m workflowName nodeID) of
        Some t \<Rightarrow> (tm_InputSchema t, tm_OutputSchema t)
      | None \<Rightarrow> (JNull, JNull))"

definition targetArchitecture :: "string \<Rightarrow> string \<Rightarrow> string" where
  "targetArchitecture os architecture =
     (let os = lower_trim os; architecture = lower_trim architecture;
          os = (if os = [] then ''linux'' else os) in
      if architecture = [] then []
      else if architecture = ''amd64'' \<or> architecture = ''x64'' then os @ ''/amd64''
      else if architecture = ''arm64'' then os @ ''/arm64''
      else architecture)"

section \<open>Lemmas\<close>

text \<open>A reference to a task the manifest does not have never becomes permission to repeat work.\<close>

lemma taskRetryPolicy_unknown:
  "find_task m (first_task_name m w n) = None \<Longrightarrow> \<not> IsValidRecoveryPolicy (Recovery (taskRetryPolicy m w n))"
proof -
  have "lower_trim [] = []" by code_simp
  then show "find_task m (first_task_name m w n) = None \<Longrightarrow> ?thesis"
    by (simp add: taskRetryPolicy_def NormalizeRetryPolicy_def IsValidRecoveryPolicy_def Let_def)
qed

lemma taskPolicy_timeout: "1 \<le> snd (taskPolicy m w n) \<and> snd (taskPolicy m w n) \<le> MaxAttemptTimeoutMs"
  by (auto simp: taskPolicy_def Let_def retry_consts split: option.split)

end
