(* ===== verification/Retry_Scheduler.thy ===== *)
theory Retry_Scheduler
  imports Run_Invariant Deployment_Manifest
begin

text \<open>
  What happens to a step whose attempt failed (\<open>internal/execution/worker_engine.go\<close>): the
  idempotency window of its first claim, the reconciliation hold, the durable retry timer, and the
  firing of due timers; and the durable wait of a delay node.  The random sample of the jitter and
  the parser of HTTP dates are arguments.
\<close>

section \<open>Idempotency window\<close>

definition is_idempotent :: "RetryPolicy \<Rightarrow> bool" where
  "is_idempotent policy \<longleftrightarrow> lower_trim (Recovery policy) = ''idempotent''"

definition set_valid_until :: "uid \<Rightarrow> time \<Rightarrow> db \<Rightarrow> db" where
  "set_valid_until stepID t =
     upd_steps (\<lambda>s. s_id s = stepID \<and> s_valid_until s = None) (\<lambda>s. s\<lparr>s_valid_until := Some t\<rparr>)"

definition ensureIdempotencyWindowTx :: "time \<Rightarrow> uid \<Rightarrow> RetryPolicy \<Rightarrow> db \<Rightarrow> (time option \<times> db) tx" where
  "ensureIdempotencyWindowTx now stepID policy d =
     (case (is_idempotent policy, IdempotencyWindowMs policy) of
        (True, Some windowMs) \<Rightarrow>
          ebind (get_step d stepID) (\<lambda>s.
            case s_valid_until s of
              Some v \<Rightarrow> Inr (Some v, d)
            | None \<Rightarrow> (let t = now + windowMs * 1000000 in Inr (Some t, set_valid_until stepID t d)))
      | _ \<Rightarrow> Inr (None, d))"

text \<open>The earliest attempt of a step.\<close>

definition first_attempt :: "db \<Rightarrow> uid \<Rightarrow> attempt_row option" where
  "first_attempt d stepID =
     (case sort_key a_number (filter (\<lambda>a. a_step a = stepID) (db_attempts d)) of [] \<Rightarrow> None | a # _ \<Rightarrow> Some a)"

definition deriveIdempotencyDeadlineTx :: "uid \<Rightarrow> int \<Rightarrow> db \<Rightarrow> (time option \<times> db) tx" where
  "deriveIdempotencyDeadlineTx stepID windowMs d =
     (case first_attempt d stepID of
        None \<Rightarrow> Inr (None, d)
      | Some a \<Rightarrow>
          ebind (get_step d stepID) (\<lambda>s.
            case s_valid_until s of
              Some v \<Rightarrow> Inr (Some v, d)
            | None \<Rightarrow>
                (let t = a_created a + ms_duration windowMs in Inr (Some t, set_valid_until stepID t d))))"

text \<open>The deadline under which a READY step is claimed, or the reason to hold it instead.\<close>

definition claimIdempotencyAdmissionTx ::
    "time \<Rightarrow> uid \<Rightarrow> RetryPolicy \<Rightarrow> db \<Rightarrow> (time option \<times> string \<times> db) tx" where
  "claimIdempotencyAdmissionTx now stepID policy d =
     (if \<not> is_idempotent policy then Inr (None, '''', d)
      else ebind (get_step d stepID) (\<lambda>s.
        case s_valid_until s of
          Some v \<Rightarrow> Inr (Some v, '''', d)
        | None \<Rightarrow>
            (case IdempotencyWindowMs policy of
               None \<Rightarrow> Inr (None, if s_next_attempt s > 1 then ''IDEMPOTENCY_WINDOW_UNKNOWN'' else '''', d)
             | Some windowMs \<Rightarrow>
                 if s_next_attempt s = 1
                 then ebind (ensureIdempotencyWindowTx now stepID policy d) (\<lambda>(minted, d). Inr (minted, '''', d))
                 else ebind (deriveIdempotencyDeadlineTx stepID windowMs d) (\<lambda>(derived, d).
                        if derived = None then Inr (None, ''IDEMPOTENCY_WINDOW_UNKNOWN'', d)
                        else Inr (derived, '''', d)))))"

section \<open>Reconciliation hold\<close>

definition insertReconciliationCaseTx :: "uid \<Rightarrow> uid option \<Rightarrow> string \<Rightarrow> db \<Rightarrow> db" where
  "insertReconciliationCaseTx stepID attemptID reason d =
     d\<lparr>db_cases := db_cases d @ [\<lparr> c_id = db_next d, c_step = stepID, c_attempt = attemptID, c_reason = reason,
         c_status = C_OPEN, c_resolution = None, c_actor = None, c_revision = 1 \<rparr>], db_next := db_next d + 1\<rparr>"

definition routeStepToReconciliationTx :: "uid \<Rightarrow> uid \<Rightarrow> uid option \<Rightarrow> string \<Rightarrow> db \<Rightarrow> db tx" where
  "routeStepToReconciliationTx runID stepID attemptID reason d =
     (let d1 = upd_steps (\<lambda>s. s_id s = stepID)
                 (\<lambda>s. s\<lparr>s_state := S_WAITING, s_wait := Some ''RECONCILIATION''\<rparr>) d;
          d2 = upd_runs (\<lambda>r. r_id r = runID \<and> r_status r \<in> {R_QUEUED, R_RUNNING, R_WAITING} \<and> live_attempts d1 runID = [])
                 (\<lambda>r. r\<lparr>r_status := R_WAITING, r_reason := Some ''RECONCILIATION''\<rparr>) d1
      in appendRunEvent runID ''STEP_WAITING'' (insertReconciliationCaseTx stepID attemptID reason d2))"

section \<open>Run status after parking a step\<close>

definition recomputeRunStatusForRetryTx :: "uid \<Rightarrow> db \<Rightarrow> db" where
  "recomputeRunStatusForRetryTx runID d =
     (if live_attempts d runID \<noteq> [] \<or> steps_in d runID [S_READY, S_RUNNING] \<noteq> []
      then upd_runs (\<lambda>r. r_id r = runID \<and> r_status r \<in> {R_QUEUED, R_RUNNING, R_WAITING})
             (\<lambda>r. r\<lparr>r_status := R_RUNNING, r_reason := None\<rparr>) d
      else upd_runs (\<lambda>r. r_id r = runID \<and> r_status r \<in> {R_QUEUED, R_RUNNING})
             (\<lambda>r. r\<lparr>r_status := R_WAITING, r_reason := Some ''RETRY_BACKOFF''\<rparr>) d)"

definition recomputeRunStatusForDelayTx :: "uid \<Rightarrow> db \<Rightarrow> db" where
  "recomputeRunStatusForDelayTx runID d =
     (if steps_in d runID [S_READY, S_RUNNING] \<noteq> []
      then upd_runs (\<lambda>r. r_id r = runID \<and> r_status r \<in> {R_QUEUED, R_RUNNING, R_WAITING})
             (\<lambda>r. r\<lparr>r_status := (if steps_in d runID [S_RUNNING] \<noteq> [] then R_RUNNING else R_QUEUED), r_reason := None\<rparr>) d
      else upd_runs (\<lambda>r. r_id r = runID \<and> r_status r \<in> {R_QUEUED, R_RUNNING} \<and>
                         (\<exists>t \<in> set (db_timers d). t_run t = runID \<and> t_kind t = ''DELAY'' \<and> t_state t = T_PENDING))
             (\<lambda>r. r\<lparr>r_status := R_WAITING, r_reason := Some ''DELAY''\<rparr>) d)"

section \<open>Timers\<close>

text \<open>The partial unique index \<open>idx_timers_pending_identity\<close>: at most one pending timer per kind and
  reference; \<open>INSERT ... ON CONFLICT DO NOTHING\<close> keeps the one there is.\<close>

definition pending_timer :: "db \<Rightarrow> string \<Rightarrow> uid \<Rightarrow> timer_row option" where
  "pending_timer d kind ref = List.find (\<lambda>t. t_kind t = kind \<and> t_ref t = ref \<and> t_state t = T_PENDING) (db_timers d)"

definition insert_timer :: "string \<Rightarrow> uid \<Rightarrow> uid \<Rightarrow> int option \<Rightarrow> string \<Rightarrow> time \<Rightarrow> db \<Rightarrow> time \<times> bool \<times> db" where
  "insert_timer kind runID stepID attemptNumber reason due d =
     (case pending_timer d kind stepID of
        Some t \<Rightarrow> (t_due t, False, d)
      | None \<Rightarrow> (due, True,
          d\<lparr>db_timers := db_timers d @ [\<lparr> t_id = db_next d, t_kind = kind, t_ref = stepID, t_run = runID, t_step = stepID,
              t_number = attemptNumber, t_reason = reason, t_due = due, t_state = T_PENDING \<rparr>], db_next := db_next d + 1\<rparr>))"

definition scheduleDelayTx :: "time \<Rightarrow> uid \<Rightarrow> uid \<Rightarrow> int \<Rightarrow> db \<Rightarrow> (time \<times> bool \<times> db) tx" where
  "scheduleDelayTx now runID stepID delayMs d =
     (if delayMs < 1 \<or> delayMs > MaxRunLifetimeMs then Inl ErrInvalidDelay
      else
        (case insert_timer ''DELAY'' runID stepID None ''DELAY'' (now + delayMs * 1000000) d of
           (due, inserted, d) \<Rightarrow>
             (let blocked = (\<exists>s \<in> set (db_steps d). s_id s = stepID \<and> s_state s = S_BLOCKED);
                  d' = upd_steps (\<lambda>s. s_id s = stepID \<and> s_state s = S_BLOCKED)
                         (\<lambda>s. s\<lparr>s_state := S_WAITING, s_wait := Some ''DELAY'', s_eligible := Some due\<rparr>) d
              in Inr (due, inserted, if blocked then recomputeRunStatusForDelayTx runID d' else d'))))"

section \<open>Retry or hold\<close>

datatype decision = Retry | Hold | Fail string

definition hold :: "uid \<Rightarrow> uid \<Rightarrow> uid \<Rightarrow> string \<Rightarrow> db \<Rightarrow> (decision \<times> db) tx" where
  "hold runID stepID attemptID reason d =
     ebind (routeStepToReconciliationTx runID stepID (Some attemptID) reason d) (\<lambda>d. Inr (Hold, d))"

text \<open>The admission of an idempotent retry: the deadline (backfilled for a row that has none), or a hold.\<close>

definition retry_window :: "time \<Rightarrow> uid \<Rightarrow> RetryPolicy \<Rightarrow> time option \<Rightarrow> db \<Rightarrow> (string option \<times> db) tx" where
  "retry_window now stepID policy validUntil d =
     (if \<not> is_idempotent policy then Inr (None, d)
      else (case IdempotencyWindowMs policy of
              None \<Rightarrow> Inr (Some ''IDEMPOTENCY_WINDOW_UNKNOWN'', d)
            | Some windowMs \<Rightarrow>
                ebind (case validUntil of None \<Rightarrow> deriveIdempotencyDeadlineTx stepID windowMs d | Some v \<Rightarrow> Inr (Some v, d))
                  (\<lambda>(v, d). case v of
                     None \<Rightarrow> Inr (Some ''IDEMPOTENCY_WINDOW_UNKNOWN'', d)
                   | Some v \<Rightarrow> Inr (if InsufficientIdempotencyWindow now v (TimeoutMs policy)
                                   then Some ''IDEMPOTENCY_WINDOW_INSUFFICIENT'' else None, d))))"

definition retry_due :: "(string \<Rightarrow> int option) \<Rightarrow> rat \<Rightarrow> time \<Rightarrow> int \<Rightarrow> RetryPolicy \<Rightarrow> string \<Rightarrow> time" where
  "retry_due parse_date jitter now failedAttemptNumber policy retryAfterRaw =
     (let retryAfterMs = (if TrimSpace retryAfterRaw \<noteq> [] then ParseRetryAfter parse_date retryAfterRaw now else None)
      in now + ms_duration (ComputeRetryDelayMs failedAttemptNumber (InitialDelayMs policy) (MaxDelayMs policy) jitter retryAfterMs))"

definition park_for_retry :: "uid \<Rightarrow> uid \<Rightarrow> int \<Rightarrow> string \<Rightarrow> time \<Rightarrow> db \<Rightarrow> (decision \<times> db) tx" where
  "park_for_retry runID stepID nextAttemptNumber errorCode due d =
     (case insert_timer ''RETRY_BACKOFF'' runID stepID (Some nextAttemptNumber) errorCode due d of
        (due, _, d) \<Rightarrow>
          (let d = upd_steps (\<lambda>s. s_id s = stepID)
                 (\<lambda>s. s\<lparr>s_state := S_WAITING, s_wait := Some ''RETRY_BACKOFF'', s_eligible := Some due\<rparr>) d
           in ebind (appendRunEvent runID ''STEP_WAITING'' (recomputeRunStatusForRetryTx runID d)) (\<lambda>d. Inr (Retry, d))))"

definition scheduleRetryOrHoldTx ::
    "(string \<Rightarrow> int option) \<Rightarrow> rat \<Rightarrow> time \<Rightarrow> uid \<Rightarrow> uid \<Rightarrow> uid \<Rightarrow> int \<Rightarrow> RetryPolicy \<Rightarrow> string \<Rightarrow> bool \<Rightarrow> string \<Rightarrow>
     string \<Rightarrow> time option \<Rightarrow> db \<Rightarrow> (decision \<times> db) tx" where
  "scheduleRetryOrHoldTx parse_date jitter now runID stepID failedAttemptID failedAttemptNumber policy errorCode
       retryable effectStatus retryAfterRaw runDeadline d =
     ebind (get_run d runID) (\<lambda>r.
     ebind (get_step d stepID) (\<lambda>s.
       if r_status r \<in> {R_SUCCEEDED, R_FAILED, R_CANCELLED, R_CANCELLING} then Inr (Fail (run_status_name (r_status r)), d)
       else if \<not> CanScheduleRetry (r_status r) (text_or_empty (r_reason r)) then Inr (Fail errorCode, d)
       else if IsNonRetryableCode errorCode then Inr (Fail errorCode, d)
       else if \<not> IsValidRecoveryPolicy (Recovery policy) then Inr (Fail ''INVALID_RECOVERY_POLICY'', d)
       else if RequiresReconciliation (Recovery policy) effectStatus
         then hold runID stepID failedAttemptID ''AMBIGUOUS_OUTCOME'' d
       else if \<not> retryable then Inr (Fail errorCode, d)
       else if \<not> HasRetryBudget (s_next_attempt s) (MaxAttempts policy) then Inr (Fail ''MAX_ATTEMPTS_EXCEEDED'', d)
       else ebind (retry_window now stepID policy (s_valid_until s) d) (\<lambda>(held, d).
         case held of
           Some reason \<Rightarrow> hold runID stepID failedAttemptID reason d
         | None \<Rightarrow>
             (let due = retry_due parse_date jitter now failedAttemptNumber policy retryAfterRaw;
                  deadline = (if runDeadline = None then r_deadline r else runDeadline)
              in if InsufficientRunDeadline due (TimeoutMs policy) deadline
                 then Inr (Fail ''RUN_DEADLINE_EXCEEDED'', d)
                 else park_for_retry runID stepID (s_next_attempt s) errorCode due d))))"

section \<open>Firing due retry timers\<close>

text \<open>The rows of the candidate scan: due pending timers of the kind whose run and step exist, oldest
  first, at most 50.  \<open>ORDER BY due_at, id\<close>.\<close>

definition due_timers :: "time \<Rightarrow> string \<Rightarrow> db \<Rightarrow> timer_row list" where
  "due_timers now kind d =
     take 50 (sort_key t_due (sort_key t_id (filter (\<lambda>t. t_kind t = kind \<and> t_state t = T_PENDING \<and> t_due t \<le> now \<and>
       find_run d (t_run t) \<noteq> None \<and> find_step d (t_step t) \<noteq> None) (db_timers d))))"

definition run_started :: "db \<Rightarrow> uid \<Rightarrow> bool" where
  "run_started d runID \<longleftrightarrow> (\<exists>a \<in> set (db_attempts d). a_step a \<in> set (step_ids d runID) \<and> a_started a \<noteq> None)"

definition find_timer :: "db \<Rightarrow> uid \<Rightarrow> timer_row option" where
  "find_timer d tid = List.find (\<lambda>t. t_id t = tid) (db_timers d)"

definition fire_timer :: "uid \<Rightarrow> db \<Rightarrow> db" where
  "fire_timer tid = upd_timers (\<lambda>t. t_id t = tid \<and> t_state t = T_PENDING) (\<lambda>t. t\<lparr>t_state := T_FIRED\<rparr>)"

definition past_deadline :: "time \<Rightarrow> time option \<Rightarrow> bool" where
  "past_deadline now deadline \<longleftrightarrow> (case deadline of None \<Rightarrow> False | Some t \<Rightarrow> \<not> now < t)"

definition release_retry :: "timer_row \<Rightarrow> time \<Rightarrow> db \<Rightarrow> db" where
  "release_retry c due d =
     (let d = fire_timer (t_id c) d;
          d = upd_steps (\<lambda>s. s_id s = t_step c \<and> s_state s = S_WAITING \<and> s_wait s = Some ''RETRY_BACKOFF'')
                (\<lambda>s. s\<lparr>s_state := S_READY, s_wait := None, s_eligible := Some due\<rparr>) d
      in upd_runs (\<lambda>r. r_id r = t_run c \<and> r_status r = R_WAITING \<and> r_reason r = Some ''RETRY_BACKOFF'')
           (\<lambda>r. r\<lparr>r_status := (if run_started d (t_run c) then R_RUNNING else R_QUEUED), r_reason := None\<rparr>) d)"

definition fire_retry_timer :: "time \<Rightarrow> timer_row \<Rightarrow> nat \<times> uid list \<times> db \<Rightarrow> (nat \<times> uid list \<times> db) tx" where
  "fire_retry_timer now c st =
     (case st of (fired, affected, d) \<Rightarrow>
       (case (find_run d (t_run c), find_step d (t_step c), find_timer d (t_id c)) of
          (Some r, Some s, Some t) \<Rightarrow>
            if t_state t \<noteq> T_PENDING \<or> t_due t > now then Inr st
            else if s_state s \<noteq> S_WAITING \<or> s_wait s \<noteq> Some ''RETRY_BACKOFF'' then Inr st
            else if \<not> CanFireRetry (r_status r) (text_or_empty (r_reason r)) then Inr st
            else if past_deadline now (r_deadline r) then Inr st
            else
              ebind (appendRunEvent (t_run c) ''STEP_READY'' (release_retry c (t_due t) d)) (\<lambda>d.
                Inr (fired + 1, if t_run c \<in> set affected then affected else affected @ [t_run c], d))
        | _ \<Rightarrow> Inr st))"

definition fireDueRetryTimersTx :: "time \<Rightarrow> db \<Rightarrow> (nat \<times> uid list \<times> db) tx" where
  "fireDueRetryTimersTx now d = efold (fire_retry_timer now) (due_timers now ''RETRY_BACKOFF'' d) (0, [], d)"

section \<open>Every operation keeps the invariant\<close>

lemma set_valid_until_ok [step_ok_intros]: "step_ok d x \<Longrightarrow> step_ok d (set_valid_until sid t x)"
  unfolding set_valid_until_def by (intro step_ok_intros) (auto simp: step_le_def)

lemma ensureIdempotencyWindowTx_ok [step_ok_intros]:
  "step_ok d x \<Longrightarrow> returns_ok d (ensureIdempotencyWindowTx now sid policy x)"
  unfolding ensureIdempotencyWindowTx_def
  by (auto split: bool.split option.split simp: Let_def intro: step_ok_intros)

lemma deriveIdempotencyDeadlineTx_ok [step_ok_intros]:
  "step_ok d x \<Longrightarrow> returns_ok d (deriveIdempotencyDeadlineTx sid w x)"
  unfolding deriveIdempotencyDeadlineTx_def
  by (auto split: option.split simp: Let_def intro: step_ok_intros)

lemma insertReconciliationCaseTx_ok [step_ok_intros]:
  "step_ok d x \<Longrightarrow> step_ok d (insertReconciliationCaseTx sid aid reason x)"
  using step_ok_new_case [of d x] by (simp add: insertReconciliationCaseTx_def)

text \<open>The step is open where the transaction starts; on the way it may already be marked as failed.\<close>

lemma route_from:
  assumes "step_ok d x" and "inv d \<Longrightarrow> step_open d sid" and "inv x \<Longrightarrow> no_live x sid"
  shows "holds (step_ok d) (routeStepToReconciliationTx rid sid aid reason x)"
  unfolding routeStepToReconciliationTx_def Let_def
  using step_ok_upd_open_step [OF assms, of "\<lambda>s. s\<lparr>s_state := S_WAITING, s_wait := Some ''RECONCILIATION''\<rparr>" "\<lambda>_. True"]
  by (auto intro!: step_ok_appendRunEvent insertReconciliationCaseTx_ok step_ok_upd_runs simp: run_le_def)

lemma route_ok [step_ok_intros]:
  assumes "step_ok d x" and "step_open x sid" and "no_live x sid"
  shows "holds (step_ok d) (routeStepToReconciliationTx rid sid aid reason x)"
  using assms(1) by (rule holds_step_okI) (rule route_from [OF step_ok_refl], rule assms(2), rule assms(3))

lemma recompute_ok [step_ok_intros]:
  "step_ok d x \<Longrightarrow> step_ok d (recomputeRunStatusForRetryTx rid x)"
  "step_ok d x \<Longrightarrow> step_ok d (recomputeRunStatusForDelayTx rid x)"
  unfolding recomputeRunStatusForRetryTx_def recomputeRunStatusForDelayTx_def
  by (auto intro!: step_ok_intros simp: run_le_def)

lemma insert_timer_ok:
  "step_ok d x \<Longrightarrow> step_ok d (snd (snd (insert_timer kind rid sid num reason due x)))"
  unfolding insert_timer_def
  by (auto split: option.split simp: pending_timer_def find_None_iff pending_key_def intro!: step_ok_new_timer)

lemma insert_timer_steps:
  assumes "insert_timer kind rid sid num reason due x = (due', b, x')"
  shows "db_steps x' = db_steps x" "db_runs x' = db_runs x" "db_attempts x' = db_attempts x" "db_cases x' = db_cases x"
    "step_at Q x' = step_at Q x" "history x' = history x"
  using assms by (auto simp: insert_timer_def step_at_def history_def fun_eq_iff split: option.splits)

lemma scheduleDelayTx_ok:
  "step_ok d x \<Longrightarrow> holds (\<lambda>(due, b, x'). step_ok d x') (scheduleDelayTx now rid sid ms x)"
proof -
  assume *: "step_ok d x"
  obtain due b x' where i: "insert_timer ''DELAY'' rid sid None ''DELAY'' (now + ms * 1000000) x = (due, b, x')"
    by (cases "insert_timer ''DELAY'' rid sid None ''DELAY'' (now + ms * 1000000) x")
  have "step_ok d x'" using insert_timer_ok [OF *] i by (metis snd_conv)
  then have "step_ok d (upd_steps (\<lambda>s. s_id s = sid \<and> s_state s = S_BLOCKED)
      (\<lambda>s. s\<lparr>s_state := S_WAITING, s_wait := Some ''DELAY'', s_eligible := Some due\<rparr>) x')" (is "step_ok d ?y")
    by (intro step_ok_intros) (simp_all add: step_le_def)
  then have "step_ok d ?y" "step_ok d (recomputeRunStatusForDelayTx rid ?y)" by (simp_all add: recompute_ok)
  then show ?thesis unfolding scheduleDelayTx_def Let_def i by simp
qed

lemma hold_from:
  "step_ok d x \<Longrightarrow> (inv d \<Longrightarrow> step_open d sid) \<Longrightarrow> (inv x \<Longrightarrow> no_live x sid) \<Longrightarrow> returns_ok d (hold rid sid aid reason x)"
  unfolding hold_def by (rule returns_ok_bind [OF route_from]) simp_all

lemma retry_window_frame:
  "retry_window now sid policy v x = Inr (h, x') \<Longrightarrow> x' = x \<or> (\<exists>f. x' = set_valid_until sid f x)"
proof -
  have d: "y = x \<or> (\<exists>f. y = set_valid_until sid f x)" if "deriveIdempotencyDeadlineTx sid w x = Inr (u, y)" for u y w
    using that by (cases "first_attempt x sid"; cases "find_step x sid")
      (auto simp: deriveIdempotencyDeadlineTx_def Let_def split: option.splits)
  assume r: "retry_window now sid policy v x = Inr (h, x')"
  show "x' = x \<or> (\<exists>f. x' = set_valid_until sid f x)"
  proof (cases "is_idempotent policy \<and> IdempotencyWindowMs policy \<noteq> None \<and> v = None")
    case True
    then obtain w where w: "IdempotencyWindowMs policy = Some w" by blast
    obtain u y where "deriveIdempotencyDeadlineTx sid w x = Inr (u, y)" "x' = y"
      using r True w by (cases "deriveIdempotencyDeadlineTx sid w x") (auto simp: retry_window_def split: option.splits)
    then show ?thesis using d by blast
  next
    case False
    then show ?thesis
      using r by (cases "is_idempotent policy"; cases "IdempotencyWindowMs policy"; cases v) (simp_all add: retry_window_def)
  qed
qed

lemma step_at_set_valid_until [simp]: "step_at Q (set_valid_until sid f x) = step_at Q x"
  by (simp add: set_valid_until_def step_at_upd)

lemma no_live_set_valid_until [simp]: "no_live (set_valid_until sid f x) = no_live x"
  by (simp add: set_valid_until_def)

lemma park_for_retry_from:
  assumes "step_ok d x" and "inv d \<Longrightarrow> step_open d sid" and "no_live x sid"
  shows "returns_ok d (park_for_retry rid sid num code due x)"
proof -
  obtain due' b x' where i: "insert_timer ''RETRY_BACKOFF'' rid sid (Some num) code due x = (due', b, x')"
    by (cases "insert_timer ''RETRY_BACKOFF'' rid sid (Some num) code due x")
  have "step_ok d x'" using insert_timer_ok [OF assms(1)] i by (metis snd_conv)
  then have "step_ok d (upd_steps (\<lambda>s. s_id s = sid \<and> True)
      (\<lambda>s. s\<lparr>s_state := S_WAITING, s_wait := Some ''RETRY_BACKOFF'', s_eligible := Some due'\<rparr>) x')"
    using assms(2) by (rule step_ok_upd_open_step) (use assms(3) insert_timer_steps(3) [OF i] in \<open>simp_all add: no_live_def\<close>)
  then show ?thesis unfolding park_for_retry_def Let_def i prod.case
    by (auto intro!: returns_ok_bind step_ok_appendRunEvent recompute_ok)
qed

lemma scheduleRetryOrHoldTx_from:
  assumes "step_ok d x" and "inv d \<Longrightarrow> step_open d sid" and "no_live x sid"
  shows "returns_ok d (scheduleRetryOrHoldTx pd j now rid sid aid num policy code retryable effect ra dl x)"
proof -
  have *: "returns_ok d (case held of Some reason \<Rightarrow> hold rid sid aid reason y
      | None \<Rightarrow> if b then Inr (Fail c, y) else park_for_retry rid sid n e due y)"
    if "retry_window now sid policy v x = Inr (held, y)" for held y v n e due b c
  proof -
    have "step_ok d y" "no_live y sid" using retry_window_frame [OF that] assms(1,3) by (auto intro: step_ok_intros)
    then show ?thesis using assms(2) by (auto split: option.split intro: hold_from park_for_retry_from)
  qed
  have "returns_ok d (ebind (retry_window now sid policy v x) (\<lambda>(held, y). case held of Some reason \<Rightarrow> hold rid sid aid reason y
      | None \<Rightarrow> if b then Inr (Fail c, y) else park_for_retry rid sid n e due y))" for v n e due b c
    using * by (cases "retry_window now sid policy v x") auto
  then show ?thesis
    unfolding scheduleRetryOrHoldTx_def Let_def
    using assms by (auto split: option.split intro: hold_from)
qed

lemma claimIdempotencyAdmissionTx_ok:
  "step_ok d x \<Longrightarrow> holds (\<lambda>(v, h, y). step_ok d y) (claimIdempotencyAdmissionTx now sid policy x)"
proof -
  assume x: "step_ok d x"
  have bind: "holds (\<lambda>(v, h, y). step_ok d y) (ebind t k)"
    if "returns_ok d t" "\<And>v y. step_ok d y \<Longrightarrow> holds (\<lambda>(v, h, y). step_ok d y) (k (v, y))"
    for t :: "(time option \<times> db) tx" and k :: "time option \<times> db \<Rightarrow> (time option \<times> string \<times> db) tx"
    using that by (cases t) (auto simp: returns_ok_def)
  show ?thesis
    unfolding claimIdempotencyAdmissionTx_def using x
    by (auto split: option.split intro!: bind ensureIdempotencyWindowTx_ok deriveIdempotencyDeadlineTx_ok)
qed

lemma release_retry_ok [step_ok_intros]: "step_ok d x \<Longrightarrow> step_ok d (release_retry c due x)"
  unfolding release_retry_def fire_timer_def Let_def by (intro step_ok_intros) (simp_all add: row_le_defs)

lemma fire_retry_timer_ok:
  "step_ok d x \<Longrightarrow> holds (\<lambda>(n, aff, y). step_ok d y) (fire_retry_timer now c (m, aff, x))"
  unfolding fire_retry_timer_def prod.case
  by (auto split: option.split intro!: holds_bind [OF step_ok_appendRunEvent] release_retry_ok)

lemma fireDueRetryTimersTx_ok:
  "holds (\<lambda>(n, aff, y). step_ok d y) (fireDueRetryTimersTx now d)"
  unfolding fireDueRetryTimersTx_def
  by (rule holds_efold) (use fire_retry_timer_ok in \<open>force\<close>, simp)

section \<open>Outcomes of a failed attempt\<close>

text \<open>The state a decision starts from: the given one, possibly with the deadline backfilled.\<close>

definition backfilled :: "uid \<Rightarrow> db \<Rightarrow> db \<Rightarrow> bool" where
  "backfilled sid d y \<longleftrightarrow> y = d \<or> (\<exists>f. y = set_valid_until sid f d)"

lemma backfilled_refl [simp]: "backfilled sid d d"
  by (simp add: backfilled_def)

lemma retry_window_backfilled: "retry_window now sid policy v x = Inr (h, y) \<Longrightarrow> backfilled sid x y"
  using retry_window_frame by (simp add: backfilled_def)

lemma hold_Inr: "hold rid sid aid reason y = Inr (dec, d') \<Longrightarrow>
    dec = Hold \<and> routeStepToReconciliationTx rid sid (Some aid) reason y = Inr d'"
  by (cases "routeStepToReconciliationTx rid sid (Some aid) reason y") (simp_all add: hold_def)

lemma park_Inr: "park_for_retry rid sid n code due y = Inr (dec, d') \<Longrightarrow> dec = Retry"
proof -
  assume *: "park_for_retry rid sid n code due y = Inr (dec, d')"
  obtain due' b x' where i: "insert_timer ''RETRY_BACKOFF'' rid sid (Some n) code due y = (due', b, x')"
    by (cases "insert_timer ''RETRY_BACKOFF'' rid sid (Some n) code due y")
  show ?thesis using * unfolding park_for_retry_def i prod.case Let_def by (auto dest: holds_ebindD)
qed

text \<open>The guards under which a retry is parked.\<close>

definition retry_admitted ::
    "time \<Rightarrow> RetryPolicy \<Rightarrow> string \<Rightarrow> bool \<Rightarrow> string \<Rightarrow> run_row \<Rightarrow> step_row \<Rightarrow> bool" where
  "retry_admitted now policy code retryable effect r s \<longleftrightarrow>
     r_status r \<notin> {R_SUCCEEDED, R_FAILED, R_CANCELLED, R_CANCELLING} \<and>
     CanScheduleRetry (r_status r) (text_or_empty (r_reason r)) \<and> \<not> IsNonRetryableCode code \<and>
     IsValidRecoveryPolicy (Recovery policy) \<and> \<not> RequiresReconciliation (Recovery policy) effect \<and> retryable \<and>
     HasRetryBudget (s_next_attempt s) (MaxAttempts policy)"

lemma scheduleRetryOrHoldTx_cases:
  assumes "scheduleRetryOrHoldTx pd j now rid sid aid num policy code retryable effect ra dl d = Inr (dec, d')"
  obtains (fail) c where "dec = Fail c" and "backfilled sid d d'"
  | (hold) reason y where "dec = Hold" and "backfilled sid d y"
      and "routeStepToReconciliationTx rid sid (Some aid) reason y = Inr d'"
  | (retry) r s y due where "dec = Retry" and "find_run d rid = Some r" and "find_step d sid = Some s"
      and "retry_admitted now policy code retryable effect r s"
      and "retry_window now sid policy (s_valid_until s) d = Inr (None, y)"
      and "due = retry_due pd j now num policy ra"
      and "\<not> InsufficientRunDeadline due (TimeoutMs policy) (if dl = None then r_deadline r else dl)"
      and "park_for_retry rid sid (s_next_attempt s) code due y = Inr (Retry, d')"
proof -
  obtain r where r: "find_run d rid = Some r"
    using assms by (cases "find_run d rid") (simp_all add: scheduleRetryOrHoldTx_def)
  obtain s where s: "find_step d sid = Some s"
    using assms r by (cases "find_step d sid") (simp_all add: scheduleRetryOrHoldTx_def)
  have failing: thesis if "Inr (Fail c, d) = Inr (dec, d')" for c
    using that fail [of c] by simp
  have holding: thesis if "hold rid sid aid reason y = Inr (dec, d')" "backfilled sid d y" for reason y
    using hold_Inr [OF that(1)] that(2) hold by blast
  note body = assms [unfolded scheduleRetryOrHoldTx_def bind_get r s option.case]
  show thesis
  proof (cases "retry_admitted now policy code retryable effect r s")
    case False
    then show thesis using body
      by (simp add: retry_admitted_def split: if_split_asm; (fastforce intro: failing holding)?)
  next
    case True
    then obtain held y where w: "retry_window now sid policy (s_valid_until s) d = Inr (held, y)"
      using body by (cases "retry_window now sid policy (s_valid_until s) d") (auto simp: retry_admitted_def)
    have b: "backfilled sid d y" by (rule retry_window_backfilled [OF w])
    show thesis
    proof (cases held)
      case (Some reason)
      then have "hold rid sid aid reason y = Inr (dec, d')" using body True w by (simp add: retry_admitted_def)
      then show thesis using b by (rule holding)
    next
      case None
      let ?due = "retry_due pd j now num policy ra"
      have *: "(if InsufficientRunDeadline ?due (TimeoutMs policy) (if dl = None then r_deadline r else dl)
          then Inr (Fail ''RUN_DEADLINE_EXCEEDED'', y) else park_for_retry rid sid (s_next_attempt s) code ?due y) = Inr (dec, d')"
        using body True w None by (simp add: retry_admitted_def Let_def)
      show thesis
      proof (cases "InsufficientRunDeadline ?due (TimeoutMs policy) (if dl = None then r_deadline r else dl)")
        case True
        then show thesis using * b fail [of "''RUN_DEADLINE_EXCEEDED''"] by simp
      next
        case False
        then have "park_for_retry rid sid (s_next_attempt s) code ?due y = Inr (dec, d')" using * by simp
        then show thesis using park_Inr retry r s True w None False by blast
      qed
    qed
  qed
qed


lemma set_valid_until_simps [simp]:
  "db_runs (set_valid_until sid f d) = db_runs d" "db_attempts (set_valid_until sid f d) = db_attempts d"
  "db_leases (set_valid_until sid f d) = db_leases d" "db_timers (set_valid_until sid f d) = db_timers d"
  "db_cases (set_valid_until sid f d) = db_cases d" "db_events (set_valid_until sid f d) = db_events d"
  "db_stops (set_valid_until sid f d) = db_stops d"
  by (simp_all add: set_valid_until_def)

lemma backfilled_tables:
  assumes "backfilled sid d y"
  shows "db_runs y = db_runs d" "db_attempts y = db_attempts d" "db_leases y = db_leases d" "db_timers y = db_timers d"
    "db_cases y = db_cases d" "db_events y = db_events d" "db_stops y = db_stops d" "find_run y = find_run d"
  using assms by (auto simp: backfilled_def find_run_def fun_eq_iff)

lemma retry_window_covers:
  assumes "retry_window now sid policy (s_valid_until s) d = Inr (None, y)" and "find_step d sid = Some s"
    and "is_idempotent policy"
  shows "\<exists>v s'. find_step y sid = Some s' \<and> s_valid_until s' = Some v \<and>
    \<not> InsufficientIdempotencyWindow now v (TimeoutMs policy)"
proof -
  obtain w where w: "IdempotencyWindowMs policy = Some w"
    using assms by (cases "IdempotencyWindowMs policy") (simp_all add: retry_window_def)
  have id: "s_id s = sid" using find_step_id [OF assms(2)] by simp
  show ?thesis
  proof (cases "s_valid_until s")
    case (Some v)
    then show ?thesis using assms w by (auto simp: retry_window_def split: if_splits)
  next
    case None
    obtain u where u: "deriveIdempotencyDeadlineTx sid w d = Inr (u, y)" "u \<noteq> None"
      "\<not> InsufficientIdempotencyWindow now (the u) (TimeoutMs policy)"
      using assms w None by (cases "deriveIdempotencyDeadlineTx sid w d") (auto simp: retry_window_def split: option.splits if_splits)
    obtain a where a: "first_attempt d sid = Some a"
      using u by (cases "first_attempt d sid") (auto simp: deriveIdempotencyDeadlineTx_def)
    have "u = Some (a_created a + ms_duration w)" "y = set_valid_until sid (a_created a + ms_duration w) d"
      using u(1) a assms(2) None by (simp_all add: deriveIdempotencyDeadlineTx_def Let_def)
    then show ?thesis using u(3) assms(2) None id by (simp add: set_valid_until_def find_step_upd)
  qed
qed


lemma routeD:
  assumes "routeStepToReconciliationTx rid sid aid reason y = Inr d'"
  shows "db_attempts d' = db_attempts y" "db_leases d' = db_leases y" "db_timers d' = db_timers y" "db_stops d' = db_stops y"
    "\<exists>c. db_cases d' = db_cases y @ [c] \<and> c_step c = sid \<and> c_attempt c = aid \<and> c_reason c = reason \<and> c_status c = C_OPEN"
    "find_step d' sid = map_option (\<lambda>s. s\<lparr>s_state := S_WAITING, s_wait := Some ''RECONCILIATION''\<rparr>) (find_step y sid)"
proof -
  define z where "z = upd_runs (\<lambda>r. r_id r = rid \<and> r_status r \<in> {R_QUEUED, R_RUNNING, R_WAITING} \<and>
      live_attempts (upd_steps (\<lambda>s. s_id s = sid) (\<lambda>s. s\<lparr>s_state := S_WAITING, s_wait := Some ''RECONCILIATION''\<rparr>) y) rid = [])
    (\<lambda>r. r\<lparr>r_status := R_WAITING, r_reason := Some ''RECONCILIATION''\<rparr>)
    (upd_steps (\<lambda>s. s_id s = sid) (\<lambda>s. s\<lparr>s_state := S_WAITING, s_wait := Some ''RECONCILIATION''\<rparr>) y)"
  have a: "appendRunEvent rid ''STEP_WAITING'' (insertReconciliationCaseTx sid aid reason z) = Inr d'"
    using assms unfolding routeStepToReconciliationTx_def Let_def z_def .
  note A = appendRunEventD [OF a]
  show "db_attempts d' = db_attempts y" "db_leases d' = db_leases y" "db_timers d' = db_timers y" "db_stops d' = db_stops y"
    "\<exists>c. db_cases d' = db_cases y @ [c] \<and> c_step c = sid \<and> c_attempt c = aid \<and> c_reason c = reason \<and> c_status c = C_OPEN"
    by (simp_all add: A insertReconciliationCaseTx_def z_def)
  have "find_step d' sid = find_step z sid"
    using find_step_append [OF a] by (simp add: find_step_def insertReconciliationCaseTx_def)
  also have "\<dots> = map_option (\<lambda>s. if s_id s = sid then s\<lparr>s_state := S_WAITING, s_wait := Some ''RECONCILIATION''\<rparr> else s) (find_step y sid)"
    by (simp add: z_def find_step_upd)
  also have "\<dots> = map_option (\<lambda>s. s\<lparr>s_state := S_WAITING, s_wait := Some ''RECONCILIATION''\<rparr>) (find_step y sid)"
    by (cases "find_step y sid") (auto dest: find_step_id)
  finally show "find_step d' sid = \<dots>" .
qed

lemma recompute_frame [simp]:
  "db_attempts (recomputeRunStatusForRetryTx rid x) = db_attempts x" "db_leases (recomputeRunStatusForRetryTx rid x) = db_leases x"
  "db_timers (recomputeRunStatusForRetryTx rid x) = db_timers x" "db_stops (recomputeRunStatusForRetryTx rid x) = db_stops x"
  "db_cases (recomputeRunStatusForRetryTx rid x) = db_cases x" "db_steps (recomputeRunStatusForRetryTx rid x) = db_steps x"
  "find_step (recomputeRunStatusForRetryTx rid x) = find_step x"
  by (simp_all add: recomputeRunStatusForRetryTx_def)

lemma parkD:
  assumes "park_for_retry rid sid num code due y = Inr (dec, d')"
  shows "db_attempts d' = db_attempts y" "db_leases d' = db_leases y" "db_cases d' = db_cases y" "db_stops d' = db_stops y"
    "\<exists>t. pending_timer d' ''RETRY_BACKOFF'' sid = Some t \<and>
      find_step d' sid = map_option (\<lambda>s. s\<lparr>s_state := S_WAITING, s_wait := Some ''RETRY_BACKOFF'', s_eligible := Some (t_due t)\<rparr>) (find_step y sid) \<and>
      (case pending_timer y ''RETRY_BACKOFF'' sid of Some u \<Rightarrow> t = u
       | None \<Rightarrow> t_run t = rid \<and> t_number t = Some num \<and> t_due t = due)"
proof -
  obtain due' b z where i: "insert_timer ''RETRY_BACKOFF'' rid sid (Some num) code due y = (due', b, z)"
    by (cases "insert_timer ''RETRY_BACKOFF'' rid sid (Some num) code due y")
  define u where "u = upd_steps (\<lambda>s. s_id s = sid)
      (\<lambda>s. s\<lparr>s_state := S_WAITING, s_wait := Some ''RETRY_BACKOFF'', s_eligible := Some due'\<rparr>) z"
  have a: "appendRunEvent rid ''STEP_WAITING'' (recomputeRunStatusForRetryTx rid u) = Inr d'"
    using assms unfolding park_for_retry_def i prod.case Let_def u_def by (auto dest: holds_ebindD)
  note A = appendRunEventD [OF a]
  show "db_attempts d' = db_attempts y" "db_leases d' = db_leases y" "db_cases d' = db_cases y" "db_stops d' = db_stops y"
    using i by (auto simp: A u_def insert_timer_def split: option.splits)
  obtain t where t: "pending_timer z ''RETRY_BACKOFF'' sid = Some t" "t_due t = due'"
    "case pending_timer y ''RETRY_BACKOFF'' sid of Some u \<Rightarrow> t = u | None \<Rightarrow> t_run t = rid \<and> t_number t = Some num \<and> t_due t = due"
  proof (cases "pending_timer y ''RETRY_BACKOFF'' sid")
    case (Some v)
    then show thesis using i that by (simp add: insert_timer_def)
  next
    case None
    then have "pending_timer z ''RETRY_BACKOFF'' sid = Some \<lparr> t_id = db_next y, t_kind = ''RETRY_BACKOFF'', t_ref = sid, t_run = rid, t_step = sid,
              t_number = Some num, t_reason = code, t_due = due, t_state = T_PENDING \<rparr>"
      using i by (auto simp: insert_timer_def pending_timer_def find_append)
    then show thesis using that None i by (simp add: insert_timer_def)
  qed
  have "find_step d' sid = find_step u sid" using find_step_append [OF a] by simp
  also have "\<dots> = map_option (\<lambda>s. if s_id s = sid then s\<lparr>s_state := S_WAITING, s_wait := Some ''RETRY_BACKOFF'', s_eligible := Some due'\<rparr> else s) (find_step y sid)"
    using insert_timer_steps(1) [OF i] by (simp add: u_def find_step_upd) (simp add: find_step_def)
  also have "\<dots> = map_option (\<lambda>s. s\<lparr>s_state := S_WAITING, s_wait := Some ''RETRY_BACKOFF'', s_eligible := Some due'\<rparr>) (find_step y sid)"
    by (cases "find_step y sid") (auto dest: find_step_id)
  finally show "\<exists>t. pending_timer d' ''RETRY_BACKOFF'' sid = Some t \<and>
      find_step d' sid = map_option (\<lambda>s. s\<lparr>s_state := S_WAITING, s_wait := Some ''RETRY_BACKOFF'', s_eligible := Some (t_due t)\<rparr>) (find_step y sid) \<and>
      (case pending_timer y ''RETRY_BACKOFF'' sid of Some u \<Rightarrow> t = u
       | None \<Rightarrow> t_run t = rid \<and> t_number t = Some num \<and> t_due t = due)"
    using t by (intro exI [of _ t]) (simp add: pending_timer_def A u_def)
qed


section \<open>Properties of retry scheduling\<close>

text \<open>C6: A failed attempt has one of three outcomes and none of them creates an attempt or touches a
  lease.  Fail writes nothing but possibly the backfilled deadline.  Hold parks the step in
  WAITING/RECONCILIATION behind exactly one new open case that names the failed attempt, and sets no
  timer.  Retry happens only when every guard admits it - the run is not terminal or cancelling, the
  code is retryable, the policy is valid, the outcome is not ambiguous under the reconcile policy, the
  attempt budget is not used up, and an idempotent step's stored deadline covers the claim budget and
  the timeout - and parks the step in WAITING/RETRY_BACKOFF until the due time of its pending timer,
  which a repeated call does not draw again.\<close>

theorem scheduleRetryOrHoldTx_outcome:
  assumes "scheduleRetryOrHoldTx pd j now rid sid aid num policy code retryable effect ra dl d = Inr (dec, d')"
  shows "db_attempts d' = db_attempts d \<and> db_leases d' = db_leases d \<and> db_stops d' = db_stops d \<and>
    (case dec of
       Fail c \<Rightarrow> db_runs d' = db_runs d \<and> db_timers d' = db_timers d \<and> db_cases d' = db_cases d \<and> db_events d' = db_events d
     | Hold \<Rightarrow> db_timers d' = db_timers d \<and>
         (\<exists>c. db_cases d' = db_cases d @ [c] \<and> c_step c = sid \<and> c_attempt c = Some aid \<and> c_status c = C_OPEN) \<and>
         (\<exists>s. find_step d' sid = Some s \<and> s_state s = S_WAITING \<and> s_wait s = Some ''RECONCILIATION'')
     | Retry \<Rightarrow> db_cases d' = db_cases d \<and>
         (\<exists>r s s' t. find_run d rid = Some r \<and> find_step d sid = Some s \<and>
            retry_admitted now policy code retryable effect r s \<and>
            find_step d' sid = Some s' \<and> s_state s' = S_WAITING \<and> s_wait s' = Some ''RETRY_BACKOFF'' \<and>
            pending_timer d' ''RETRY_BACKOFF'' sid = Some t \<and> s_eligible s' = Some (t_due t) \<and>
            (is_idempotent policy \<longrightarrow> (\<exists>v. s_valid_until s' = Some v \<and>
               \<not> InsufficientIdempotencyWindow now v (TimeoutMs policy))) \<and>
            (case pending_timer d ''RETRY_BACKOFF'' sid of
               Some u \<Rightarrow> t = u
             | None \<Rightarrow> t_number t = Some (s_next_attempt s) \<and> t_due t = retry_due pd j now num policy ra \<and>
                 \<not> InsufficientRunDeadline (t_due t) (TimeoutMs policy) (if dl = None then r_deadline r else dl))))"
  using assms
proof (cases rule: scheduleRetryOrHoldTx_cases)
  case (fail c)
  then show ?thesis using backfilled_tables [OF fail(2)] by simp
next
  case (hold reason y)
  have "find_step d sid \<noteq> None"
    using assms by (cases "find_run d rid"; cases "find_step d sid") (simp_all add: scheduleRetryOrHoldTx_def)
  then obtain s where "find_step y sid = Some s"
    using hold(2) by (auto simp: backfilled_def set_valid_until_def find_step_upd)
  then show ?thesis using hold(1) routeD [OF hold(3)] backfilled_tables [OF hold(2)] by auto
next
  case (retry r s y due)
  note b = backfilled_tables [OF retry_window_backfilled [OF retry(5)]]
  have p: "pending_timer y = pending_timer d" by (simp add: pending_timer_def b fun_eq_iff)
  obtain t where t: "pending_timer d' ''RETRY_BACKOFF'' sid = Some t"
    "find_step d' sid = map_option (\<lambda>s. s\<lparr>s_state := S_WAITING, s_wait := Some ''RETRY_BACKOFF'', s_eligible := Some (t_due t)\<rparr>) (find_step y sid)"
    "case pending_timer d ''RETRY_BACKOFF'' sid of Some u \<Rightarrow> t = u
       | None \<Rightarrow> t_run t = rid \<and> t_number t = Some (s_next_attempt s) \<and> t_due t = due"
    using parkD(5) [OF retry(8)] unfolding p by blast
  have "find_step y sid \<noteq> None"
    using retry(3) retry_window_backfilled [OF retry(5)] by (auto simp: backfilled_def set_valid_until_def find_step_upd)
  then obtain q where q: "find_step y sid = Some q" by blast
  have "is_idempotent policy \<longrightarrow> (\<exists>v. s_valid_until q = Some v \<and> \<not> InsufficientIdempotencyWindow now v (TimeoutMs policy))"
    using retry_window_covers [OF retry(5,3)] q by auto
  then show ?thesis
    using t q retry(1-4,6,7) parkD(1-4) [OF retry(8)] b
    by (cases "pending_timer d ''RETRY_BACKOFF'' sid") simp_all
qed

definition sample_policy :: RetryPolicy where
  "sample_policy = \<lparr> MaxAttempts = 3, InitialDelayMs = 0, MaxDelayMs = 30000, TimeoutMs = 1000,
     Recovery = ''idempotent'', IdempotencyWindowMs = Some 3600000 \<rparr>"

theorem scheduleRetryOrHoldTx_outcome_witness:
  "\<exists>d' t. scheduleRetryOrHoldTx (\<lambda>_. None) (1 / 2) 1000 1 11 21 1 sample_policy ''NETWORK'' True ''NOT_APPLIED'' [] None sample_db
       = Inr (Retry, d') \<and> db_attempts d' = db_attempts sample_db \<and> pending_timer d' ''RETRY_BACKOFF'' 11 = Some t"
proof -
  have c: "case scheduleRetryOrHoldTx (\<lambda>_. None) (1 / 2) 1000 1 11 21 1 sample_policy ''NETWORK'' True ''NOT_APPLIED'' [] None sample_db of
      Inl _ \<Rightarrow> False | Inr (Retry, _) \<Rightarrow> True | Inr _ \<Rightarrow> False" by code_simp
  then obtain d' where d': "scheduleRetryOrHoldTx (\<lambda>_. None) (1 / 2) 1000 1 11 21 1 sample_policy ''NETWORK'' True ''NOT_APPLIED'' [] None sample_db
      = Inr (Retry, d')" by (auto split: sum.splits decision.splits)
  from scheduleRetryOrHoldTx_outcome [OF this] d' show ?thesis by auto
qed

section \<open>Firing retry timers\<close>

text \<open>How the rows of a state relate to those before a firing transaction.\<close>

definition may_fire :: "time \<Rightarrow> db \<Rightarrow> uid \<Rightarrow> bool" where
  "may_fire now d rid \<longleftrightarrow> (\<exists>r. find_run d rid = Some r \<and> CanFireRetry (r_status r) (text_or_empty (r_reason r)) \<and>
     \<not> past_deadline now (r_deadline r))"

definition timer_fired :: "time \<Rightarrow> db \<Rightarrow> timer_row \<Rightarrow> timer_row \<Rightarrow> bool" where
  "timer_fired now d t t' \<longleftrightarrow> t' = t \<or>
     t_kind t = ''RETRY_BACKOFF'' \<and> t_state t = T_PENDING \<and> t_due t \<le> now \<and> may_fire now d (t_run t) \<and> t' = t\<lparr>t_state := T_FIRED\<rparr>"

definition step_released :: "time \<Rightarrow> db \<Rightarrow> step_row \<Rightarrow> step_row \<Rightarrow> bool" where
  "step_released now d s s' \<longleftrightarrow> s' = s \<or>
     s_state s = S_WAITING \<and> s_wait s = Some ''RETRY_BACKOFF'' \<and>
     (\<exists>t \<in> set (db_timers d). t_kind t = ''RETRY_BACKOFF'' \<and> t_state t = T_PENDING \<and> t_due t \<le> now \<and> t_step t = s_id s \<and>
        s' = s\<lparr>s_state := S_READY, s_wait := None, s_eligible := Some (t_due t)\<rparr>)"

definition run_released :: "run_row \<Rightarrow> run_row \<Rightarrow> bool" where
  "run_released r r' \<longleftrightarrow> r_id r' = r_id r \<and> r_deadline r' = r_deadline r \<and>
     (r_status r' = r_status r \<and> r_reason r' = r_reason r \<or>
      r_status r = R_WAITING \<and> r_reason r = Some ''RETRY_BACKOFF'' \<and> r_status r' \<in> {R_RUNNING, R_QUEUED} \<and> r_reason r' = None)"

definition fired_count :: "db \<Rightarrow> nat" where
  "fired_count d = length (filter (\<lambda>t. t_state t = T_FIRED) (db_timers d))"

definition fired_from :: "time \<Rightarrow> db \<Rightarrow> nat \<times> uid list \<times> db \<Rightarrow> bool" where
  "fired_from now d st \<longleftrightarrow> (case st of (n, aff, x) \<Rightarrow>
     step_ok d x \<and> db_attempts x = db_attempts d \<and> list_all2 (timer_fired now d) (db_timers d) (db_timers x) \<and>
     list_all2 (step_released now d) (db_steps d) (db_steps x) \<and> list_all2 run_released (db_runs d) (db_runs x) \<and>
     fired_count x = fired_count d + n)"

lemma list_all2_upd:
  assumes "list_all2 R xs ys" and "\<And>x y. x \<in> set xs \<Longrightarrow> y \<in> set ys \<Longrightarrow> R x y \<Longrightarrow> P y \<Longrightarrow> R x (f y)"
  shows "list_all2 R xs (upd P f ys)"
  using assms by (induction rule: list_all2_induct) (auto simp: upd_def)

lemma count_fired:
  assumes "distinct (map t_id ts)" and "List.find (\<lambda>t. t_id t = i) ts = Some t" and "t_state t = T_PENDING"
  shows "length (filter (\<lambda>t. t_state t = T_FIRED) (upd (\<lambda>t. t_id t = i \<and> t_state t = T_PENDING) (\<lambda>t. t\<lparr>t_state := T_FIRED\<rparr>) ts)) =
    Suc (length (filter (\<lambda>t. t_state t = T_FIRED) ts))"
  using assms
proof (induction ts)
  case (Cons u ts)
  show ?case
  proof (cases "t_id u = i")
    case True
    then have "upd (\<lambda>t. t_id t = i \<and> t_state t = T_PENDING) (\<lambda>t. t\<lparr>t_state := T_FIRED\<rparr>) ts = ts"
      using Cons.prems(1) by (intro upd_none) (auto simp: image_iff)
    then show ?thesis using Cons.prems True by (simp add: upd_def)
  qed (use Cons in \<open>simp add: upd_def\<close>)
qed simp

lemma list_all2_find:
  assumes "list_all2 R xs ys" and "\<And>x y. R x y \<Longrightarrow> k y = k x"
  shows "rel_option R (List.find (\<lambda>x. k x = i) xs) (List.find (\<lambda>y. k y = i) ys)"
  using assms(1) by (induction rule: list_all2_induct) (auto dest: assms(2))

lemma find_distinct: "distinct (map k xs) \<Longrightarrow> x \<in> set xs \<Longrightarrow> List.find (\<lambda>y. k y = k x) xs = Some x"
  by (induction xs) (auto simp: image_iff)

lemma fire_retry_timer_Inr:
  assumes "fire_retry_timer now c (n, aff, x) = Inr st"
  obtains "st = (n, aff, x)"
  | r s t y where "find_run x (t_run c) = Some r" and "find_step x (t_step c) = Some s" and "find_timer x (t_id c) = Some t"
      and "t_state t = T_PENDING" and "t_due t \<le> now" and "CanFireRetry (r_status r) (text_or_empty (r_reason r))"
      and "\<not> past_deadline now (r_deadline r)"
      and "appendRunEvent (t_run c) ''STEP_READY'' (release_retry c (t_due t) x) = Inr y"
      and "\<exists>aff'. st = (n + 1, aff', y)"
proof (cases "find_run x (t_run c) = None \<or> find_step x (t_step c) = None \<or> find_timer x (t_id c) = None")
  case True
  then have "fire_retry_timer now c (n, aff, x) = Inr (n, aff, x)"
    by (auto simp: fire_retry_timer_def split: option.splits)
  then show thesis using that(1) assms by simp
next
  case False
  then obtain r s t where f: "find_run x (t_run c) = Some r" "find_step x (t_step c) = Some s" "find_timer x (t_id c) = Some t"
    by auto
  define b where "b \<longleftrightarrow> t_state t = T_PENDING \<and> t_due t \<le> now \<and> s_state s = S_WAITING \<and> s_wait s = Some ''RETRY_BACKOFF'' \<and>
      CanFireRetry (r_status r) (text_or_empty (r_reason r)) \<and> \<not> past_deadline now (r_deadline r)"
  show thesis
  proof (cases b)
    case True
    then have *: "ebind (appendRunEvent (t_run c) ''STEP_READY'' (release_retry c (t_due t) x)) (\<lambda>d.
                Inr (n + 1, if t_run c \<in> set aff then aff else aff @ [t_run c], d)) = Inr st"
      using assms f by (simp add: fire_retry_timer_def b_def)
    then show thesis using that(2) [OF f] True holds_ebindD [OF *] by (auto simp: b_def)
  next
    case False
    then have "fire_retry_timer now c (n, aff, x) = Inr (n, aff, x)"
      using f by (auto simp: fire_retry_timer_def b_def)
    then show thesis using that(1) assms by simp
  qed
qed

lemma CanFire_backoff: "CanFireRetry R_WAITING ''RETRY_BACKOFF''"
  by code_simp

lemma timer_fired_id: "timer_fired now d t t' \<Longrightarrow> t_id t' = t_id t"
  by (auto simp: timer_fired_def)

lemma run_released_id: "run_released r r' \<Longrightarrow> r_id r' = r_id r"
  by (simp add: run_released_def)

lemma fire_retry_timer_fired:
  assumes "fired_from now d (n, aff, x)" and "inv d" and "c \<in> set (db_timers d)"
    and c: "t_kind c = ''RETRY_BACKOFF''" "t_state c = T_PENDING" "t_due c \<le> now"
    and "fire_retry_timer now c (n, aff, x) = Inr st"
  shows "fired_from now d st"
  using assms(7)
proof (cases rule: fire_retry_timer_Inr)
  case 1
  then show ?thesis using assms(1) by simp
next
  case (2 r s t y)
  from 2(9) obtain aff' where st: "st = (n + 1, aff', y)" by blast
  have J: "step_ok d x" "db_attempts x = db_attempts d" "list_all2 (timer_fired now d) (db_timers d) (db_timers x)"
    "list_all2 (step_released now d) (db_steps d) (db_steps x)" "list_all2 run_released (db_runs d) (db_runs x)"
    "fired_count x = fired_count d + n" using assms(1) by (simp_all add: fired_from_def)
  note A = appendRunEventD [OF 2(8)]
  have x: "inv x" using J(1) assms(2) by (simp add: step_ok_def)
  have dist: "distinct (map t_id (db_timers d))" "distinct (map t_id (db_timers x))"
    using assms(2) x by (simp_all add: inv_def ids_ok_def)
  have find_c: "List.find (\<lambda>t. t_id t = t_id c) (db_timers d) = Some c"
    using dist(1) assms(3) by (rule find_distinct)
  have "rel_option (timer_fired now d) (List.find (\<lambda>t. t_id t = t_id c) (db_timers d)) (List.find (\<lambda>t. t_id t = t_id c) (db_timers x))"
    by (rule list_all2_find [OF J(3)]) (rule timer_fired_id)
  then have tc: "t = c" using 2(3,4) find_c by (simp add: find_timer_def) (auto simp: timer_fired_def)
  have mf: "may_fire now d (t_run c)"
  proof -
    have "rel_option run_released (List.find (\<lambda>r. r_id r = t_run c) (db_runs d)) (List.find (\<lambda>r. r_id r = t_run c) (db_runs x))"
      by (rule list_all2_find [OF J(5)]) (rule run_released_id)
    then obtain r0 where r0: "find_run d (t_run c) = Some r0" "run_released r0 r"
      using 2(1) by (simp add: find_run_def option_rel_Some2) blast
    then show ?thesis using 2(6,7) CanFire_backoff by (auto simp: may_fire_def run_released_def text_or_empty_def)
  qed
  have "list_all2 (timer_fired now d) (db_timers d) (db_timers y)"
    unfolding A(5) release_retry_def Let_def fire_timer_def upd_runs_simps upd_steps_simps upd_timers_simps
  proof (rule list_all2_upd [OF J(3)])
    fix u u' assume u: "u \<in> set (db_timers d)" "timer_fired now d u u'" "t_id u' = t_id c \<and> t_state u' = T_PENDING"
    have "u' = u \<or> u' = u\<lparr>t_state := T_FIRED\<rparr>" using u(2) unfolding timer_fired_def by blast
    then have e: "u' = u" using u(3) by (elim disjE) simp_all
    then have "t_id u = t_id c" using u(3) by simp
    then have "u = c" using find_distinct [OF dist(1) u(1)] find_c by (metis option.inject)
    with e show "timer_fired now d u (u'\<lparr>t_state := T_FIRED\<rparr>)" using c mf by (simp add: timer_fired_def)
  qed
  moreover have "list_all2 (step_released now d) (db_steps d) (db_steps y)"
    unfolding A(2) release_retry_def Let_def fire_timer_def upd_runs_simps upd_steps_simps upd_timers_simps
  proof (rule list_all2_upd [OF J(4)])
    fix u u' assume u: "step_released now d u u'" "s_id u' = t_step c \<and> s_state u' = S_WAITING \<and> s_wait u' = Some ''RETRY_BACKOFF''"
    then have "u' = u" unfolding step_released_def by (elim disjE conjE bexE) simp_all
    then show "step_released now d u (u'\<lparr>s_state := S_READY, s_wait := None, s_eligible := Some (t_due t)\<rparr>)"
      using c assms(3) u(2) tc by (auto simp: step_released_def)
  qed
  moreover have "list_all2 run_released (db_runs d) (db_runs y)"
    unfolding A(1) release_retry_def Let_def fire_timer_def upd_runs_simps upd_steps_simps upd_timers_simps
    by (intro list_all2_upd [OF list_all2_upd [OF J(5)]]) (auto simp: run_released_def)
  moreover have "fired_count y = Suc (fired_count x)"
    using count_fired [OF dist(2) 2(3) [unfolded find_timer_def] 2(4)]
    by (simp add: fired_count_def A(5) release_retry_def Let_def fire_timer_def)
  moreover have "db_attempts y = db_attempts d" using J(2) by (simp add: A(3) release_retry_def Let_def fire_timer_def)
  moreover have "step_ok d y" using step_ok_appendRunEvent [OF release_retry_ok [OF J(1)]] 2(8) by (auto simp: holds_def)
  ultimately show ?thesis using J(6) st by (simp add: fired_from_def)
qed

lemma efold_count:
  assumes "\<And>x s s'. f x s = Inr s' \<Longrightarrow> m s' \<le> Suc (m s)" and "efold f xs s = Inr s'"
  shows "m s' \<le> m s + length xs"
  using assms(2)
proof (induction xs arbitrary: s)
  case (Cons x xs)
  then obtain u where u: "f x s = Inr u" "efold f xs u = Inr s'" by (cases "f x s") auto
  then show ?case using Cons.IH [OF u(2)] assms(1) [OF u(1)] by simp
qed simp

lemma due_timersD:
  "c \<in> set (due_timers now kind d) \<Longrightarrow> c \<in> set (db_timers d) \<and> t_kind c = kind \<and> t_state c = T_PENDING \<and> t_due c \<le> now"
  by (auto simp: due_timers_def dest: in_set_takeD)



end
