(* ===== verification/Dag_Evaluator.thy ===== *)
theory Dag_Evaluator
  imports Retry_Scheduler Contract_Schema Graph_Relations
begin

text \<open>
  The evaluation of a run's graph (\<open>internal/execution/worker_engine.go\<close>, \<open>approval.go\<close>): which
  blocked steps become READY, SKIPPED, SUCCEEDED or WAITING once their dependencies are settled,
  repeated until nothing changes, and the settlement of a run whose steps are all terminal.  The
  evaluator keeps a local copy of the steps beside the stored rows, as the code does, and every
  update of a row is conditional on the row still being BLOCKED.
\<close>

section \<open>Local state\<close>

record dagEvalStep =
  de_id :: uid
  de_state :: StepStatus

record dag_state =
  g_db :: db
  g_steps :: "(string \<times> dagEvalStep) list"
  g_outputs :: "(string \<times> json) list"
  g_transitions :: nat
  g_changed :: bool

text \<open>The two ways an evaluation goes on: the run was failed and the evaluation returns, or not.\<close>

datatype dag_result = Going (going: dag_state) | RunFailed dag_state

definition put :: "'k \<Rightarrow> 'v \<Rightarrow> ('k \<times> 'v) list \<Rightarrow> ('k \<times> 'v) list" where
  "put k v m = (if k \<in> set (keys m) then map (\<lambda>p. if fst p = k then (k, v) else p) m else m @ [(k, v)])"

definition set_state :: "string \<Rightarrow> StepStatus \<Rightarrow> dag_state \<Rightarrow> dag_state" where
  "set_state nodeID st g =
     g\<lparr>g_steps := map (\<lambda>p. if fst p = nodeID then (nodeID, (snd p)\<lparr>de_state := st\<rparr>) else p) (g_steps g)\<rparr>"

definition state_of :: "dag_state \<Rightarrow> string \<Rightarrow> StepStatus option" where
  "state_of g nodeID = map_option de_state (map_of (g_steps g) nodeID)"

definition node_graph :: "workflowManifest \<Rightarrow> graph" where
  "node_graph w = map (\<lambda>n. (wn_ID n, wn_After n)) (wm_Nodes w)"

section \<open>Branches\<close>

definition getBranchNodes :: "workflowManifest \<Rightarrow> string \<Rightarrow> relation \<Rightarrow> relation \<Rightarrow> (string \<times> string list) list" where
  "getBranchNodes w choiceID anc desc =
     (case List.find (\<lambda>n. wn_Type n = ''merge'' \<and> (case wn_Merge n of None \<Rightarrow> False | Some m \<Rightarrow> mc_Choice m = choiceID)) (wm_Nodes w) of
        None \<Rightarrow> []
      | Some mergeNode \<Rightarrow>
          (case wn_Merge mergeNode of
             None \<Rightarrow> []
           | Some m \<Rightarrow>
               fold (\<lambda>b. put (mb_Branch b)
                   (filter (\<lambda>nid. nid \<noteq> choiceID \<and> nid \<noteq> wn_ID mergeNode \<and> (choiceID, nid) \<in> set desc \<and>
                        (nid = mb_Terminal b \<or> (mb_Terminal b, nid) \<in> set anc)) (map wn_ID (wm_Nodes w))))
                 (mc_Branches m) []))"

text \<open>The nodes of the branches that were not selected.\<close>

definition unselected_nodes :: "(string \<times> string list) list \<Rightarrow> string \<Rightarrow> string list" where
  "unselected_nodes branches selected = concat (map snd (filter (\<lambda>b. fst b \<noteq> selected) branches))"

text \<open>The branch a choice's committed output names.\<close>

definition selected_branch :: "json option \<Rightarrow> string" where
  "selected_branch out =
     (case out of
        Some (JObj m) \<Rightarrow>
          (case map_of m ''selected'' of
             Some (JStr s) \<Rightarrow> s
           | _ \<Rightarrow> (case map_of m ''branch'' of Some (JStr s) \<Rightarrow> s | _ \<Rightarrow> []))
      | _ \<Rightarrow> [])"

section \<open>Transitions\<close>

definition blocked_row :: "db \<Rightarrow> uid \<Rightarrow> bool" where
  "blocked_row d sid \<longleftrightarrow> (\<exists>s \<in> set (db_steps d). s_id s = sid \<and> s_state s = S_BLOCKED)"

text \<open>\<open>UPDATE run_steps ... AND state='BLOCKED'\<close> followed by the local update and the event; nothing
  happens when no row was affected.\<close>

definition settle_blocked ::
    "uid \<Rightarrow> string \<Rightarrow> uid \<Rightarrow> StepStatus \<Rightarrow> (step_row \<Rightarrow> step_row) \<Rightarrow> string \<Rightarrow> dag_state \<Rightarrow> (bool \<times> dag_state) tx" where
  "settle_blocked runID nodeID sid st f event g =
     (if \<not> blocked_row (g_db g) sid then Inr (False, g)
      else ebind (appendRunEvent runID event
               (upd_steps (\<lambda>s. s_id s = sid \<and> s_state s = S_BLOCKED) (\<lambda>s. (f s)\<lparr>s_state := st\<rparr>) (g_db g))) (\<lambda>d.
             Inr (True, (set_state nodeID st g)\<lparr>g_db := d, g_transitions := g_transitions g + 1, g_changed := True\<rparr>)))"

definition fail_dag :: "time \<Rightarrow> uid \<Rightarrow> uid \<Rightarrow> string \<Rightarrow> dag_state \<Rightarrow> dag_result tx" where
  "fail_dag now runID sid code g =
     ebind (failRunForStepTx now runID sid code None (g_db g)) (\<lambda>d. Inr (RunFailed (g\<lparr>g_db := d\<rparr>)))"

definition go_on :: "(bool \<times> dag_state) tx \<Rightarrow> dag_result tx" where
  "go_on t = ebind t (\<lambda>(_, g). Inr (Going g))"

definition skip_node :: "uid \<Rightarrow> string \<Rightarrow> uid \<Rightarrow> dag_state \<Rightarrow> dag_result tx" where
  "skip_node runID nodeID sid g =
     go_on (settle_blocked runID nodeID sid S_SKIPPED (\<lambda>s. s\<lparr>s_wait := Some ''DEPENDENCY_SKIPPED''\<rparr>) ''STEP_SKIPPED'' g)"

definition deps_met :: "dag_state \<Rightarrow> string list \<Rightarrow> bool" where
  "deps_met g deps \<longleftrightarrow> (\<forall>dep \<in> set deps. state_of g dep = Some S_SUCCEEDED \<or> state_of g dep = Some S_SKIPPED)"

definition dep_skipped :: "dag_state \<Rightarrow> string list \<Rightarrow> bool" where
  "dep_skipped g deps \<longleftrightarrow> (\<exists>dep \<in> set deps. state_of g dep = Some S_SKIPPED)"

text \<open>A control node that succeeds commits its output.\<close>

definition succeed_node :: "externals \<Rightarrow> uid \<Rightarrow> string \<Rightarrow> uid \<Rightarrow> json \<Rightarrow> dag_state \<Rightarrow> (bool \<times> dag_state) tx" where
  "succeed_node c runID nodeID sid out g =
     (case json_Marshal c out of
        None \<Rightarrow> Inl (EngineError ''marshal'')
      | Some _ \<Rightarrow>
          ebind (settle_blocked runID nodeID sid S_SUCCEEDED (\<lambda>s. s\<lparr>s_wait := None, s_output := Some out\<rparr>) ''STEP_SUCCEEDED'' g)
            (\<lambda>(applied, g). Inr (applied, if applied then g\<lparr>g_outputs := put nodeID out (g_outputs g)\<rparr> else g)))"

section \<open>Merge nodes\<close>

definition merge_value :: "mergeBranch \<Rightarrow> json \<Rightarrow> (string \<times> json) list \<Rightarrow> json cresult" where
  "merge_value mb input outputs =
     (if mb_Value mb \<noteq> JNull then MapInput (mb_Value mb) input outputs
      else Inr (case map_of outputs (mb_Terminal mb) of None \<Rightarrow> JNull | Some v \<Rightarrow> v))"

definition commit_merge ::
    "externals \<Rightarrow> time \<Rightarrow> uid \<Rightarrow> json \<Rightarrow> string \<Rightarrow> uid \<Rightarrow> mergeConfig \<Rightarrow> mergeBranch \<Rightarrow> dag_state \<Rightarrow> dag_result tx" where
  "commit_merge c now runID input nodeID sid m mb g =
     (case merge_value mb input (g_outputs g) of
        Inl _ \<Rightarrow> fail_dag now runID sid ''INPUT_MAPPING_ERROR'' g
      | Inr val \<Rightarrow>
          (let mergeOut = JObj [(''branch'', JStr (mb_Branch mb)), (''value'', val)] in
           if mc_OutputSchema m = JNull then fail_dag now runID sid ''INVALID_EXPRESSION'' g
           else (case ValidatePayload c (mc_OutputSchema m) mergeOut of
                   Inl _ \<Rightarrow> fail_dag now runID sid ''SCHEMA_VALIDATION_ERROR'' g
                 | Inr _ \<Rightarrow> go_on (succeed_node c runID nodeID sid mergeOut g))))"

text \<open>The dependencies of a merge that count: not the nodes of unselected branches.\<close>

definition merge_deps :: "workflowManifest \<Rightarrow> relation \<Rightarrow> relation \<Rightarrow> workflowNode \<Rightarrow> mergeConfig \<Rightarrow> string \<Rightarrow> string list" where
  "merge_deps w anc desc n m selected =
     (let unselected = unselected_nodes (getBranchNodes w (mc_Choice m) anc desc) selected @
            map mb_Terminal (filter (\<lambda>b. mb_Branch b \<noteq> selected) (mc_Branches m))
      in filter (\<lambda>dep. dep \<notin> set unselected) (wn_After n))"

definition eval_merge ::
    "externals \<Rightarrow> time \<Rightarrow> uid \<Rightarrow> workflowManifest \<Rightarrow> json \<Rightarrow> relation \<Rightarrow> relation \<Rightarrow> workflowNode \<Rightarrow> uid \<Rightarrow> dag_state \<Rightarrow> dag_result tx" where
  "eval_merge c now runID w input anc desc n sid g =
     (case wn_Merge n of
        None \<Rightarrow> fail_dag now runID sid ''INVALID_EXPRESSION'' g
      | Some m \<Rightarrow>
          (case state_of g (mc_Choice m) of
             None \<Rightarrow> Inr (Going g)
           | Some choiceState \<Rightarrow>
               if choiceState = S_SKIPPED then skip_node runID (wn_ID n) sid g
               else if choiceState \<noteq> S_SUCCEEDED then Inr (Going g)
               else
                 (let selected = selected_branch (map_of (g_outputs g) (mc_Choice m)) in
                  if selected = [] then Inr (Going g)
                  else
                    (case List.find (\<lambda>b. mb_Branch b = selected) (mc_Branches m) of
                       None \<Rightarrow> fail_dag now runID sid ''INVALID_EXPRESSION'' g
                     | Some mb \<Rightarrow>
                         if state_of g (mb_Terminal mb) \<noteq> Some S_SUCCEEDED then Inr (Going g)
                         else
                           (let deps = merge_deps w anc desc n m selected in
                            if \<not> deps_met g deps then Inr (Going g)
                            else if dep_skipped g deps then skip_node runID (wn_ID n) sid g
                            else commit_merge c now runID input (wn_ID n) sid m mb g)))))"

section \<open>Choice nodes\<close>

text \<open>The first conditional branch, in declaration order, whose condition holds; the default only
  when none does.  \<open>Inl\<close> is INVALID_EXPRESSION.\<close>

fun first_match :: "externals \<Rightarrow> json \<Rightarrow> (string \<times> json) list \<Rightarrow> string \<Rightarrow> choiceBranch list \<Rightarrow> unit + string option" where
  "first_match c input outputs defaultName [] = Inr None"
| "first_match c input outputs defaultName (b # bs) =
     (if cb_Name b = defaultName then first_match c input outputs defaultName bs
      else if cb_Condition b = JNull then Inl ()
      else (case EvaluateChoice c (cb_Condition b) input outputs of
              Inl _ \<Rightarrow> Inl ()
            | Inr True \<Rightarrow> Inr (Some (cb_Name b))
            | Inr False \<Rightarrow> first_match c input outputs defaultName bs))"

definition select_branch :: "externals \<Rightarrow> json \<Rightarrow> (string \<times> json) list \<Rightarrow> choiceConfig option \<Rightarrow> unit + string" where
  "select_branch c input outputs cfg =
     (case cfg of
        None \<Rightarrow> Inl ()
      | Some ch \<Rightarrow>
          if cc_Branches ch = [] then Inl ()
          else if cc_Default ch \<noteq> [] \<and> cc_Default ch \<notin> set (map cb_Name (cc_Branches ch)) then Inl ()
          else (case first_match c input outputs (cc_Default ch) (cc_Branches ch) of
                  Inl _ \<Rightarrow> Inl ()
                | Inr (Some b) \<Rightarrow> Inr b
                | Inr None \<Rightarrow> if cc_Default ch \<noteq> [] then Inr (cc_Default ch) else Inl ()))"

definition skip_unselected :: "uid \<Rightarrow> string \<Rightarrow> dag_state \<Rightarrow> dag_state tx" where
  "skip_unselected runID nodeID g =
     (case map_of (g_steps g) nodeID of
        None \<Rightarrow> Inr g
      | Some st \<Rightarrow>
          if de_state st \<noteq> S_BLOCKED then Inr g
          else ebind (settle_blocked runID nodeID (de_id st) S_SKIPPED (\<lambda>s. s\<lparr>s_wait := Some ''BRANCH_NOT_SELECTED''\<rparr>) ''STEP_SKIPPED'' g)
                 (\<lambda>(_, g). Inr g))"

definition eval_choice ::
    "externals \<Rightarrow> time \<Rightarrow> uid \<Rightarrow> workflowManifest \<Rightarrow> json \<Rightarrow> relation \<Rightarrow> relation \<Rightarrow> workflowNode \<Rightarrow> uid \<Rightarrow> dag_state \<Rightarrow> dag_result tx" where
  "eval_choice c now runID w input anc desc n sid g =
     (case select_branch c input (g_outputs g) (wn_Choice n) of
        Inl _ \<Rightarrow> fail_dag now runID sid ''INVALID_EXPRESSION'' g
      | Inr selected \<Rightarrow>
          ebind (succeed_node c runID (wn_ID n) sid (JObj [(''selected'', JStr selected), (''branch'', JStr selected)]) g)
            (\<lambda>(applied, g).
               if \<not> applied then Inr (Going g)
               else ebind (efold (skip_unselected runID)
                             (unselected_nodes (getBranchNodes w (wn_ID n) anc desc) selected) g) (\<lambda>g. Inr (Going g))))"

section \<open>Approval nodes\<close>

definition ApprovalDefaultWaitMs :: int where "ApprovalDefaultWaitMs = 24 * 60 * 60 * 1000"

definition ApprovalMaxWaitMs :: int where "ApprovalMaxWaitMs = 30 * 24 * 60 * 60 * 1000"

definition approvalWaitMs :: "approvalNodeConfig \<Rightarrow> int" where
  "approvalWaitMs cfg =
     (if ap_ExpiresInMs cfg > 0 then (if ap_ExpiresInMs cfg > ApprovalMaxWaitMs then ApprovalMaxWaitMs else ap_ExpiresInMs cfg)
      else ApprovalDefaultWaitMs)"

definition durableWaitReasonForRunTx :: "db \<Rightarrow> uid \<Rightarrow> string" where
  "durableWaitReasonForRunTx d runID =
     (if \<exists>a \<in> set (db_approvals d). p_step a \<in> set (step_ids d runID) \<and> p_status a = P_PENDING then ''APPROVAL''
      else (case sort_key s_id (steps_in d runID [S_WAITING]) of [] \<Rightarrow> [] | s # _ \<Rightarrow> text_or_empty (s_wait s)))"

definition recomputeRunStatusAfterControlTx :: "uid \<Rightarrow> db \<Rightarrow> db tx" where
  "recomputeRunStatusAfterControlTx runID d =
     ebind (get_run d runID) (\<lambda>r.
       if r_status r \<in> {R_SUCCEEDED, R_FAILED, R_CANCELLED, R_CANCELLING} then Inr d
       else if steps_in d runID open_states = [] then Inr d
       else
         (let work = (live_attempts d runID \<noteq> [] \<or> (\<exists>s \<in> set (steps_in d runID [S_READY]). s_kind s = ''task''));
              target = (if work then R_RUNNING else R_WAITING);
              reason = durableWaitReasonForRunTx d runID;
              nextReason = (if work then [] else if reason = [] then ''APPROVAL'' else reason)
          in if r_status r = target \<and> text_or_empty (r_reason r) = nextReason then Inr d
             else Inr (upd_runs (\<lambda>q. r_id q = runID)
                    (\<lambda>q. q\<lparr>r_status := target, r_reason := (if nextReason = [] then None else Some nextReason)\<rparr>) d)))"

text \<open>Whether a request was created, and whether the step was parked for it.\<close>

definition openApprovalTx ::
    "externals \<Rightarrow> time \<Rightarrow> uid \<Rightarrow> json \<Rightarrow> workflowNode \<Rightarrow> uid \<Rightarrow> dag_state \<Rightarrow> (bool \<times> dag_state) tx" where
  "openApprovalTx c now runID input n sid g =
     (case wn_Approval n of
        None \<Rightarrow> ebind (failRunForStepTx now runID sid ''INVALID_MANIFEST'' None (g_db g)) (\<lambda>_. Inl (EngineError ''approval config''))
      | Some cfg \<Rightarrow>
          (case MapInput (if ap_Payload cfg = JNull then JObj [] else ap_Payload cfg) input (g_outputs g) of
             Inl _ \<Rightarrow> ebind (failRunForStepTx now runID sid ''INPUT_MAPPING_ERROR'' None (g_db g)) (\<lambda>d. Inr (False, g\<lparr>g_db := d\<rparr>))
           | Inr resolved \<Rightarrow>
               (case json_Marshal c resolved of
                  None \<Rightarrow> Inl (EngineError ''marshal'')
                | Some _ \<Rightarrow>
                    ebind (get_run (g_db g) runID) (\<lambda>r.
                      let d = g_db g; due = now + approvalWaitMs cfg * 1000000;
                          expires = (case r_deadline r of None \<Rightarrow> due | Some t \<Rightarrow> min due t)
                      in if sid \<in> set (map p_step (db_approvals d)) \<or> find_step d sid = None then Inr (False, g)
                         else
                           (let d = d\<lparr>db_approvals := db_approvals d @ [\<lparr> p_id = db_next d, p_step = sid, p_payload = resolved,
                                  p_status = P_PENDING, p_expires = Some expires, p_decided = None, p_comment = None, p_actor = None,
                                  p_revision = 1 \<rparr>], db_next := db_next d + 1\<rparr>
                            in if \<not> blocked_row d sid then Inr (False, g\<lparr>g_db := d\<rparr>)
                               else ebind (appendRunEvent runID ''APPROVAL_REQUESTED''
                                        (upd_steps (\<lambda>s. s_id s = sid \<and> s_state s = S_BLOCKED)
                                           (\<lambda>s. s\<lparr>s_state := S_WAITING, s_wait := Some ''APPROVAL'', s_eligible := None\<rparr>) d)) (\<lambda>d.
                                      ebind (recomputeRunStatusAfterControlTx runID d) (\<lambda>d.
                                        Inr (True, (set_state (wn_ID n) S_WAITING g)\<lparr>g_db := d\<rparr>))))))))"

definition eval_approval :: "externals \<Rightarrow> time \<Rightarrow> uid \<Rightarrow> json \<Rightarrow> workflowNode \<Rightarrow> uid \<Rightarrow> dag_state \<Rightarrow> dag_result tx" where
  "eval_approval c now runID input n sid g =
     ebind (openApprovalTx c now runID input n sid g) (\<lambda>(created, g).
       Inr (Going (if created then g\<lparr>g_changed := True, g_transitions := g_transitions g + 1\<rparr> else g)))"

section \<open>Delay and task nodes\<close>

definition eval_delay :: "time \<Rightarrow> uid \<Rightarrow> workflowNode \<Rightarrow> uid \<Rightarrow> dag_state \<Rightarrow> dag_result tx" where
  "eval_delay now runID n sid g =
     (case wn_DelayMs n of
        None \<Rightarrow> fail_dag now runID sid ''INVALID_DELAY'' g
      | Some ms \<Rightarrow>
          if ms < 1 \<or> ms > MaxRunLifetimeMs then fail_dag now runID sid ''INVALID_DELAY'' g
          else ebind (scheduleDelayTx now runID sid ms (g_db g)) (\<lambda>(due, inserted, d).
                 let g = (set_state (wn_ID n) S_WAITING g)\<lparr>g_db := d\<rparr> in
                 if \<not> inserted then Inr (Going g)
                 else ebind (appendRunEvent runID ''STEP_WAITING'' d) (\<lambda>d.
                        Inr (Going (g\<lparr>g_db := d, g_transitions := g_transitions g + 1, g_changed := True\<rparr>)))))"

definition task_input_ok :: "externals \<Rightarrow> deploymentManifest \<Rightarrow> string \<Rightarrow> json \<Rightarrow> workflowNode \<Rightarrow> (string \<times> json) list \<Rightarrow> bool" where
  "task_input_ok c m workflowName input n outputs =
     (if wn_Input n = JNull then True
      else (case MapInput (wn_Input n) input outputs of
              Inl _ \<Rightarrow> False
            | Inr mapped \<Rightarrow>
                (let inputSchema = fst (taskSchemas m workflowName (wn_ID n)) in
                 inputSchema = JNull \<or> ValidatePayload c inputSchema mapped = Inr ())))"

definition eval_task ::
    "externals \<Rightarrow> time \<Rightarrow> uid \<Rightarrow> deploymentManifest \<Rightarrow> string \<Rightarrow> json \<Rightarrow> workflowNode \<Rightarrow> uid \<Rightarrow> dag_state \<Rightarrow> dag_result tx" where
  "eval_task c now runID m workflowName input n sid g =
     (if \<not> task_input_ok c m workflowName input n (g_outputs g) then fail_dag now runID sid ''INPUT_MAPPING_ERROR'' g
      else go_on (settle_blocked runID (wn_ID n) sid S_READY (\<lambda>s. s\<lparr>s_wait := None, s_eligible := Some now\<rparr>) ''STEP_READY'' g))"

section \<open>The fixed point\<close>

definition eval_node ::
    "externals \<Rightarrow> time \<Rightarrow> uid \<Rightarrow> deploymentManifest \<Rightarrow> workflowManifest \<Rightarrow> string \<Rightarrow> json \<Rightarrow> relation \<Rightarrow> relation \<Rightarrow> workflowNode \<Rightarrow>
     dag_state \<Rightarrow> dag_result tx" where
  "eval_node c now runID m w workflowName input anc desc n g =
     (case map_of (g_steps g) (wn_ID n) of
        None \<Rightarrow> Inr (Going g)
      | Some st \<Rightarrow>
          if de_state st \<noteq> S_BLOCKED then Inr (Going g)
          else if wn_Type n = ''merge'' then eval_merge c now runID w input anc desc n (de_id st) g
          else if \<not> deps_met g (wn_After n) then Inr (Going g)
          else if dep_skipped g (wn_After n) then skip_node runID (wn_ID n) (de_id st) g
          else if wn_Type n = ''choice'' then eval_choice c now runID w input anc desc n (de_id st) g
          else if wn_Type n = ''approval'' then eval_approval c now runID input n (de_id st) g
          else if wn_Type n = ''delay'' then eval_delay now runID n (de_id st) g
          else eval_task c now runID m workflowName input n (de_id st) g)"

text \<open>One pass over the nodes; it stops at a node that fails the run.\<close>

fun dag_pass :: "(workflowNode \<Rightarrow> dag_state \<Rightarrow> dag_result tx) \<Rightarrow> workflowNode list \<Rightarrow> dag_state \<Rightarrow> dag_result tx" where
  "dag_pass eval [] g = Inr (Going g)"
| "dag_pass eval (n # ns) g =
     ebind (eval n g) (\<lambda>r. case r of Going g \<Rightarrow> dag_pass eval ns g | RunFailed g \<Rightarrow> Inr (RunFailed g))"

definition blocked_count :: "dag_state \<Rightarrow> nat" where
  "blocked_count g = length (filter (\<lambda>p. de_state (snd p) = S_BLOCKED) (g_steps g))"

text \<open>Progress: evaluating a node never blocks a step again, and it reports a change only when the
  number of blocked steps went down.  So the loop ends after at most as many passes as there are
  blocked steps, plus one.\<close>

definition progress :: "dag_state \<Rightarrow> dag_state \<Rightarrow> bool" where
  "progress g g' \<longleftrightarrow> blocked_count g' \<le> blocked_count g \<and>
     (g_changed g' \<longrightarrow> g_changed g \<or> blocked_count g' < blocked_count g)"

lemma progress_refl [simp]: "progress g g"
  by (simp add: progress_def)

lemma progress_trans: "progress a b \<Longrightarrow> progress b c \<Longrightarrow> progress a c"
  by (auto simp: progress_def)

lemma blocked_count_simps [simp]:
  "blocked_count (g\<lparr>g_db := d\<rparr>) = blocked_count g" "blocked_count (g\<lparr>g_outputs := os\<rparr>) = blocked_count g"
  "blocked_count (g\<lparr>g_transitions := n\<rparr>) = blocked_count g" "blocked_count (g\<lparr>g_changed := b\<rparr>) = blocked_count g"
  by (simp_all add: blocked_count_def)

lemma set_state_count:
  assumes "map_of (g_steps g) nid = Some e" and "de_state e = S_BLOCKED" and "st \<noteq> S_BLOCKED"
  shows "blocked_count (set_state nid st g) < blocked_count g"
proof -
  have "length (filter (\<lambda>p. de_state (snd p) = S_BLOCKED) (map (\<lambda>p. if fst p = nid then (nid, (snd p)\<lparr>de_state := st\<rparr>) else p) xs)) \<le>
      length (filter (\<lambda>p. de_state (snd p) = S_BLOCKED) xs)" for xs :: "(string \<times> dagEvalStep) list"
    using assms(3) by (induction xs) auto
  then have "length (filter (\<lambda>p. de_state (snd p) = S_BLOCKED) (map (\<lambda>p. if fst p = nid then (nid, (snd p)\<lparr>de_state := st\<rparr>) else p) xs)) <
      length (filter (\<lambda>p. de_state (snd p) = S_BLOCKED) xs)" if "map_of xs nid = Some e" for xs :: "(string \<times> dagEvalStep) list"
    using that assms(2,3) by (induction xs) (auto split: if_splits simp: less_Suc_eq_le)
  then show ?thesis using assms(1) by (simp add: blocked_count_def set_state_def)
qed

text \<open>The invariant of an evaluation that started at \<open>d0\<close>: the stored state has only moved forward,
  the run can still be failed, and so can every step that is blocked in the local copy.\<close>

definition local_ok :: "uid \<Rightarrow> dag_state \<Rightarrow> bool" where
  "local_ok rid g \<longleftrightarrow> distinct (keys (g_steps g)) \<and> distinct (map (\<lambda>p. de_id (snd p)) (g_steps g)) \<and> run_failable (g_db g) rid \<and>
     (\<forall>p \<in> set (g_steps g). de_state (snd p) = S_BLOCKED \<longrightarrow> step_failable (g_db g) (de_id (snd p)))"

definition dag_inv :: "db \<Rightarrow> uid \<Rightarrow> dag_state \<Rightarrow> bool" where
  "dag_inv d0 rid g \<longleftrightarrow> step_ok d0 (g_db g) \<and> (inv d0 \<longrightarrow> local_ok rid g)"

definition dag_good :: "db \<Rightarrow> uid \<Rightarrow> dag_state \<Rightarrow> dag_result \<Rightarrow> bool" where
  "dag_good d0 rid g r \<longleftrightarrow> (case r of
     Going g' \<Rightarrow> progress g g' \<and> (dag_inv d0 rid g \<longrightarrow> dag_inv d0 rid g')
   | RunFailed g' \<Rightarrow> dag_inv d0 rid g \<longrightarrow> step_ok d0 (g_db g'))"

lemma dag_good_refl [simp]: "dag_good d0 rid g (Going g)"
  by (simp add: dag_good_def)

lemma dag_good_trans: "dag_good d0 rid a (Going b) \<Longrightarrow> dag_good d0 rid b r \<Longrightarrow> dag_good d0 rid a r"
  by (auto simp: dag_good_def intro: progress_trans split: dag_result.splits)

text \<open>The entry a node's evaluation works on.\<close>

definition blocked_entry :: "dag_state \<Rightarrow> string \<Rightarrow> uid \<Rightarrow> bool" where
  "blocked_entry g nid sid \<longleftrightarrow> (\<exists>e. map_of (g_steps g) nid = Some e \<and> de_state e = S_BLOCKED \<and> de_id e = sid)"

lemma blocked_entry_count:
  "blocked_entry g nid sid \<Longrightarrow> st \<noteq> S_BLOCKED \<Longrightarrow> blocked_count (set_state nid st g) < blocked_count g"
  unfolding blocked_entry_def using set_state_count by blast

lemma set_state_simps [simp]:
  "g_db (set_state nid st g) = g_db g" "g_outputs (set_state nid st g) = g_outputs g"
  "g_transitions (set_state nid st g) = g_transitions g" "g_changed (set_state nid st g) = g_changed g"
  "keys (g_steps (set_state nid st g)) = keys (g_steps g)"
  "map (\<lambda>p. de_id (snd p)) (g_steps (set_state nid st g)) = map (\<lambda>p. de_id (snd p)) (g_steps g)"
  by (auto simp: set_state_def)

text \<open>Settling the entry: the other blocked entries have other step ids.\<close>

lemma local_ok_settle:
  assumes "local_ok rid g" and "blocked_entry g nid sid" and "st \<noteq> S_BLOCKED"
    and "g_steps g' = g_steps (set_state nid st g)" and "run_failable (g_db g') rid"
    and "\<And>i. i \<noteq> sid \<Longrightarrow> step_failable (g_db g) i \<Longrightarrow> step_failable (g_db g') i"
  shows "local_ok rid g'"
proof -
  obtain e where e: "map_of (g_steps g) nid = Some e" "de_id e = sid" using assms(2) by (auto simp: blocked_entry_def)
  have "step_failable (g_db g') (de_id (snd p))"
    if p: "p \<in> set (g_steps (set_state nid st g))" "de_state (snd p) = S_BLOCKED" for p
  proof -
    have "p \<in> (\<lambda>r. if fst r = nid then (nid, (snd r)\<lparr>de_state := st\<rparr>) else r) ` set (g_steps g)"
      using p(1) by (simp add: set_state_def)
    then obtain r where r: "r \<in> set (g_steps g)" "p = (if fst r = nid then (nid, (snd r)\<lparr>de_state := st\<rparr>) else r)"
      by (rule imageE)
    have p': "p \<in> set (g_steps g)" "fst p \<noteq> nid"
      using r p(2) assms(3) by (cases "fst r = nid"; simp)+
    have e': "(nid, e) \<in> set (g_steps g)" using e(1) by (rule map_of_SomeD)
    have "inj_on (\<lambda>p. de_id (snd p)) (set (g_steps g))" using assms(1) by (simp add: local_ok_def distinct_map)
    from inj_onD [OF this _ p'(1) e'] have "de_id (snd p) \<noteq> sid" using p'(2) e(2) by auto
    then show ?thesis using assms(1,6) p' p(2) by (auto simp: local_ok_def)
  qed
  then show ?thesis using assms(1,5) unfolding local_ok_def assms(4) set_state_simps by blast
qed

lemma settle_blocked_good:
  assumes "blocked_entry g nid sid" and "st \<noteq> S_BLOCKED"
    and f: "\<And>s. same_step (f s) s"
  shows "holds (\<lambda>(b, g'). dag_good d0 rid g (Going g') \<and> (\<not> b \<longrightarrow> g' = g)) (settle_blocked rid nid sid st f event g)"
  unfolding holds_def
proof (intro allI impI)
  fix q assume q: "settle_blocked rid nid sid st f event g = Inr q"
  show "case q of (b, g') \<Rightarrow> dag_good d0 rid g (Going g') \<and> (\<not> b \<longrightarrow> g' = g)"
  proof (cases "blocked_row (g_db g) sid")
    case False
    then show ?thesis using q by (auto simp: settle_blocked_def)
  next
    case True
    let ?u = "upd_steps (\<lambda>s. s_id s = sid \<and> s_state s = S_BLOCKED) (\<lambda>s. (f s)\<lparr>s_state := st\<rparr>) (g_db g)"
    obtain d where a: "appendRunEvent rid event ?u = Inr d"
      and q': "q = (True, (set_state nid st g)\<lparr>g_db := d, g_transitions := g_transitions g + 1, g_changed := True\<rparr>)"
      using q True by (auto simp: settle_blocked_def)
    have "progress g (snd q)" using blocked_entry_count [OF assms(1,2)] by (simp add: q' progress_def)
    moreover have "dag_inv d0 rid (snd q)" if i: "dag_inv d0 rid g"
    proof -
      have "step_ok d0 ?u" using i f by (intro step_ok_intros) (auto simp: dag_inv_def step_le_def)
      then have "step_ok d0 d" using step_ok_appendRunEvent a by (auto simp: holds_def)
      moreover have "local_ok rid (snd q)" if "inv d0"
      proof (rule local_ok_settle [OF _ assms(1,2)])
        show l: "local_ok rid g" using i that by (simp add: dag_inv_def)
        show "g_steps (snd q) = g_steps (set_state nid st g)" by (simp add: q')
        show "run_failable (g_db (snd q)) rid" using l by (simp add: q' appendRunEvent_at [OF a] local_ok_def)
        show "step_failable (g_db (snd q)) i" if "i \<noteq> sid" "step_failable (g_db g) i" for i
          using that f by (auto simp: q' appendRunEvent_at [OF a] step_at_def ball_upd)
      qed
      ultimately show ?thesis by (simp add: dag_inv_def q')
    qed
    ultimately show ?thesis by (simp add: q' dag_good_def)
  qed
qed

lemma step_ok_trivial: "\<not> inv d \<Longrightarrow> step_ok d x"
  by (simp add: step_ok_def)

lemma blocked_entry_failable: "local_ok rid g \<Longrightarrow> blocked_entry g nid sid \<Longrightarrow> step_failable (g_db g) sid"
  unfolding local_ok_def blocked_entry_def by (auto dest!: map_of_SomeD)

lemma fail_run_entry_ok:
  assumes "dag_inv d0 rid g" and "blocked_entry g nid sid"
  shows "holds (step_ok d0) (failRunForStepTx now rid sid code None (g_db g))"
proof (cases "inv d0")
  case True
  then have "local_ok rid g" using assms(1) by (simp add: dag_inv_def)
  then show ?thesis
    using assms blocked_entry_failable by (intro failRunForStepTx_step_ok) (auto simp: dag_inv_def local_ok_def)
qed (simp add: holds_def step_ok_trivial)

lemma fail_dag_good:
  "blocked_entry g nid sid \<Longrightarrow> holds (dag_good d0 rid g) (fail_dag now rid sid code g)"
  using fail_run_entry_ok by (fastforce simp: fail_dag_def holds_def dag_good_def)

lemma go_on_good:
  "holds (\<lambda>(b, g'). dag_good d0 rid g (Going g') \<and> Q b g') t \<Longrightarrow> holds (dag_good d0 rid g) (go_on t)"
  by (cases t) (auto simp: go_on_def)

lemma skip_node_good:
  "blocked_entry g nid sid \<Longrightarrow> holds (dag_good d0 rid g) (skip_node rid nid sid g)"
  unfolding skip_node_def by (rule go_on_good, rule settle_blocked_good) simp_all

lemma dag_good_outputs: "dag_good d0 rid g (Going g') \<Longrightarrow> dag_good d0 rid g (Going (g'\<lparr>g_outputs := os\<rparr>))"
  by (simp add: dag_good_def progress_def dag_inv_def local_ok_def)

lemma succeed_node_good:
  assumes "blocked_entry g nid sid"
  shows "holds (\<lambda>(b, g'). dag_good d0 rid g (Going g') \<and> (\<not> b \<longrightarrow> g' = g)) (succeed_node c rid nid sid out g)"
proof -
  have *: "holds (\<lambda>(b, g'). dag_good d0 rid g (Going g') \<and> (\<not> b \<longrightarrow> g' = g))
      (settle_blocked rid nid sid S_SUCCEEDED (\<lambda>s. s\<lparr>s_wait := None, s_output := Some out\<rparr>) ''STEP_SUCCEEDED'' g)"
    using assms by (rule settle_blocked_good) simp_all
  show ?thesis unfolding succeed_node_def
    by (auto split: option.split intro!: holds_bind [OF *] dag_good_outputs)
qed

lemma commit_merge_good:
  "blocked_entry g nid sid \<Longrightarrow> holds (dag_good d0 rid g) (commit_merge c now rid input nid sid m mb g)"
  unfolding commit_merge_def Let_def
  by (auto split: sum.split intro: fail_dag_good go_on_good [OF succeed_node_good])

lemma eval_merge_good:
  "blocked_entry g (wn_ID n) sid \<Longrightarrow> holds (dag_good d0 rid g) (eval_merge c now rid w input anc desc n sid g)"
  unfolding eval_merge_def Let_def
  by (auto split: option.split intro: fail_dag_good skip_node_good commit_merge_good)

lemma skip_unselected_good:
  "holds (\<lambda>g'. dag_good d0 rid g (Going g')) (skip_unselected rid nid g)"
proof (cases "map_of (g_steps g) nid")
  case (Some e)
  show ?thesis
  proof (cases "de_state e = S_BLOCKED")
    case True
    then have "blocked_entry g nid (de_id e)" using Some by (simp add: blocked_entry_def)
    from settle_blocked_good [OF this, of S_SKIPPED "\<lambda>s. s\<lparr>s_wait := Some ''BRANCH_NOT_SELECTED''\<rparr>" d0 rid "''STEP_SKIPPED''"]
    show ?thesis using Some True by (auto simp: skip_unselected_def intro!: holds_bind)
  qed (use Some in \<open>simp add: skip_unselected_def\<close>)
qed (simp add: skip_unselected_def)

lemma skip_all_good:
  "holds (\<lambda>g'. dag_good d0 rid g (Going g')) (efold (skip_unselected rid) nids g)"
proof (rule holds_efold)
  fix nid h assume "dag_good d0 rid g (Going h)"
  then show "holds (\<lambda>g'. dag_good d0 rid g (Going g')) (skip_unselected rid nid h)"
    using skip_unselected_good [of d0 rid h nid] by (auto simp: holds_def intro: dag_good_trans)
qed simp

lemma eval_choice_good:
  assumes "blocked_entry g (wn_ID n) sid"
  shows "holds (dag_good d0 rid g) (eval_choice c now rid w input anc desc n sid g)"
proof (cases "select_branch c input (g_outputs g) (wn_Choice n)")
  case (Inr selected)
  have "holds (dag_good d0 rid g) (ebind (efold (skip_unselected rid) nids h) (\<lambda>g. Inr (Going g)))"
    if "dag_good d0 rid g (Going h)" for h nids
    using skip_all_good [of d0 rid h nids] that by (auto simp: holds_def intro: dag_good_trans)
  then show ?thesis
    unfolding eval_choice_def Inr by (auto intro!: holds_bind [OF succeed_node_good [OF assms, of d0 rid]])
qed (use assms in \<open>simp add: eval_choice_def fail_dag_good\<close>)

lemma failRunForStepTx_at:
  assumes "failRunForStepTx now rid sid code actor d = Inr d'" and "Q S_FAILED" and "Q S_CANCELLED" and "step_at Q d i"
  shows "step_at Q d' i"
proof -
  have "db_steps d' = db_steps (upd_steps (\<lambda>s. s_run s = rid \<and> s_id s \<noteq> sid \<and> s_state s \<in> set open_states)
       (\<lambda>s. s\<lparr>s_state := S_CANCELLED, s_wait := None\<rparr>)
       (upd_steps (\<lambda>s. s_id s = sid) (\<lambda>s. s\<lparr>s_state := S_FAILED, s_wait := Some code\<rparr>) d))"
    using failRunForStepTxD(1) [OF assms(1)] by simp
  moreover have "step_at Q (upd_steps (\<lambda>s. s_run s = rid \<and> s_id s \<noteq> sid \<and> s_state s \<in> set open_states)
       (\<lambda>s. s\<lparr>s_state := S_CANCELLED, s_wait := None\<rparr>)
       (upd_steps (\<lambda>s. s_id s = sid) (\<lambda>s. s\<lparr>s_state := S_FAILED, s_wait := Some code\<rparr>) d)) i"
    using assms(2-4) by (intro step_at_keep) simp_all
  ultimately show ?thesis by (simp add: step_at_def)
qed

lemma failRunForStepTx_run_at:
  assumes "inv d'" and "failRunForStepTx now rid sid code actor d = Inr d'"
  shows "run_at Q d' rid \<longleftrightarrow> Q R_FAILED"
  using failRunForStepTx_run(1) [OF assms(2)] find_run_at [OF assms(1)] by metis

lemma recomputeAfterControl_ok [step_ok_intros]:
  "step_ok d x \<Longrightarrow> holds (step_ok d) (recomputeRunStatusAfterControlTx rid x)"
proof (rule holds_step_okI)
  assume i: "inv x"
  show "holds (step_ok x) (recomputeRunStatusAfterControlTx rid x)"
  proof (cases "find_run x rid")
    case (Some r)
    have "step_ok x (upd_runs (\<lambda>q. r_id q = rid) (\<lambda>q. q\<lparr>r_status := t, r_reason := u\<rparr>) x)"
      if "r_status r \<notin> {R_SUCCEEDED, R_FAILED, R_CANCELLED, R_CANCELLING}" for t u
    proof -
      have "run_open x rid" using that find_run_at [OF i Some] by (cases "r_status r") simp_all
      then show ?thesis by (intro step_ok_intros) (auto simp: run_le_def run_at_def)
    qed
    then show ?thesis by (simp add: recomputeRunStatusAfterControlTx_def Some Let_def)
  qed (simp add: recomputeRunStatusAfterControlTx_def)
qed

lemma recomputeAfterControl_at:
  assumes "recomputeRunStatusAfterControlTx rid d = Inr d'" and "Q R_RUNNING" and "Q R_WAITING" and "run_at Q d i"
  shows "run_at Q d' i" and "step_at Q' d' = step_at Q' d"
  using assms by (cases "find_run d rid"; auto simp: recomputeRunStatusAfterControlTx_def Let_def run_at_keep split: if_splits)+

lemma step_ok_new_approval [step_ok_intros]:
  "step_ok d x \<Longrightarrow> step_ok d (x\<lparr>db_approvals := as, db_next := Suc (db_next x)\<rparr>)"
  by (rule step_ok_same) (auto simp: history_def)

lemma fail_run_entry_inv:
  assumes "dag_inv d0 rid g" and "blocked_entry g nid sid"
    and f: "failRunForStepTx now rid sid code None (g_db g) = Inr d"
  shows "dag_inv d0 rid (g\<lparr>g_db := d\<rparr>)"
proof -
  have s: "step_ok d0 d" using fail_run_entry_ok [OF assms(1,2)] f by (simp add: holds_def)
  moreover have "local_ok rid (g\<lparr>g_db := d\<rparr>)" if "inv d0"
  proof -
    have "local_ok rid g" "inv d" using assms(1) s that by (simp_all add: dag_inv_def step_ok_def)
    then show ?thesis
      using failRunForStepTx_run_at [OF _ f] failRunForStepTx_at [OF f] by (auto simp: local_ok_def)
  qed
  ultimately show ?thesis by (simp add: dag_inv_def)
qed

text \<open>Parking the step for its approval.\<close>

lemma park_approval_good:
  assumes "blocked_entry g nid sid" and "dag_inv d0 rid g"
    and d1: "d1 = (g_db g)\<lparr>db_approvals := as, db_next := Suc (db_next (g_db g))\<rparr>"
    and a: "appendRunEvent rid event (upd_steps (\<lambda>s. s_id s = sid \<and> s_state s = S_BLOCKED)
        (\<lambda>s. s\<lparr>s_state := S_WAITING, s_wait := Some ''APPROVAL'', s_eligible := None\<rparr>) d1) = Inr d2"
    and r: "recomputeRunStatusAfterControlTx rid d2 = Inr d3"
  shows "dag_inv d0 rid ((set_state nid S_WAITING g)\<lparr>g_db := d3\<rparr>)"
proof -
  have ok: "step_ok d0 (g_db g)" using assms(2) by (simp add: dag_inv_def)
  have "step_ok d0 (upd_steps (\<lambda>s. s_id s = sid \<and> s_state s = S_BLOCKED)
        (\<lambda>s. s\<lparr>s_state := S_WAITING, s_wait := Some ''APPROVAL'', s_eligible := None\<rparr>) d1)" (is "step_ok d0 ?u")
    unfolding d1 by (intro step_ok_intros ok) (auto simp: step_le_def)
  then have "step_ok d0 d2" using step_ok_appendRunEvent a by (auto simp: holds_def)
  then have "step_ok d0 d3" using recomputeAfterControl_ok r by (auto simp: holds_def)
  moreover have "local_ok rid ((set_state nid S_WAITING g)\<lparr>g_db := d3\<rparr>)" if "inv d0"
  proof (rule local_ok_settle [OF _ assms(1), of _ S_WAITING])
    show l: "local_ok rid g" using assms(2) that by (simp add: dag_inv_def)
    have "run_failable (g_db g) rid" using l by (simp add: local_ok_def)
    then have "run_failable d2 rid" by (simp add: appendRunEvent_at [OF a] d1 run_at_def)
    then show "run_failable (g_db ((set_state nid S_WAITING g)\<lparr>g_db := d3\<rparr>)) rid"
      using recomputeAfterControl_at(1) [OF r, of "\<lambda>q. q \<notin> {R_SUCCEEDED, R_CANCELLED}" rid] by simp
    show "step_failable (g_db ((set_state nid S_WAITING g)\<lparr>g_db := d3\<rparr>)) i" if "i \<noteq> sid" "step_failable (g_db g) i" for i
    proof -
      have "step_failable ?u i" using that by (auto simp: d1 step_at_def ball_upd)
      then show ?thesis
        using recomputeAfterControl_at(2) [OF r, of "\<lambda>_. True"] appendRunEvent_at(2) [OF a]
        by (simp add: run_at_def)
    qed
  qed simp_all
  ultimately show ?thesis by (simp add: dag_inv_def)
qed

lemma openApprovalTx_good:
  assumes "blocked_entry g (wn_ID n) sid"
  shows "holds (\<lambda>(b, g'). (dag_inv d0 rid g \<longrightarrow> dag_inv d0 rid g') \<and> g_changed g' = g_changed g \<and>
      (if b then blocked_count g' < blocked_count g else blocked_count g' = blocked_count g))
    (openApprovalTx c now rid input n sid g)"
proof (cases "wn_Approval n")
  case None
  then show ?thesis by (auto simp: openApprovalTx_def holds_def)
next
  case (Some cfg)
  show ?thesis
  proof (cases "MapInput (if ap_Payload cfg = JNull then JObj [] else ap_Payload cfg) input (g_outputs g)")
    case (Inl e)
    then show ?thesis using Some fail_run_entry_inv [OF _ assms] by (auto simp: openApprovalTx_def holds_def)
  next
    case (Inr resolved)
    let ?as = "\<lambda>e. db_approvals (g_db g) @ [\<lparr> p_id = db_next (g_db g), p_step = sid, p_payload = resolved,
         p_status = P_PENDING, p_expires = Some e, p_decided = None, p_comment = None, p_actor = None, p_revision = 1 \<rparr>]"
    have ok: "dag_inv d0 rid (g\<lparr>g_db := (g_db g)\<lparr>db_approvals := as, db_next := Suc (db_next (g_db g))\<rparr>\<rparr>)"
      if "dag_inv d0 rid g" for as
      using that by (auto simp: dag_inv_def local_ok_def run_at_def step_at_def intro: step_ok_intros)
    show ?thesis
      using Some Inr ok park_approval_good [OF assms _ refl] blocked_entry_count [OF assms, of S_WAITING]
      by (auto simp: openApprovalTx_def holds_def Let_def split: option.splits if_splits)
  qed
qed

lemma dag_inv_simps [simp]:
  "dag_inv d0 rid (g\<lparr>g_outputs := os\<rparr>) = dag_inv d0 rid g" "dag_inv d0 rid (g\<lparr>g_transitions := n\<rparr>) = dag_inv d0 rid g"
  "dag_inv d0 rid (g\<lparr>g_changed := b\<rparr>) = dag_inv d0 rid g"
  by (simp_all add: dag_inv_def local_ok_def)

lemma eval_approval_good:
  assumes "blocked_entry g (wn_ID n) sid"
  shows "holds (dag_good d0 rid g) (eval_approval c now rid input n sid g)"
  unfolding eval_approval_def
  by (rule holds_bind [OF openApprovalTx_good [OF assms, of d0 rid]])
    (auto simp: dag_good_def progress_def split: if_splits)

lemma scheduleDelayTx_at:
  assumes "scheduleDelayTx now rid sid ms d = Inr (due, b, d')"
  shows "run_failable d i \<Longrightarrow> run_failable d' i" and "step_failable d j \<Longrightarrow> step_failable d' j"
proof -
  obtain due' b' x where i: "insert_timer ''DELAY'' rid sid None ''DELAY'' (now + ms * 1000000) d = (due', b', x)"
    by (cases "insert_timer ''DELAY'' rid sid None ''DELAY'' (now + ms * 1000000) d")
  let ?y = "upd_steps (\<lambda>s. s_id s = sid \<and> s_state s = S_BLOCKED)
      (\<lambda>s. s\<lparr>s_state := S_WAITING, s_wait := Some ''DELAY'', s_eligible := Some due'\<rparr>) x"
  have d': "d' = ?y \<or> d' = recomputeRunStatusForDelayTx rid ?y"
    using assms unfolding scheduleDelayTx_def i prod.case Let_def by (auto split: if_splits)
  have r: "run_failable (recomputeRunStatusForDelayTx rid z) i" if "run_failable z i" for z
    using that by (auto simp: recomputeRunStatusForDelayTx_def intro!: run_at_keep)
  have s: "step_at Q (recomputeRunStatusForDelayTx rid z) = step_at Q z" for z Q
    by (simp add: recomputeRunStatusForDelayTx_def)
  have "run_failable ?y i" if "run_failable d i"
    using that insert_timer_steps(2) [OF i] by (simp add: run_at_def)
  then show "run_failable d i \<Longrightarrow> run_failable d' i" using d' r by blast
  have "step_failable d' j = step_failable ?y j" using d' s [of _ ?y] by (elim disjE) simp_all
  moreover have "step_failable ?y j" if "step_failable d j"
    using that insert_timer_steps(5) [OF i] by (intro step_at_keep) simp_all
  ultimately show "step_failable d j \<Longrightarrow> step_failable d' j" by blast
qed

lemma local_ok_state:
  assumes "local_ok rid g" and "blocked_entry g nid sid" and "st \<noteq> S_BLOCKED" and "g_steps g' = g_steps (set_state nid st g)"
    and "run_failable (g_db g) rid \<Longrightarrow> run_failable (g_db g') rid"
    and "\<And>i. step_failable (g_db g) i \<Longrightarrow> step_failable (g_db g') i"
  shows "local_ok rid g'"
  using assms by (intro local_ok_settle [OF assms(1-4)]) (simp_all add: local_ok_def)

lemma eval_delay_good:
  assumes "blocked_entry g (wn_ID n) sid"
  shows "holds (dag_good d0 rid g) (eval_delay now rid n sid g)"
proof (cases "\<exists>ms. wn_DelayMs n = Some ms \<and> \<not> (ms < 1 \<or> ms > MaxRunLifetimeMs)")
  case False
  then show ?thesis using fail_dag_good [OF assms] by (auto simp: eval_delay_def split: option.split)
next
  case True
  then obtain ms where ms: "wn_DelayMs n = Some ms" "\<not> (ms < 1 \<or> ms > MaxRunLifetimeMs)" by blast
  have count: "blocked_count (set_state (wn_ID n) S_WAITING g) < blocked_count g"
    using blocked_entry_count [OF assms] by simp
  have inv: "dag_inv d0 rid ((set_state (wn_ID n) S_WAITING g)\<lparr>g_db := d\<rparr>)"
    if s: "scheduleDelayTx now rid sid ms (g_db g) = Inr (due, b, d1)" and g: "dag_inv d0 rid g" and d: "step_ok d0 d"
      and at: "run_failable d = run_failable d1" "step_failable d = step_failable d1" for due b d1 d
  proof -
    have "local_ok rid ((set_state (wn_ID n) S_WAITING g)\<lparr>g_db := d\<rparr>)" if "inv d0"
      by (rule local_ok_state [OF _ assms, of _ S_WAITING])
        (use g that scheduleDelayTx_at [OF s] at in \<open>simp_all add: dag_inv_def\<close>)
    then show ?thesis using d by (simp add: dag_inv_def)
  qed
  have good: "dag_good d0 rid g (Going g')"
    if s: "scheduleDelayTx now rid sid ms (g_db g) = Inr (due, b, d1)"
      and g': "g' = (set_state (wn_ID n) S_WAITING g)\<lparr>g_db := d1\<rparr> \<or>
        (\<exists>d k. appendRunEvent rid ''STEP_WAITING'' d1 = Inr d \<and> g' = (set_state (wn_ID n) S_WAITING g)\<lparr>g_db := d, g_transitions := k, g_changed := True\<rparr>)"
    for due b d1 g'
  proof -
    have "progress g g'" using g' count by (auto simp: progress_def)
    moreover have "dag_inv d0 rid g'" if g: "dag_inv d0 rid g"
    proof -
      have "step_ok d0 d1" using scheduleDelayTx_ok [of d0 "g_db g"] g s by (auto simp: dag_inv_def holds_def)
      then have "step_ok d0 d" if "appendRunEvent rid ''STEP_WAITING'' d1 = Inr d" for d
        using step_ok_appendRunEvent that by (auto simp: holds_def)
      then show ?thesis using g' inv [OF s g] \<open>step_ok d0 d1\<close> appendRunEvent_at by auto
    qed
    ultimately show ?thesis by (simp add: dag_good_def)
  qed
  have "dag_good d0 rid g (Going ((set_state (wn_ID n) S_WAITING g)\<lparr>g_db := d1\<rparr>))"
    "appendRunEvent rid ''STEP_WAITING'' d1 = Inr d \<Longrightarrow>
      dag_good d0 rid g (Going ((set_state (wn_ID n) S_WAITING g)\<lparr>g_db := d, g_transitions := k, g_changed := True\<rparr>))"
    if "scheduleDelayTx now rid sid ms (g_db g) = Inr (due, b, d1)" for due b d1 d k
    using good [OF that] by blast+
  then show ?thesis
    using ms by (auto simp: eval_delay_def holds_def Let_def split: if_splits)
qed

lemma eval_task_good:
  "blocked_entry g (wn_ID n) sid \<Longrightarrow> holds (dag_good d0 rid g) (eval_task c now rid m name input n sid g)"
  unfolding eval_task_def by (auto intro!: fail_dag_good go_on_good [OF settle_blocked_good])

lemma eval_node_good: "holds (dag_good d0 rid g) (eval_node c now rid m w name input anc desc n g)"
proof (cases "map_of (g_steps g) (wn_ID n)")
  case (Some e)
  show ?thesis
  proof (cases "de_state e = S_BLOCKED")
    case True
    then have b: "blocked_entry g (wn_ID n) (de_id e)" using Some by (simp add: blocked_entry_def)
    show ?thesis
      using Some True by (simp add: eval_node_def eval_merge_good [OF b] skip_node_good [OF b] eval_choice_good [OF b]
        eval_approval_good [OF b] eval_delay_good [OF b] eval_task_good [OF b])
  qed (use Some in \<open>simp add: eval_node_def\<close>)
qed (simp add: eval_node_def)

lemma dag_pass_good:
  assumes "\<And>n g. holds (dag_good d0 rid g) (eval n g)"
  shows "holds (dag_good d0 rid g) (dag_pass eval ns g)"
proof (induction ns arbitrary: g)
  case (Cons n ns)
  have "holds (dag_good d0 rid g) (case r of Going h \<Rightarrow> dag_pass eval ns h | RunFailed h \<Rightarrow> Inr (RunFailed h))"
    if "dag_good d0 rid g r" for r
    using that Cons.IH by (cases r) (auto simp: holds_def intro: dag_good_trans)
  then show ?case unfolding dag_pass.simps by (rule holds_bind [OF assms])
qed simp

section \<open>The loop\<close>

text \<open>\<open>for changed := true; changed;\<close>: passes until one changes nothing.\<close>

function dag_loop ::
    "externals \<Rightarrow> time \<Rightarrow> uid \<Rightarrow> deploymentManifest \<Rightarrow> workflowManifest \<Rightarrow> string \<Rightarrow> json \<Rightarrow> relation \<Rightarrow> relation \<Rightarrow> dag_state \<Rightarrow>
     dag_result tx" where
  "dag_loop c now runID m w workflowName input anc desc g =
     (case dag_pass (eval_node c now runID m w workflowName input anc desc) (wm_Nodes w) (g\<lparr>g_changed := False\<rparr>) of
        Inl e \<Rightarrow> Inl e
      | Inr (RunFailed g') \<Rightarrow> Inr (RunFailed g')
      | Inr (Going g') \<Rightarrow>
          if g_changed g' then dag_loop c now runID m w workflowName input anc desc g' else Inr (Going g'))"
  by pat_completeness auto

lemma dag_pass_count:
  assumes "dag_pass (eval_node c now rid m w name input anc desc) ns (g\<lparr>g_changed := False\<rparr>) = Inr (Going g')" and "g_changed g'"
  shows "blocked_count g' < blocked_count g"
  using dag_pass_good [of undefined rid "eval_node c now rid m w name input anc desc" "g\<lparr>g_changed := False\<rparr>" ns] eval_node_good assms
  by (fastforce simp: holds_def dag_good_def progress_def)

termination dag_loop
  by (relation "measure (\<lambda>(c, now, rid, m, w, name, input, anc, desc, g). blocked_count g)") (auto intro: dag_pass_count)

declare dag_loop.simps [simp del]

definition evaluateBlockedDAGTx ::
    "externals \<Rightarrow> time \<Rightarrow> uid \<Rightarrow> string \<Rightarrow> workflowManifest \<Rightarrow> deploymentManifest \<Rightarrow> json \<Rightarrow> (string \<times> dagEvalStep) list \<Rightarrow>
     (string \<times> json) list \<Rightarrow> db \<Rightarrow> dag_result tx" where
  "evaluateBlockedDAGTx c now runID workflowName w m runInput steps outputs d =
     (case buildGraphRelations (node_graph w) of
        None \<Rightarrow> Inl (EngineError ''panic'')
      | Some (anc, desc) \<Rightarrow>
          dag_loop c now runID m w workflowName runInput anc desc
            \<lparr> g_db = d, g_steps = steps, g_outputs = outputs, g_transitions = 0, g_changed = True \<rparr>)"

section \<open>Settling a finished run\<close>

definition MaxInlinePayloadBytes :: int where "MaxInlinePayloadBytes = 262144"

text \<open>\<open>UPDATE runs ... WHERE status NOT IN (terminal)\<close> and the terminal event; the flag says whether a
  row was affected.\<close>

definition terminalize :: "uid \<Rightarrow> (run_row \<Rightarrow> run_row) \<Rightarrow> string \<Rightarrow> db \<Rightarrow> (bool \<times> db) tx" where
  "terminalize runID f event d =
     (if \<not> (\<exists>r \<in> set (db_runs d). r_id r = runID \<and> \<not> run_terminal (r_status r)) then Inr (False, d)
      else ebind (appendRunEvent runID event (upd_runs (\<lambda>r. r_id r = runID \<and> \<not> run_terminal (r_status r)) f d))
             (\<lambda>d. Inr (True, d)))"

definition fail_output :: "uid \<Rightarrow> string \<Rightarrow> db \<Rightarrow> (bool \<times> db) tx" where
  "fail_output runID code = terminalize runID (\<lambda>r. r\<lparr>r_status := R_FAILED, r_reason := Some code\<rparr>) ''RUN_FAILED''"

definition final_output :: "workflowManifest \<Rightarrow> json \<Rightarrow> (string \<times> json) list \<Rightarrow> json \<Rightarrow> json cresult" where
  "final_output w runInput outputs defaultOutput =
     (if wm_Output w \<noteq> JNull then MapInput (wm_Output w) runInput outputs else Inr defaultOutput)"

definition settleRunTerminalTx ::
    "externals \<Rightarrow> uid \<Rightarrow> workflowManifest \<Rightarrow> (string \<times> dagEvalStep) list \<Rightarrow> (string \<times> json) list \<Rightarrow> json \<Rightarrow> json \<Rightarrow> db \<Rightarrow> (bool \<times> db) tx" where
  "settleRunTerminalTx c runID w states outputs runInput defaultOutput d =
     (let st = (\<lambda>n. map_option de_state (map_of states (wn_ID n))) in
      if \<not> (\<forall>n \<in> set (wm_Nodes w). case st n of None \<Rightarrow> False | Some s \<Rightarrow> step_terminal s) then Inr (False, d)
      else if \<forall>n \<in> set (wm_Nodes w). st n = Some S_SUCCEEDED \<or> st n = Some S_SKIPPED then
        (case final_output w runInput outputs defaultOutput of
           Inl _ \<Rightarrow> fail_output runID ''OUTPUT_MAPPING_ERROR'' d
         | Inr out \<Rightarrow>
             if wm_OutputSchema w \<noteq> JNull \<and> ValidatePayload c (wm_OutputSchema w) out \<noteq> Inr ()
             then fail_output runID ''OUTPUT_SCHEMA_VIOLATION'' d
             else (case CanonicalizeGeneric c out of
                     Inl _ \<Rightarrow> Inl ErrPayloadTooLarge
                   | Inr finalJSON \<Rightarrow>
                       if int (length finalJSON) > MaxInlinePayloadBytes then Inl ErrPayloadTooLarge
                       else terminalize runID (\<lambda>r. r\<lparr>r_status := R_SUCCEEDED, r_output := Some out, r_reason := None\<rparr>)
                              ''RUN_COMPLETED'' d))
      else fail_output runID ''STEP_FAILED'' d)"

section \<open>Advancing after a step\<close>

text \<open>The local copies: node id to step, and node id to committed output.\<close>

definition local_steps :: "db \<Rightarrow> uid \<Rightarrow> (string \<times> dagEvalStep) list" where
  "local_steps d runID = fold (\<lambda>s. put (s_node s) \<lparr> de_id = s_id s, de_state = s_state s \<rparr>)
     (filter (\<lambda>s. s_run s = runID) (db_steps d)) []"

definition local_outputs :: "db \<Rightarrow> uid \<Rightarrow> (string \<times> json) list" where
  "local_outputs d runID = fold (\<lambda>s m. case s_output s of
        None \<Rightarrow> m
      | Some v \<Rightarrow> if v = JNull then m else put (s_node s) v m)
     (filter (\<lambda>s. s_run s = runID) (db_steps d)) []"

type_synonym manifests = "uid \<Rightarrow> deploymentManifest option"

definition target_workflow :: "deploymentManifest \<Rightarrow> string \<Rightarrow> workflowManifest option" where
  "target_workflow m name = List.find (\<lambda>w. wm_Name w = name) (dm_Workflows m)"

definition advanceAfterStepSuccessTx :: "externals \<Rightarrow> manifests \<Rightarrow> time \<Rightarrow> uid \<Rightarrow> json \<Rightarrow> db \<Rightarrow> db tx" where
  "advanceAfterStepSuccessTx c manifests now runID defaultOutput d =
     ebind (get_run d runID) (\<lambda>r.
       case manifests (r_deployment r) of
         None \<Rightarrow> Inl (EngineError ''decode manifest'')
       | Some m \<Rightarrow>
           (case target_workflow m (r_workflow r) of
              None \<Rightarrow> Inr d
            | Some w \<Rightarrow>
                ebind (evaluateBlockedDAGTx c now runID (r_workflow r) w m (r_input r) (local_steps d runID) (local_outputs d runID) d)
                  (\<lambda>res. case res of
                     RunFailed g \<Rightarrow> Inr (g_db g)
                   | Going g \<Rightarrow>
                       ebind (settleRunTerminalTx c runID w (g_steps g) (g_outputs g) (r_input r) defaultOutput (g_db g))
                         (\<lambda>(_, d). Inr d))))"

section \<open>Firing due delays\<close>

definition fire_delay_timer ::
    "externals \<Rightarrow> manifests \<Rightarrow> time \<Rightarrow> timer_row \<Rightarrow> nat \<times> uid list \<times> db \<Rightarrow> (nat \<times> uid list \<times> db) tx" where
  "fire_delay_timer c manifests now t st =
     (case st of (fired, affected, d) \<Rightarrow>
       (case find_run d (t_run t) of
          None \<Rightarrow> Inr st
        | Some r \<Rightarrow>
            if r_status r \<in> {R_PAUSED, R_PAUSING, R_CANCELLING, R_SUCCEEDED, R_FAILED, R_CANCELLED} \<or>
               (r_status r = R_WAITING \<and> text_or_empty (r_reason r) \<noteq> ''DELAY'') then Inr st
            else if past_deadline now (r_deadline r) then Inr st
            else
              (case find_step d (t_step t) of
                 None \<Rightarrow> Inr st
               | Some s \<Rightarrow>
                   if s_state s \<noteq> S_WAITING \<or> s_wait s \<noteq> Some ''DELAY'' then Inr st
                   else
                     (case find_timer d (t_id t) of
                        None \<Rightarrow> Inr st
                      | Some u \<Rightarrow>
                          if t_state u \<noteq> T_PENDING then Inr st
                          else
                            ebind (appendRunEvent (t_run t) ''STEP_SUCCEEDED''
                                (upd_steps (\<lambda>s. s_id s = t_step t \<and> s_state s = S_WAITING \<and> s_wait s = Some ''DELAY'')
                                   (\<lambda>s. s\<lparr>s_state := S_SUCCEEDED, s_wait := None, s_output := Some (JObj []), s_source := Some ''TIMER''\<rparr>)
                                   (fire_timer (t_id t) d))) (\<lambda>d.
                            ebind (advanceAfterStepSuccessTx c manifests now (t_run t) (JObj []) d) (\<lambda>d.
                              Inr (fired + 1, if t_run t \<in> set affected then affected else affected @ [t_run t],
                                   recomputeRunStatusForDelayTx (t_run t) d)))))))"

definition FireDueDelayTimers :: "externals \<Rightarrow> manifests \<Rightarrow> time \<Rightarrow> db \<Rightarrow> (nat \<times> uid list \<times> db) tx" where
  "FireDueDelayTimers c manifests now d = efold (fire_delay_timer c manifests now) (due_timers now ''DELAY'' d) (0, [], d)"

section \<open>Which steps move\<close>

text \<open>Every move leaves BLOCKED, and no node but a task becomes READY.\<close>

definition quiet :: "dag_state \<Rightarrow> dag_state \<Rightarrow> bool" where
  "quiet g g' \<longleftrightarrow> (\<forall>k. state_of g' k = state_of g k \<or>
     state_of g k = Some S_BLOCKED \<and> state_of g' k \<in> {Some S_SKIPPED, Some S_SUCCEEDED, Some S_WAITING})"

lemma quiet_refl [simp]: "quiet g g"
  by (simp add: quiet_def)

lemma quiet_trans: "quiet a b \<Longrightarrow> quiet b c \<Longrightarrow> quiet a c"
  unfolding quiet_def by (metis StepStatus.distinct(1,3,5,7,9,11,13) insertE option.inject singletonD)

lemma state_of_simps [simp]:
  "state_of (g\<lparr>g_db := d\<rparr>) = state_of g" "state_of (g\<lparr>g_outputs := os\<rparr>) = state_of g"
  "state_of (g\<lparr>g_transitions := n\<rparr>) = state_of g" "state_of (g\<lparr>g_changed := b\<rparr>) = state_of g"
  by (simp_all add: state_of_def fun_eq_iff)

lemma quiet_simps [simp]:
  "quiet g (h\<lparr>g_db := d\<rparr>) = quiet g h" "quiet g (h\<lparr>g_outputs := os\<rparr>) = quiet g h"
  "quiet g (h\<lparr>g_transitions := n\<rparr>) = quiet g h" "quiet g (h\<lparr>g_changed := b\<rparr>) = quiet g h"
  by (simp_all add: quiet_def)

lemma state_of_set_state:
  "state_of (set_state nid st g) k = (if k = nid then map_option (\<lambda>_. st) (state_of g nid) else state_of g k)"
proof -
  have "map_of (map (\<lambda>p. if fst p = nid then (nid, (snd p)\<lparr>de_state := st\<rparr>) else p) xs) k =
      (if k = nid then map_option (\<lambda>e. e\<lparr>de_state := st\<rparr>) (map_of xs nid) else map_of xs k)"
    for xs :: "(string \<times> dagEvalStep) list"
    by (induction xs) auto
  then show ?thesis by (simp add: state_of_def set_state_def option.map_comp comp_def)
qed

lemma quiet_set_state:
  "blocked_entry g nid sid \<Longrightarrow> st \<in> {S_SKIPPED, S_SUCCEEDED, S_WAITING} \<Longrightarrow> quiet g (set_state nid st g)"
  by (auto simp: quiet_def state_of_set_state blocked_entry_def) (auto simp: state_of_def)

lemma settle_blocked_quiet:
  assumes "blocked_entry g nid sid" and "st \<in> {S_SKIPPED, S_SUCCEEDED, S_WAITING}"
  shows "holds (\<lambda>(b, g'). quiet g g') (settle_blocked rid nid sid st f event g)"
  using quiet_set_state [OF assms] by (auto simp: settle_blocked_def holds_def)

definition quiet_result :: "dag_state \<Rightarrow> dag_result \<Rightarrow> bool" where
  "quiet_result g r \<longleftrightarrow> (case r of Going g' \<Rightarrow> quiet g g' | RunFailed g' \<Rightarrow> quiet g g')"

lemma fail_dag_quiet: "holds (quiet_result g) (fail_dag now rid sid code g)"
  by (auto simp: fail_dag_def holds_def quiet_result_def)

lemma go_on_quiet: "holds (\<lambda>(b, g'). quiet g g') t \<Longrightarrow> holds (quiet_result g) (go_on t)"
  by (cases t) (auto simp: go_on_def quiet_result_def)

lemma skip_node_quiet: "blocked_entry g nid sid \<Longrightarrow> holds (quiet_result g) (skip_node rid nid sid g)"
  unfolding skip_node_def by (intro go_on_quiet settle_blocked_quiet) simp_all

lemma succeed_node_quiet:
  assumes "blocked_entry g nid sid"
  shows "holds (\<lambda>(b, g'). quiet g g') (succeed_node c rid nid sid out g)"
proof -
  have *: "holds (\<lambda>(b, g'). quiet g g')
      (settle_blocked rid nid sid S_SUCCEEDED (\<lambda>s. s\<lparr>s_wait := None, s_output := Some out\<rparr>) ''STEP_SUCCEEDED'' g)"
    using assms by (rule settle_blocked_quiet) simp_all
  show ?thesis unfolding succeed_node_def by (auto split: option.split intro!: holds_bind [OF *])
qed

lemma eval_merge_quiet:
  assumes "blocked_entry g (wn_ID n) sid"
  shows "holds (quiet_result g) (eval_merge c now rid w input anc desc n sid g)"
proof -
  have "holds (quiet_result g) (commit_merge c now rid input (wn_ID n) sid m mb g)" for m mb
    unfolding commit_merge_def Let_def
    by (auto split: sum.split intro: fail_dag_quiet go_on_quiet [OF succeed_node_quiet [OF assms]])
  then show ?thesis unfolding eval_merge_def Let_def
    using assms by (auto split: option.split intro: fail_dag_quiet skip_node_quiet simp: quiet_result_def)
qed

lemma skip_all_quiet: "quiet g h \<Longrightarrow> holds (quiet g) (efold (skip_unselected rid) nids h)"
proof (rule holds_efold)
  fix nid h assume h: "quiet g h"
  show "holds (quiet g) (skip_unselected rid nid h)"
  proof (cases "\<exists>e. map_of (g_steps h) nid = Some e \<and> de_state e = S_BLOCKED")
    case True
    then obtain e where e: "map_of (g_steps h) nid = Some e" "de_state e = S_BLOCKED" by blast
    then have "blocked_entry h nid (de_id e)" by (simp add: blocked_entry_def)
    from settle_blocked_quiet [OF this, of S_SKIPPED] h show ?thesis
      using e by (fastforce simp: skip_unselected_def holds_def intro: quiet_trans)
  qed (use h in \<open>auto simp: skip_unselected_def split: option.split\<close>)
qed

lemma eval_choice_quiet:
  assumes "blocked_entry g (wn_ID n) sid"
  shows "holds (quiet_result g) (eval_choice c now rid w input anc desc n sid g)"
proof (cases "select_branch c input (g_outputs g) (wn_Choice n)")
  case (Inr selected)
  have "holds (quiet_result g) (ebind (efold (skip_unselected rid) nids h) (\<lambda>g. Inr (Going g)))" if "quiet g h" for h nids
    using skip_all_quiet [OF that, of rid nids] by (auto simp: holds_def quiet_result_def)
  then show ?thesis
    unfolding eval_choice_def Inr
    by (auto intro!: holds_bind [OF succeed_node_quiet [OF assms]] simp: quiet_result_def)
qed (simp add: eval_choice_def fail_dag_quiet)

lemma openApprovalTx_quiet:
  assumes "blocked_entry g (wn_ID n) sid"
  shows "holds (\<lambda>(b, g'). quiet g g') (openApprovalTx c now rid input n sid g)"
proof (cases "wn_Approval n")
  case (Some cfg)
  show ?thesis
  proof (cases "MapInput (if ap_Payload cfg = JNull then JObj [] else ap_Payload cfg) input (g_outputs g)")
    case (Inr resolved)
    then show ?thesis
      using Some quiet_set_state [OF assms, of S_WAITING]
      by (auto simp: openApprovalTx_def holds_def Let_def split: option.splits if_splits)
  qed (use Some in \<open>auto simp: openApprovalTx_def holds_def\<close>)
qed (auto simp: openApprovalTx_def holds_def)

lemma eval_approval_quiet:
  assumes "blocked_entry g (wn_ID n) sid"
  shows "holds (quiet_result g) (eval_approval c now rid input n sid g)"
  unfolding eval_approval_def
  by (rule holds_bind [OF openApprovalTx_quiet [OF assms]]) (auto simp: quiet_result_def)

lemma eval_delay_quiet:
  assumes "blocked_entry g (wn_ID n) sid"
  shows "holds (quiet_result g) (eval_delay now rid n sid g)"
proof (cases "\<exists>ms. wn_DelayMs n = Some ms \<and> \<not> (ms < 1 \<or> ms > MaxRunLifetimeMs)")
  case True
  then show ?thesis
    using quiet_set_state [OF assms, of S_WAITING]
    by (auto simp: eval_delay_def holds_def Let_def quiet_result_def split: if_splits)
qed (auto simp: eval_delay_def fail_dag_quiet split: option.split)

section \<open>The all-success join\<close>

text \<open>Settled entries stay, and a node that becomes READY has only succeeded dependencies.\<close>

definition join_ok :: "workflowNode list \<Rightarrow> dag_state \<Rightarrow> dag_state \<Rightarrow> bool" where
  "join_ok ns g g' \<longleftrightarrow> (\<forall>k. state_of g k \<noteq> Some S_BLOCKED \<longrightarrow> state_of g' k = state_of g k) \<and>
     (\<forall>k. state_of g' k = None \<longleftrightarrow> state_of g k = None) \<and>
     (\<forall>n \<in> set ns. state_of g (wn_ID n) = Some S_BLOCKED \<longrightarrow> state_of g' (wn_ID n) = Some S_READY \<longrightarrow>
        (\<forall>dep \<in> set (wn_After n). state_of g' dep = Some S_SUCCEEDED))"

definition result_state :: "dag_result \<Rightarrow> dag_state" where
  "result_state r = (case r of Going g \<Rightarrow> g | RunFailed g \<Rightarrow> g)"

lemma result_state_simps [simp]: "result_state (Going g) = g" "result_state (RunFailed g) = g"
  by (simp_all add: result_state_def)

lemma quiet_join: "quiet g g' \<Longrightarrow> join_ok ns g g'"
  unfolding quiet_def join_ok_def
proof (intro conjI allI ballI impI)
  fix k assume *: "\<forall>k. state_of g' k = state_of g k \<or> state_of g k = Some S_BLOCKED \<and> state_of g' k \<in> {Some S_SKIPPED, Some S_SUCCEEDED, Some S_WAITING}"
  show "state_of g k \<noteq> Some S_BLOCKED \<Longrightarrow> state_of g' k = state_of g k" using spec [OF *, of k] by blast
  show "state_of g' k = None \<longleftrightarrow> state_of g k = None" using spec [OF *, of k] by auto
next
  fix n dep assume *: "\<forall>k. state_of g' k = state_of g k \<or> state_of g k = Some S_BLOCKED \<and> state_of g' k \<in> {Some S_SKIPPED, Some S_SUCCEEDED, Some S_WAITING}"
    and "state_of g (wn_ID n) = Some S_BLOCKED" "state_of g' (wn_ID n) = Some S_READY"
  then show "state_of g' dep = Some S_SUCCEEDED" using spec [OF *, of "wn_ID n"] by simp
qed

lemma join_refl [simp]: "join_ok ns g g"
  by (simp add: quiet_join)

lemma join_trans:
  assumes "join_ok ns a b" and "join_ok ns b c"
  shows "join_ok ns a c"
  unfolding join_ok_def
proof (intro conjI allI ballI impI)
  fix k
  show "state_of c k = None \<longleftrightarrow> state_of a k = None" using assms by (simp add: join_ok_def)
  assume "state_of a k \<noteq> Some S_BLOCKED"
  then show "state_of c k = state_of a k" using assms by (simp add: join_ok_def)
next
  fix n dep assume n: "n \<in> set ns" "state_of a (wn_ID n) = Some S_BLOCKED" "state_of c (wn_ID n) = Some S_READY" "dep \<in> set (wn_After n)"
  show "state_of c dep = Some S_SUCCEEDED"
  proof (cases "state_of b (wn_ID n) = Some S_BLOCKED")
    case True
    then show ?thesis using assms(2) n by (simp add: join_ok_def)
  next
    case False
    then have "state_of b (wn_ID n) = Some S_READY" using assms(2) n(3) by (simp add: join_ok_def)
    then have "state_of b dep = Some S_SUCCEEDED" using assms(1) n by (simp add: join_ok_def)
    then show ?thesis using assms(2) by (simp add: join_ok_def)
  qed
qed

lemma eval_task_join:
  assumes b: "blocked_entry g (wn_ID n) sid" and "deps_met g (wn_After n)" and "\<not> dep_skipped g (wn_After n)"
    and "distinct (map wn_ID ns)" and "n \<in> set ns"
  shows "holds (\<lambda>r. join_ok ns g (result_state r)) (eval_task c now rid m name input n sid g)"
proof -
  have sb: "state_of g (wn_ID n) = Some S_BLOCKED" using b by (auto simp: blocked_entry_def state_of_def)
  have deps: "state_of g dep = Some S_SUCCEEDED" if "dep \<in> set (wn_After n)" for dep
    using that assms(2,3) by (auto simp: deps_met_def dep_skipped_def)
  have same: "k = n" if "k \<in> set ns" "wn_ID k = wn_ID n" for k
    using that assms(4,5) by (auto simp: distinct_map dest: inj_onD)
  have "state_of g dep = Some S_SUCCEEDED \<and> dep \<noteq> wn_ID n" if "k \<in> set ns" "wn_ID k = wn_ID n" "dep \<in> set (wn_After k)" for k dep
    using same [OF that(1,2)] deps that(3) sb by auto
  then have "join_ok ns g (set_state (wn_ID n) S_READY g)"
    unfolding join_ok_def state_of_set_state using sb by (auto split: if_splits)
  then have "join_ok ns g (set_state (wn_ID n) S_READY g\<lparr>g_db := d, g_transitions := k, g_changed := ch\<rparr>)" for d k ch
    by (simp add: join_ok_def)
  then show ?thesis
    by (auto simp: eval_task_def fail_dag_def go_on_def settle_blocked_def holds_def join_ok_def [where g' = "_\<lparr>g_db := _\<rparr>"] split: if_splits)
qed

lemma quiet_result_join: "holds (quiet_result g) t \<Longrightarrow> holds (\<lambda>r. join_ok ns g (result_state r)) t"
  by (erule holds_mono) (auto simp: quiet_result_def intro: quiet_join split: dag_result.splits)

lemma eval_node_join:
  assumes "distinct (map wn_ID ns)" and "n \<in> set ns"
  shows "holds (\<lambda>r. join_ok ns g (result_state r)) (eval_node c now rid m w name input anc desc n g)"
proof (cases "map_of (g_steps g) (wn_ID n)")
  case (Some e)
  show ?thesis
  proof (cases "de_state e = S_BLOCKED")
    case True
    then have b: "blocked_entry g (wn_ID n) (de_id e)" using Some by (simp add: blocked_entry_def)
    show ?thesis
      using Some True eval_task_join [OF b _ _ assms]
      by (simp add: eval_node_def quiet_result_join [OF eval_merge_quiet [OF b]] quiet_result_join [OF skip_node_quiet [OF b]]
        quiet_result_join [OF eval_choice_quiet [OF b]] quiet_result_join [OF eval_approval_quiet [OF b]]
        quiet_result_join [OF eval_delay_quiet [OF b]])
  qed (use Some in \<open>simp add: eval_node_def\<close>)
qed (simp add: eval_node_def)

lemma dag_pass_induct:
  assumes "\<And>n g. n \<in> set ns \<Longrightarrow> holds (\<lambda>r. R g (result_state r)) (eval n g)" and "\<And>a b c. R a b \<Longrightarrow> R b c \<Longrightarrow> R a c" and "\<And>g. R g g"
  shows "holds (\<lambda>r. R g (result_state r)) (dag_pass eval ns g)"
  using assms(1)
proof (induction ns arbitrary: g)
  case (Cons n ns)
  have IH: "holds (\<lambda>r. R h (result_state r)) (dag_pass eval ns h)" for h
    using Cons.prems by (intro Cons.IH) simp
  have "holds (\<lambda>r. R g (result_state r)) (case r of Going h \<Rightarrow> dag_pass eval ns h | RunFailed h \<Rightarrow> Inr (RunFailed h))"
    if "R g (result_state r)" for r
  proof (cases r)
    case (Going h)
    then show ?thesis using that IH [of h] assms(2) by (auto simp: holds_def)
  qed (use that in simp)
  moreover have "holds (\<lambda>r. R g (result_state r)) (eval n g)" using Cons.prems by simp
  ultimately show ?case unfolding dag_pass.simps by (intro holds_bind [of "\<lambda>r. R g (result_state r)"])
qed (simp add: assms(3))

lemma dag_loop_induct:
  assumes "\<And>n g. n \<in> set (wm_Nodes w) \<Longrightarrow> holds (\<lambda>r. R g (result_state r)) (eval_node c now rid m w name input anc desc n g)"
    and "\<And>a b c. R a b \<Longrightarrow> R b c \<Longrightarrow> R a c" and "\<And>g. R g g" and "\<And>g h b. R (g\<lparr>g_changed := b\<rparr>) h \<longleftrightarrow> R g h"
  shows "holds (\<lambda>r. R g (result_state r)) (dag_loop c now rid m w name input anc desc g)"
proof (induction "blocked_count g" arbitrary: g rule: less_induct)
  case less
  let ?p = "dag_pass (eval_node c now rid m w name input anc desc) (wm_Nodes w) (g\<lparr>g_changed := False\<rparr>)"
  have p: "holds (\<lambda>r. R g (result_state r)) ?p"
    using dag_pass_induct [of "wm_Nodes w" R "eval_node c now rid m w name input anc desc" "g\<lparr>g_changed := False\<rparr>"] assms
    by simp
  show ?case
  proof (cases ?p)
    case (Inl e)
    then show ?thesis by (simp add: dag_loop.simps)
  next
    case (Inr r)
    then have r: "R g (result_state r)" using p by (simp add: holds_def)
    show ?thesis
    proof (cases r)
      case (Going h)
      then show ?thesis
        using r Inr less [of h] dag_pass_count [of c now rid m w name input anc desc "wm_Nodes w" g h] assms(2)
        by (subst dag_loop.simps) (auto simp: holds_def)
    qed (use r Inr in \<open>subst dag_loop.simps, simp\<close>)
  qed
qed

section \<open>Nothing runnable is left behind\<close>

text \<open>What a pass that reports no change may still do: a delay whose timer exists already is marked
  WAITING in the local copy, and stored rows may leave BLOCKED when the run was failed.\<close>

definition still :: "dag_state \<Rightarrow> dag_state \<Rightarrow> bool" where
  "still g g' \<longleftrightarrow> (\<forall>k. state_of g' k = state_of g k \<or> state_of g k = Some S_BLOCKED \<and> state_of g' k = Some S_WAITING) \<and>
     (\<forall>k. map_option de_id (map_of (g_steps g') k) = map_option de_id (map_of (g_steps g) k)) \<and>
     (\<forall>i. blocked_row (g_db g') i \<longrightarrow> blocked_row (g_db g) i)"

lemma still_refl [simp]: "still g g"
  by (simp add: still_def)

lemma still_trans: "still a b \<Longrightarrow> still b c \<Longrightarrow> still a c"
  unfolding still_def by (metis StepStatus.distinct(5) option.inject)

lemma blocked_row_append: "appendRunEvent rid t d = Inr d' \<Longrightarrow> blocked_row d' = blocked_row d"
  by (simp add: blocked_row_def fun_eq_iff appendRunEventD)

lemma blocked_row_step_at: "blocked_row d i \<longleftrightarrow> \<not> step_at (\<lambda>q. q \<noteq> S_BLOCKED) d i"
  by (auto simp: blocked_row_def step_at_def)

lemma settle_blocked_changed:
  "settle_blocked rid nid sid st f event g = Inr (b, g') \<Longrightarrow> (if b then g_changed g' \<and> blocked_row (g_db g) sid else g' = g \<and> \<not> blocked_row (g_db g) sid)"
  by (auto simp: settle_blocked_def split: if_splits)

lemma succeed_node_changed:
  assumes "succeed_node c rid nid sid out g = Inr (b, g')"
  shows "if b then g_changed g' else g' = g \<and> \<not> blocked_row (g_db g) sid"
proof -
  obtain b' h where s: "settle_blocked rid nid sid S_SUCCEEDED (\<lambda>s. s\<lparr>s_wait := None, s_output := Some out\<rparr>) ''STEP_SUCCEEDED'' g = Inr (b', h)"
    and e: "b = b'" "g' = (if b' then h\<lparr>g_outputs := put nid out (g_outputs h)\<rparr> else h)"
    using assms by (auto simp: succeed_node_def split: option.splits)
  show ?thesis using settle_blocked_changed [OF s] e by (cases b') simp_all
qed

lemma skip_all_changed: "efold (skip_unselected rid) nids g = Inr g' \<Longrightarrow> g_changed g \<Longrightarrow> g_changed g'"
proof (induction nids arbitrary: g)
  case (Cons k nids)
  then obtain h where h: "skip_unselected rid k g = Inr h" "efold (skip_unselected rid) nids h = Inr g'" by auto
  have "g_changed h" using h(1) Cons.prems(2)
    by (auto simp: skip_unselected_def settle_blocked_def split: option.splits if_splits)
  then show ?case using Cons.IH h(2) by blast
qed simp

lemma eval_choice_still:
  "eval_choice c now rid w input anc desc n sid g = Inr (Going g') \<Longrightarrow> \<not> g_changed g' \<Longrightarrow> g' = g \<and> \<not> blocked_row (g_db g) sid"
  by (auto simp: eval_choice_def fail_dag_def split: sum.splits if_splits dest!: succeed_node_changed dest: skip_all_changed)

lemma eval_merge_still:
  "eval_merge c now rid w input anc desc n sid g = Inr (Going g') \<Longrightarrow> \<not> g_changed g' \<Longrightarrow> g' = g"
  by (auto simp: eval_merge_def commit_merge_def skip_node_def go_on_def fail_dag_def Let_def
      split: option.splits if_splits sum.splits dest!: succeed_node_changed settle_blocked_changed)

lemma eval_task_still:
  "eval_task c now rid m name input n sid g = Inr (Going g') \<Longrightarrow> \<not> g_changed g' \<Longrightarrow> g' = g \<and> \<not> blocked_row (g_db g) sid"
  by (auto simp: eval_task_def go_on_def fail_dag_def split: if_splits dest!: settle_blocked_changed)

lemma failRun_blocked_row: "failRunForStepTx now rid sid code actor d = Inr d' \<Longrightarrow> blocked_row d' i \<Longrightarrow> blocked_row d i"
  unfolding blocked_row_step_at using failRunForStepTx_at [of now rid sid code actor d d' "\<lambda>q. q \<noteq> S_BLOCKED" i] by auto

lemma openApprovalTx_still:
  assumes "openApprovalTx c now rid input n sid g = Inr (b, g')"
  shows "g_changed g' = g_changed g" and "\<not> b \<Longrightarrow> g_steps g' = g_steps g"
    and "\<not> b \<Longrightarrow> blocked_row (g_db g') i \<Longrightarrow> blocked_row (g_db g) i"
proof -
  obtain cfg where cfg: "wn_Approval n = Some cfg" using assms by (auto simp: openApprovalTx_def split: option.splits)
  have "g_changed g' = g_changed g \<and> (\<not> b \<longrightarrow> g_steps g' = g_steps g \<and> (blocked_row (g_db g') i \<longrightarrow> blocked_row (g_db g) i))"
  proof (cases "MapInput (if ap_Payload cfg = JNull then JObj [] else ap_Payload cfg) input (g_outputs g)")
    case (Inl e)
    then show ?thesis using assms cfg failRun_blocked_row by (auto simp: openApprovalTx_def)
  next
    case (Inr resolved)
    have "blocked_row (g_db g\<lparr>db_approvals := as, db_next := k\<rparr>) i = blocked_row (g_db g) i" for as k
      by (simp add: blocked_row_def)
    then show ?thesis using assms cfg Inr by (auto simp: openApprovalTx_def Let_def split: option.splits if_splits)
  qed
  then show "g_changed g' = g_changed g" "\<not> b \<Longrightarrow> g_steps g' = g_steps g"
    "\<not> b \<Longrightarrow> blocked_row (g_db g') i \<Longrightarrow> blocked_row (g_db g) i" by blast+
qed

lemma eval_approval_still:
  assumes "eval_approval c now rid input n sid g = Inr (Going g')" and "\<not> g_changed g'"
  shows "still g g'"
proof -
  obtain b h where o: "openApprovalTx c now rid input n sid g = Inr (b, h)"
    and g': "g' = (if b then h\<lparr>g_changed := True, g_transitions := g_transitions h + 1\<rparr> else h)"
    using assms(1) by (auto simp: eval_approval_def)
  have b: "\<not> b" using g' assms(2) by (cases b) simp_all
  then show ?thesis using openApprovalTx_still(2,3) [OF o b] g' by (simp add: still_def state_of_def)
qed

lemma scheduleDelayTx_blocked_row:
  assumes "scheduleDelayTx now rid sid ms d = Inr (due, b, d')" and "blocked_row d' i"
  shows "blocked_row d i"
proof -
  obtain due' b' x where i: "insert_timer ''DELAY'' rid sid None ''DELAY'' (now + ms * 1000000) d = (due', b', x)"
    by (cases "insert_timer ''DELAY'' rid sid None ''DELAY'' (now + ms * 1000000) d")
  let ?y = "upd_steps (\<lambda>s. s_id s = sid \<and> s_state s = S_BLOCKED)
      (\<lambda>s. s\<lparr>s_state := S_WAITING, s_wait := Some ''DELAY'', s_eligible := Some due'\<rparr>) x"
  have "d' = ?y \<or> d' = recomputeRunStatusForDelayTx rid ?y"
    using assms(1) unfolding scheduleDelayTx_def i prod.case Let_def by (auto split: if_splits)
  moreover have "step_at Q (recomputeRunStatusForDelayTx rid ?y) = step_at Q ?y" for Q
    by (simp add: recomputeRunStatusForDelayTx_def)
  ultimately have "step_at Q d' i = step_at Q ?y i" for Q by (elim disjE) simp_all
  moreover have "step_at (\<lambda>q. q \<noteq> S_BLOCKED) ?y i" if "step_at (\<lambda>q. q \<noteq> S_BLOCKED) d i"
    using that insert_timer_steps(5) [OF i] by (intro step_at_keep) simp_all
  ultimately show ?thesis using assms(2) by (auto simp: blocked_row_step_at)
qed

lemma map_of_set_state:
  "map_of (g_steps (set_state nid st g)) k =
     (if k = nid then map_option (\<lambda>e. e\<lparr>de_state := st\<rparr>) (map_of (g_steps g) nid) else map_of (g_steps g) k)"
proof -
  have "map_of (map (\<lambda>p. if fst p = nid then (nid, (snd p)\<lparr>de_state := st\<rparr>) else p) xs) k =
      (if k = nid then map_option (\<lambda>e. e\<lparr>de_state := st\<rparr>) (map_of xs nid) else map_of xs k)"
    for xs :: "(string \<times> dagEvalStep) list"
    by (induction xs) auto
  then show ?thesis by (simp add: set_state_def)
qed

lemma eval_delay_still:
  assumes "eval_delay now rid n sid g = Inr (Going g')" and "\<not> g_changed g'" and b: "blocked_entry g (wn_ID n) sid"
  shows "still g g' \<and> state_of g' (wn_ID n) = Some S_WAITING"
proof -
  obtain ms where ms: "wn_DelayMs n = Some ms" "\<not> ms < 1" "\<not> ms > MaxRunLifetimeMs"
    using assms(1) by (auto simp: eval_delay_def fail_dag_def split: option.splits if_splits)
  obtain due b d where s: "scheduleDelayTx now rid sid ms (g_db g) = Inr (due, b, d)"
    using assms(1) ms by (cases "scheduleDelayTx now rid sid ms (g_db g)") (auto simp: eval_delay_def)
  have r: "if b then g_changed g' else g' = (set_state (wn_ID n) S_WAITING g)\<lparr>g_db := d\<rparr>"
    using assms(1) ms s by (cases b) (auto simp: eval_delay_def Let_def)
  have g': "g' = (set_state (wn_ID n) S_WAITING g)\<lparr>g_db := d\<rparr>" using r assms(2) by (cases b) simp_all
  obtain e where e: "map_of (g_steps g) (wn_ID n) = Some e" "de_state e = S_BLOCKED" using b by (auto simp: blocked_entry_def)
  show ?thesis using scheduleDelayTx_blocked_row [OF s] e
    by (auto simp: g' still_def state_of_set_state map_of_set_state) (auto simp: state_of_def)
qed

definition runnable :: "dag_state \<Rightarrow> workflowNode \<Rightarrow> bool" where
  "runnable g n \<longleftrightarrow> wn_Type n \<notin> {''merge'', ''approval''} \<and> deps_met g (wn_After n) \<and>
     (\<exists>e. map_of (g_steps g) (wn_ID n) = Some e \<and> de_state e = S_BLOCKED \<and> blocked_row (g_db g) (de_id e))"

lemma still_runnable:
  assumes "still g g'" and "runnable g' n"
  shows "runnable g n"
proof -
  obtain e where e: "map_of (g_steps g') (wn_ID n) = Some e" "de_state e = S_BLOCKED" "blocked_row (g_db g') (de_id e)"
    using assms(2) by (auto simp: runnable_def)
  have st: "state_of g' k = state_of g k \<or> state_of g k = Some S_BLOCKED \<and> state_of g' k = Some S_WAITING" for k
    using assms(1) by (simp add: still_def)
  have "state_of g (wn_ID n) = Some S_BLOCKED" using st [of "wn_ID n"] e by (auto simp: state_of_def)
  moreover have "map_option de_id (map_of (g_steps g) (wn_ID n)) = map_option de_id (map_of (g_steps g') (wn_ID n))"
    using assms(1) unfolding still_def by metis
  then have "map_option de_id (map_of (g_steps g) (wn_ID n)) = Some (de_id e)" unfolding e(1) by simp
  ultimately obtain f where "map_of (g_steps g) (wn_ID n) = Some f" "de_state f = S_BLOCKED" "de_id f = de_id e"
    by (auto simp: state_of_def)
  moreover have "blocked_row (g_db g) (de_id e)" using assms(1) e(3) by (simp add: still_def)
  moreover have "deps_met g (wn_After n)"
    unfolding deps_met_def
  proof (intro ballI)
    fix dep assume "dep \<in> set (wn_After n)"
    then show "state_of g dep = Some S_SUCCEEDED \<or> state_of g dep = Some S_SKIPPED"
      using assms(2) st [of dep] by (auto simp: runnable_def deps_met_def)
  qed
  ultimately show ?thesis using assms(2) by (auto simp: runnable_def)
qed

lemma eval_node_still:
  assumes "eval_node c now rid m w name input anc desc n g = Inr (Going g')" and "\<not> g_changed g'"
  shows "still g g' \<and> \<not> runnable g' n"
proof (cases "\<exists>e. map_of (g_steps g) (wn_ID n) = Some e \<and> de_state e = S_BLOCKED")
  case False
  then have "g' = g" using assms(1) by (auto simp: eval_node_def split: option.splits)
  then show ?thesis using False by (auto simp: runnable_def)
next
  case True
  then obtain e where e: "map_of (g_steps g) (wn_ID n) = Some e" "de_state e = S_BLOCKED" by blast
  then have b: "blocked_entry g (wn_ID n) (de_id e)" by (simp add: blocked_entry_def)
  have r: "\<not> runnable g n" if "\<not> blocked_row (g_db g) (de_id e)" using that e by (auto simp: runnable_def)
  show ?thesis
  proof (cases "wn_Type n = ''merge'' \<or> \<not> deps_met g (wn_After n)")
    case True
    then have "g' = g" "wn_Type n = ''merge'' \<or> \<not> deps_met g' (wn_After n)"
      using assms e eval_merge_still by (auto simp: eval_node_def split: if_splits)
    then show ?thesis by (auto simp: runnable_def)
  next
    case False
    note body = assms(1) [unfolded eval_node_def e(1) option.case]
    show ?thesis
    proof (cases "dep_skipped g (wn_After n)")
      case True
      then have "g' = g \<and> \<not> blocked_row (g_db g) (de_id e)"
        using assms(2) body e False by (auto simp: skip_node_def go_on_def split: if_splits dest!: settle_blocked_changed)
      then show ?thesis using r by simp
    next
      case nskip: False
      consider "wn_Type n = ''choice''" | "wn_Type n = ''approval''" | "wn_Type n = ''delay''"
        | "wn_Type n \<noteq> ''choice''" "wn_Type n \<noteq> ''approval''" "wn_Type n \<noteq> ''delay''" by blast
      then show ?thesis
      proof cases
        case 1
        then have "g' = g \<and> \<not> blocked_row (g_db g) (de_id e)"
          using assms body e False nskip eval_choice_still by simp
        then show ?thesis using r by simp
      next
        case 2
        then have "still g g'" using assms body e False nskip eval_approval_still by simp
        then show ?thesis using 2 by (simp add: runnable_def)
      next
        case 3
        then have "still g g' \<and> state_of g' (wn_ID n) = Some S_WAITING"
          using assms body e False nskip eval_delay_still [OF _ _ b] by simp
        then show ?thesis by (auto simp: runnable_def state_of_def)
      next
        case 4
        then have "g' = g \<and> \<not> blocked_row (g_db g) (de_id e)"
          using assms body e False nskip eval_task_still by simp
        then show ?thesis using r by simp
      qed
    qed
  qed
qed

lemma settle_changed_mono: "settle_blocked rid nid sid st f event g = Inr (b, g') \<Longrightarrow> g_changed g \<Longrightarrow> g_changed g'"
  by (auto dest: settle_blocked_changed split: if_splits)

lemma succeed_changed_mono: "succeed_node c rid nid sid out g = Inr (b, g') \<Longrightarrow> g_changed g \<Longrightarrow> g_changed g'"
  by (auto dest: succeed_node_changed split: if_splits)

lemma eval_node_changed_mono:
  assumes "eval_node c now rid m w name input anc desc n g = Inr (Going g')" and "g_changed g"
  shows "g_changed g'"
proof -
  have skip: "skip_node rid nid sid g = Inr (Going g') \<Longrightarrow> g_changed g'" for nid sid
    using assms(2) by (auto simp: skip_node_def go_on_def dest: settle_changed_mono)
  have merge: "eval_merge c now rid w input anc desc n sid g = Inr (Going g') \<Longrightarrow> g_changed g'" for sid
    using assms(2) skip by (auto simp: eval_merge_def commit_merge_def go_on_def fail_dag_def Let_def
        split: option.splits if_splits sum.splits dest: succeed_changed_mono)
  have choice: "eval_choice c now rid w input anc desc n sid g = Inr (Going g') \<Longrightarrow> g_changed g'" for sid
    using assms(2) by (auto simp: eval_choice_def fail_dag_def split: sum.splits if_splits dest: succeed_changed_mono skip_all_changed)
  have approval: "eval_approval c now rid input n sid g = Inr (Going g') \<Longrightarrow> g_changed g'" for sid
    using assms(2) by (auto simp: eval_approval_def dest!: openApprovalTx_still(1))
  have delay: "eval_delay now rid n sid g = Inr (Going g') \<Longrightarrow> g_changed g'" for sid
    using assms(2) by (auto simp: eval_delay_def fail_dag_def Let_def split: option.splits if_splits)
  have task: "eval_task c now rid m name input n sid g = Inr (Going g') \<Longrightarrow> g_changed g'" for sid
    using assms(2) by (auto simp: eval_task_def go_on_def fail_dag_def split: if_splits dest: settle_changed_mono)
  show ?thesis
    using assms skip merge choice approval delay task by (auto simp: eval_node_def split: option.splits if_splits)
qed

lemma dag_pass_still:
  assumes "\<And>n g g'. eval n g = Inr (Going g') \<Longrightarrow> \<not> g_changed g' \<Longrightarrow> still g g' \<and> \<not> runnable g' n"
    and "\<And>n g g'. eval n g = Inr (Going g') \<Longrightarrow> g_changed g \<Longrightarrow> g_changed g'"
    and "dag_pass eval ns g = Inr (Going g')" and "\<not> g_changed g'"
  shows "still g g' \<and> \<not> g_changed g \<and> (\<forall>n \<in> set ns. \<not> runnable g' n)"
  using assms(3)
proof (induction ns arbitrary: g)
  case (Cons n ns)
  then obtain r where r: "eval n g = Inr r" "(case r of Going g \<Rightarrow> dag_pass eval ns g | RunFailed g \<Rightarrow> Inr (RunFailed g)) = Inr (Going g')"
    by auto
  then obtain h where h: "eval n g = Inr (Going h)" "dag_pass eval ns h = Inr (Going g')" by (cases r) auto
  note IH = Cons.IH [OF h(2)]
  have n: "still g h \<and> \<not> runnable h n" using assms(1) [OF h(1)] IH by blast
  then have "\<not> runnable g' n" using IH still_runnable by blast
  then show ?case using IH n assms(2) [OF h(1)] still_trans by auto
qed (use assms(4) in simp)

lemma dag_loop_still:
  "dag_loop c now rid m w name input anc desc g = Inr (Going g') \<Longrightarrow> n \<in> set (wm_Nodes w) \<Longrightarrow> \<not> runnable g' n"
proof (induction "blocked_count g" arbitrary: g rule: less_induct)
  case less
  let ?p = "dag_pass (eval_node c now rid m w name input anc desc) (wm_Nodes w) (g\<lparr>g_changed := False\<rparr>)"
  obtain h where h: "?p = Inr (Going h)"
    using less.prems(1) by (subst (asm) dag_loop.simps) (auto split: sum.splits dag_result.splits)
  show ?case
  proof (cases "g_changed h")
    case True
    then have "dag_loop c now rid m w name input anc desc h = Inr (Going g')"
      using less.prems(1) h by (subst (asm) dag_loop.simps) simp
    then show ?thesis using less.hyps [of h] dag_pass_count [OF h True] less.prems(2) by blast
  next
    case False
    then have "g' = h" using less.prems(1) h by (subst (asm) dag_loop.simps) simp
    moreover have "\<forall>n \<in> set (wm_Nodes w). \<not> runnable h n"
      by (rule dag_pass_still [OF _ _ h False, THEN conjunct2, THEN conjunct2])
        (erule (1) eval_node_still, erule (1) eval_node_changed_mono)
    ultimately show ?thesis using less.prems(2) by blast
  qed
qed

section \<open>The engine's invariant across an evaluation\<close>

lemma dag_loop_good:
  assumes "dag_inv d0 rid g"
  shows "holds (\<lambda>r. case r of Going h \<Rightarrow> dag_inv d0 rid h | RunFailed h \<Rightarrow> step_ok d0 (g_db h))
    (dag_loop c now rid m w name input anc desc g)"
  using assms
proof (induction "blocked_count g" arbitrary: g rule: less_induct)
  case less
  let ?p = "dag_pass (eval_node c now rid m w name input anc desc) (wm_Nodes w) (g\<lparr>g_changed := False\<rparr>)"
  have p: "holds (dag_good d0 rid (g\<lparr>g_changed := False\<rparr>)) ?p" by (rule dag_pass_good) (rule eval_node_good)
  show ?case
  proof (cases ?p)
    case (Inl e)
    then show ?thesis by (simp add: dag_loop.simps)
  next
    case (Inr r)
    then have r: "dag_good d0 rid (g\<lparr>g_changed := False\<rparr>) r" using p by (simp add: holds_def)
    show ?thesis
    proof (cases r)
      case (Going h)
      then have "dag_inv d0 rid h" using r less.prems by (simp add: dag_good_def)
      then show ?thesis
        using Going Inr less.hyps [of h] dag_pass_count [of c now rid m w name input anc desc "wm_Nodes w" g h]
        by (subst dag_loop.simps) (auto simp: holds_def)
    next
      case (RunFailed h)
      then have "step_ok d0 (g_db h)" using r less.prems by (simp add: dag_good_def)
      then show ?thesis using RunFailed Inr by (subst dag_loop.simps) simp
    qed
  qed
qed

lemma set_put: "set (put k v m) \<subseteq> insert (k, v) (set m)"
  by (auto simp: put_def)

lemma keys_put: "keys (put k v m) = (if k \<in> set (keys m) then keys m else keys m @ [k])"
  by (simp add: put_def)

lemma put_distinct:
  assumes "distinct (keys m)" and "distinct (map f m)" and "f (k, v) \<notin> set (map f m)"
  shows "distinct (map f (put k v m))"
proof (cases "k \<in> set (keys m)")
  case True
  have "distinct (map f (map (\<lambda>p. if fst p = k then (k, v) else p) m))"
    using assms
  proof (induction m)
    case (Cons p m)
    have *: "map (\<lambda>p. if fst p = k then (k, v) else p) m = m" if "fst p = k"
    proof (rule map_idI)
      show "(if fst x = k then (k, v) else x) = x" if "x \<in> set m" for x
        using Cons.prems(1) \<open>fst p = k\<close> that by (metis distinct.simps(2) image_eqI list.simps(9) list.set_map)
    qed
    show ?case
    proof (cases "fst p = k")
      case True
      then show ?thesis using Cons.prems by (simp add: *)
    next
      case False
      have "set (map f (map (\<lambda>p. if fst p = k then (k, v) else p) m)) \<subseteq> insert (f (k, v)) (set (map f m))" by auto
      moreover have "distinct (map f (map (\<lambda>p. if fst p = k then (k, v) else p) m))" using Cons by simp
      ultimately show ?thesis using Cons.prems False by auto
    qed
  qed simp
  then show ?thesis using True by (simp add: put_def)
qed (use assms in \<open>simp add: put_def\<close>)

text \<open>The local copy of the steps mirrors rows of the run.\<close>

definition mirrors :: "step_row list \<Rightarrow> (string \<times> dagEvalStep) list \<Rightarrow> bool" where
  "mirrors rows m \<longleftrightarrow> distinct (keys m) \<and> distinct (map (\<lambda>p. de_id (snd p)) m) \<and>
     (\<forall>p \<in> set m. \<exists>s \<in> set rows. s_id s = de_id (snd p) \<and> s_state s = de_state (snd p) \<and> s_node s = fst p)"

lemma mirrors_fold:
  assumes "mirrors done' m" and "distinct (map s_id (done' @ xs))"
  shows "mirrors (done' @ xs) (fold (\<lambda>s. put (s_node s) \<lparr> de_id = s_id s, de_state = s_state s \<rparr>) xs m)"
  using assms
proof (induction xs arbitrary: m done')
  case (Cons s xs)
  let ?m = "put (s_node s) \<lparr> de_id = s_id s, de_state = s_state s \<rparr> m"
  have m: "distinct (keys m)" "distinct (map (\<lambda>p. de_id (snd p)) m)"
    "\<forall>p \<in> set m. \<exists>s \<in> set done'. s_id s = de_id (snd p) \<and> s_state s = de_state (snd p) \<and> s_node s = fst p"
    using Cons.prems(1) by (simp_all add: mirrors_def)
  have "s_id s \<notin> s_id ` set done'" using Cons.prems(2) by auto
  moreover have "de_id (snd p) \<in> s_id ` set done'" if "p \<in> set m" for p using m(3) that by force
  ultimately have new: "s_id s \<notin> set (map (\<lambda>p. de_id (snd p)) m)" by auto
  have "mirrors (done' @ [s]) ?m"
    unfolding mirrors_def
  proof (intro conjI ballI)
    show "distinct (keys ?m)" using m(1) by (simp add: keys_put)
    show "distinct (map (\<lambda>p. de_id (snd p)) ?m)" by (rule put_distinct [OF m(1,2)]) (use new in simp)
    fix p assume "p \<in> set ?m"
    then have "p = (s_node s, \<lparr> de_id = s_id s, de_state = s_state s \<rparr>) \<or> p \<in> set m" using set_put by fastforce
    then show "\<exists>t \<in> set (done' @ [s]). s_id t = de_id (snd p) \<and> s_state t = de_state (snd p) \<and> s_node t = fst p"
      using m(3) by auto
  qed
  then have "mirrors ((done' @ [s]) @ xs) (fold (\<lambda>s. put (s_node s) \<lparr> de_id = s_id s, de_state = s_state s \<rparr>) xs ?m)"
    by (rule Cons.IH) (use Cons.prems(2) in simp)
  then show ?case by simp
qed simp

lemma local_steps_mirror:
  assumes "distinct (map s_id (db_steps d))"
  shows "mirrors (filter (\<lambda>s. s_run s = rid) (db_steps d)) (local_steps d rid)"
  unfolding local_steps_def
  using mirrors_fold [of "[]" "[]" "filter (\<lambda>s. s_run s = rid) (db_steps d)"] assms
  by (simp add: mirrors_def distinct_map_filter)

lemma local_steps_ok:
  assumes "inv d" and "run_failable d rid"
  shows "local_ok rid \<lparr> g_db = d, g_steps = local_steps d rid, g_outputs = os, g_transitions = k, g_changed = b \<rparr>"
proof -
  have ids: "distinct (map s_id (db_steps d))" using assms(1) by (simp add: inv_def ids_ok_def)
  have "step_failable d (de_id (snd p))" if p: "p \<in> set (local_steps d rid)" "de_state (snd p) = S_BLOCKED" for p
  proof -
    obtain s where s: "s \<in> set (db_steps d)" "s_id s = de_id (snd p)" "s_state s = S_BLOCKED"
      using local_steps_mirror [OF ids, of rid] p by (fastforce simp: mirrors_def)
    have "t = s" if "t \<in> set (db_steps d)" "s_id t = s_id s" for t
      using ids that s(1) by (auto simp: distinct_map dest: inj_onD)
    then show ?thesis using s unfolding step_at_def by (metis StepStatus.distinct insertE singletonD)
  qed
  then show ?thesis using assms(2) local_steps_mirror [OF ids, of rid] by (auto simp: local_ok_def mirrors_def)
qed

lemma terminalize_ok:
  assumes "step_ok d x"
    and "\<And>r. r_id (f r) = r_id r \<and> r_env (f r) = r_env r \<and> r_deployment (f r) = r_deployment r \<and> r_workflow (f r) = r_workflow r \<and>
        r_input (f r) = r_input r \<and> r_last_event (f r) = r_last_event r"
  shows "returns_ok d (terminalize rid f event x)"
  unfolding terminalize_def using assms(1) by (auto intro!: step_ok_intros simp: run_le_def assms(2))

lemma settleRunTerminalTx_ok:
  "step_ok d x \<Longrightarrow> returns_ok d (settleRunTerminalTx c rid w states outputs input def x)"
  unfolding settleRunTerminalTx_def fail_output_def Let_def
  by (auto split: sum.split intro!: terminalize_ok)

lemma evaluateBlockedDAGTx_ok:
  assumes "step_ok d x" and "inv x \<Longrightarrow> run_failable x rid"
  shows "holds (\<lambda>r. step_ok d (g_db (result_state r)))
    (evaluateBlockedDAGTx c now rid name w m input (local_steps x rid) os x)"
proof (cases "buildGraphRelations (node_graph w)")
  case (Some rel)
  let ?g = "\<lparr> g_db = x, g_steps = local_steps x rid, g_outputs = os, g_transitions = 0, g_changed = True \<rparr>"
  have "dag_inv x rid ?g" using local_steps_ok assms(2) by (auto simp: dag_inv_def)
  then have "holds (\<lambda>r. step_ok x (g_db (result_state r))) (dag_loop c now rid m w name input anc desc ?g)" for anc desc
    by (rule holds_mono [OF dag_loop_good]) (auto simp: dag_inv_def split: dag_result.splits)
  then show ?thesis
    using Some assms(1) by (cases rel) (auto simp: evaluateBlockedDAGTx_def holds_def intro: step_ok_trans)
qed (simp add: evaluateBlockedDAGTx_def)

lemma advanceAfterStepSuccessTx_ok:
  assumes "step_ok d x" and "inv x \<Longrightarrow> run_failable x rid"
  shows "holds (step_ok d) (advanceAfterStepSuccessTx c manifests now rid def x)"
proof -
  have *: "holds (step_ok d) (case res of RunFailed g \<Rightarrow> Inr (g_db g)
      | Going g \<Rightarrow> ebind (settleRunTerminalTx c rid w (g_steps g) (g_outputs g) i def (g_db g)) (\<lambda>(_, d). Inr d))"
    if "step_ok d (g_db (result_state res))" for res w i
    using that settleRunTerminalTx_ok by (cases res) (auto intro!: step_ok_bind2 [OF settleRunTerminalTx_ok])
  show ?thesis
    unfolding advanceAfterStepSuccessTx_def using assms(1)
    by (auto split: option.split intro!: holds_bind [OF evaluateBlockedDAGTx_ok [OF assms]] *)
qed

lemma holds_step_okI3:
  "step_ok d x \<Longrightarrow> (inv x \<Longrightarrow> holds (\<lambda>(n, aff, y). step_ok x y) t) \<Longrightarrow> holds (\<lambda>(n, aff, y). step_ok d y) t"
  by (cases t; cases "inv x") (simp_all add: split_beta, (metis step_ok_trans step_ok_def)+)

lemma fire_delay_timer_ok:
  assumes "step_ok d x"
  shows "holds (\<lambda>(n, aff, y). step_ok d y) (fire_delay_timer c manifests now t (m, aff, x))"
proof (rule holds_step_okI3 [OF assms])
  assume i: "inv x"
  let ?y = "upd_steps (\<lambda>s. s_id s = t_step t \<and> s_state s = S_WAITING \<and> s_wait s = Some ''DELAY'')
     (\<lambda>s. s\<lparr>s_state := S_SUCCEEDED, s_wait := None, s_output := Some (JObj []), s_source := Some ''TIMER''\<rparr>) (fire_timer (t_id t) x)"
  have y: "step_ok x ?y"
    unfolding fire_timer_def by (intro step_ok_intros) (simp_all add: row_le_defs)
  have z: "holds (\<lambda>z. step_ok x z \<and> run_failable z (t_run t)) (appendRunEvent (t_run t) e ?y)"
    if "find_run x (t_run t) = Some r" "r_status r \<notin> {R_SUCCEEDED, R_CANCELLED}" for e r
    using step_ok_appendRunEvent [OF y] find_run_at [OF i that(1)] that(2)
    by (auto simp: holds_def appendRunEvent_at fire_timer_def)
  have adv: "holds (\<lambda>(n, aff, y). step_ok x y) (ebind (advanceAfterStepSuccessTx c manifests now (t_run t) out z)
      (\<lambda>d. Inr (n, aff, recomputeRunStatusForDelayTx (t_run t) d)))"
    if "step_ok x z \<and> run_failable z (t_run t)" for z out n aff
    using that by (auto intro!: holds_bind [OF advanceAfterStepSuccessTx_ok] recompute_ok)
  show "holds (\<lambda>(n, aff, y). step_ok x y) (fire_delay_timer c manifests now t (m, aff, x))"
    unfolding fire_delay_timer_def prod.case
    by (auto split: option.split intro!: holds_bind [OF z] adv)
qed

lemma FireDueDelayTimers_ok: "holds (\<lambda>(n, aff, y). step_ok d y) (FireDueDelayTimers c manifests now d)"
  unfolding FireDueDelayTimers_def
  by (rule holds_efold) (use fire_delay_timer_ok in \<open>force\<close>, simp)

section \<open>Properties\<close>

text \<open>A run whose first step has succeeded and whose choice is about to be taken.\<close>

definition sample_wn :: "string \<Rightarrow> string \<Rightarrow> string list \<Rightarrow> workflowNode" where
  "sample_wn nid ty ds = \<lparr> wn_ID = nid, wn_Type = ty, wn_Task = ''t'', wn_After = ds, wn_Input = JNull, wn_DelayMs = None,
     wn_Choice = None, wn_Merge = None, wn_Approval = None \<rparr>"

definition sample_branch :: "string \<Rightarrow> string \<Rightarrow> choiceBranch" where
  "sample_branch b k = \<lparr> cb_Name = b, cb_Condition = JObj [(''op'', JStr ''exists''), (''args'', JArr [
     JObj [(''$ref'', JStr ''step.output''), (''stepId'', JStr ''a''), (''pointer'', JStr k)]])] \<rparr>"

definition sample_cc :: choiceConfig where
  "sample_cc = \<lparr> cc_Branches = [sample_branch ''l'' ''/k'', sample_branch ''r'' []], cc_Default = ''r'' \<rparr>"

definition sample_mc :: mergeConfig where
  "sample_mc = \<lparr> mc_Choice = ''c'', mc_Branches = [\<lparr> mb_Branch = ''l'', mb_Terminal = ''x'', mb_Value = JNull \<rparr>,
     \<lparr> mb_Branch = ''r'', mb_Terminal = ''y'', mb_Value = JNull \<rparr>], mc_OutputSchema = JBool True \<rparr>"

definition sample_wm :: workflowManifest where
  "sample_wm = \<lparr> wm_Name = ''w'', wm_InputSchema = JNull, wm_OutputSchema = JNull,
     wm_Nodes = [sample_wn ''a'' ''task'' [], (sample_wn ''c'' ''choice'' [''a''])\<lparr>wn_Choice := Some sample_cc\<rparr>,
       sample_wn ''x'' ''task'' [''c''], sample_wn ''y'' ''task'' [''c''],
       (sample_wn ''m'' ''merge'' [''x'', ''y''])\<lparr>wn_Merge := Some sample_mc\<rparr>],
     wm_Output = JNull \<rparr>"

definition sample_dm :: deploymentManifest where
  "sample_dm = \<lparr> dm_TargetOS = ''linux'', dm_TargetArchitecture = ''amd64'', dm_Tasks = [], dm_Workflows = [sample_wm] \<rparr>"

definition sample_dag_db :: db where
  "sample_dag_db = sample_db\<lparr>db_steps := [(sample_step 10 ''a'' S_SUCCEEDED)\<lparr>s_output := Some (JObj [(''k'', JNull)])\<rparr>,
     sample_step 11 ''c'' S_BLOCKED, sample_step 12 ''x'' S_BLOCKED, sample_step 13 ''y'' S_BLOCKED, sample_step 14 ''m'' S_BLOCKED],
     db_attempts := [], db_leases := [], db_timers := [], db_cases := []\<rparr>"

definition sample_eval :: "dag_result tx" where
  "sample_eval = evaluateBlockedDAGTx sample_externals 1000 1 ''w'' sample_wm sample_dm JNull
     (local_steps sample_dag_db 1) (local_outputs sample_dag_db 1) sample_dag_db"

lemma sample_eval_going:
  obtains g where "sample_eval = Inr (Going g)" "state_of g ''x'' = Some S_READY" "state_of g ''y'' = Some S_SKIPPED"
    "state_of g ''c'' = Some S_SUCCEEDED"
proof -
  have "case sample_eval of Inr (Going g) \<Rightarrow> state_of g ''x'' = Some S_READY \<and> state_of g ''y'' = Some S_SKIPPED \<and>
      state_of g ''c'' = Some S_SUCCEEDED | _ \<Rightarrow> False" by code_simp
  then show ?thesis using that by (auto split: sum.splits dag_result.splits)
qed

text \<open>C9: the evaluation of a graph ends, and when it ends without failing the run it has reached a
  fixed point: no task, choice or delay node is left whose step is still BLOCKED, in the local copy and
  in its row, although all its dependencies have succeeded or been skipped.  No step that could run
  is left behind.\<close>

theorem evaluateBlockedDAGTx_fixpoint:
  assumes "evaluateBlockedDAGTx c now runID name w m input steps outputs d = Inr (Going g)" and "n \<in> set (wm_Nodes w)"
    and "wn_Type n \<notin> {''merge'', ''approval''}" and "state_of g (wn_ID n) = Some S_BLOCKED"
    and "map_of (g_steps g) (wn_ID n) = Some e" and "blocked_row (g_db g) (de_id e)"
  shows "\<exists>dep \<in> set (wn_After n). state_of g dep \<noteq> Some S_SUCCEEDED \<and> state_of g dep \<noteq> Some S_SKIPPED"
proof -
  have "\<not> runnable g n"
    using assms(1,2) dag_loop_still unfolding evaluateBlockedDAGTx_def by (auto split: option.splits)
  then show ?thesis using assms(3-6) by (auto simp: runnable_def deps_met_def state_of_def)
qed

text \<open>The next evaluation of the sample, with the selected branch still to run, leaves a step blocked
  behind it.\<close>

definition sample_tail :: workflowManifest where
  "sample_tail = sample_wm\<lparr>wm_Nodes := [sample_wn ''a'' ''task'' [], sample_wn ''c'' ''task'' [''a''], sample_wn ''x'' ''task'' [''c'']]\<rparr>"

theorem evaluateBlockedDAGTx_fixpoint_witness:
  "\<exists>g. evaluateBlockedDAGTx sample_externals 1000 1 ''w'' sample_tail sample_dm JNull (local_steps sample_dag_db 1) [] sample_dag_db
      = Inr (Going g) \<and> state_of g ''x'' = Some S_BLOCKED \<and> state_of g ''c'' \<notin> {Some S_SUCCEEDED, Some S_SKIPPED}"
proof -
  let ?r = "evaluateBlockedDAGTx sample_externals 1000 1 ''w'' sample_tail sample_dm JNull (local_steps sample_dag_db 1) [] sample_dag_db"
  have "case ?r of Inr (Going g) \<Rightarrow> map_of (g_steps g) ''x'' = Some \<lparr> de_id = 12, de_state = S_BLOCKED \<rparr> \<and> blocked_row (g_db g) 12
      | _ \<Rightarrow> False" by code_simp
  then obtain g where g: "?r = Inr (Going g)" "map_of (g_steps g) ''x'' = Some \<lparr> de_id = 12, de_state = S_BLOCKED \<rparr>"
    "blocked_row (g_db g) 12" by (auto split: sum.splits dag_result.splits)
  have n: "sample_wn ''x'' ''task'' [''c''] \<in> set (wm_Nodes sample_tail)" by (simp add: sample_tail_def)
  have "\<exists>dep \<in> set (wn_After (sample_wn ''x'' ''task'' [''c''])).
      state_of g dep \<noteq> Some S_SUCCEEDED \<and> state_of g dep \<noteq> Some S_SKIPPED"
    by (rule evaluateBlockedDAGTx_fixpoint [where e = "\<lparr> de_id = 12, de_state = S_BLOCKED \<rparr>", OF g(1) n])
      (use g in \<open>simp_all add: sample_wn_def state_of_def\<close>)
  then show ?thesis using g by (auto simp: sample_wn_def state_of_def)
qed



lemma terminalize_run:
  assumes "terminalize rid f event d = Inr (b, d')" and "find_run d rid = Some r" and "\<not> run_terminal (r_status r)"
    and "\<And>q. r_id (f q) = r_id q"
  shows "b \<and> find_run d' rid = Some ((f r)\<lparr>r_last_event := r_last_event (f r) + 1\<rparr>)"
proof -
  let ?u = "upd_runs (\<lambda>r. r_id r = rid \<and> \<not> run_terminal (r_status r)) f d"
  have ex: "\<exists>q \<in> set (db_runs d). r_id q = rid \<and> \<not> run_terminal (r_status q)"
    using find_run_id [OF assms(2)] assms(3) by blast
  then have a: "appendRunEvent rid event ?u = Inr d'" and b: b
    using assms(1) by (auto simp: terminalize_def)
  have u: "find_run ?u rid = Some (f r)" using assms(2,3,4) find_run_id [OF assms(2)] by (simp add: find_run_upd)
  have "find_run d' rid = find_run (upd_runs (\<lambda>q. r_id q = rid) (\<lambda>q. q\<lparr>r_last_event := r_last_event q + 1\<rparr>) ?u) rid"
    using appendRunEventD(1) [OF a] by (simp add: find_run_def)
  also have "\<dots> = Some ((f r)\<lparr>r_last_event := r_last_event (f r) + 1\<rparr>)"
    using u find_run_id [OF u] by (simp add: find_run_upd)
  finally show ?thesis using b by simp
qed

text \<open>C22: the settlement of an open run.  Nothing happens until every node's step is terminal.  Then the
  run becomes SUCCEEDED only when every step has succeeded or been skipped and the output, mapped
  from the committed outputs, conforms to the workflow's output schema, and that output is the one
  stored; otherwise it becomes FAILED with the reason of the first check that failed.\<close>

theorem settleRunTerminalTx_outcome:
  assumes "settleRunTerminalTx c runID w states outputs input dflt d = Inr (b, d')" and "find_run d runID = Some r"
    and "\<not> run_terminal (r_status r)" and "\<And>n. st n = map_option de_state (map_of states (wn_ID n))"
  shows "(b \<longleftrightarrow> (\<forall>n \<in> set (wm_Nodes w). \<exists>q. st n = Some q \<and> step_terminal q)) \<and> (\<not> b \<longrightarrow> d' = d) \<and>
    (b \<longrightarrow> (\<exists>r'. find_run d' runID = Some r' \<and>
       (r_status r' = R_SUCCEEDED \<and> r_reason r' = None \<and> (\<forall>n \<in> set (wm_Nodes w). st n \<in> {Some S_SUCCEEDED, Some S_SKIPPED}) \<and>
          (\<exists>out. final_output w input outputs dflt = Inr out \<and> r_output r' = Some out \<and>
             (wm_OutputSchema w = JNull \<or> ValidatePayload c (wm_OutputSchema w) out = Inr ())) \<or>
        r_status r' = R_FAILED \<and> r_output r' = r_output r \<and>
          r_reason r' = Some (if \<exists>n \<in> set (wm_Nodes w). st n \<notin> {Some S_SUCCEEDED, Some S_SKIPPED} then ''STEP_FAILED''
             else if \<exists>e. final_output w input outputs dflt = Inl e then ''OUTPUT_MAPPING_ERROR'' else ''OUTPUT_SCHEMA_VIOLATION''))))"
proof (cases "\<forall>n \<in> set (wm_Nodes w). \<exists>q. st n = Some q \<and> step_terminal q")
  case False
  then have "\<not> (\<forall>n \<in> set (wm_Nodes w). case map_option de_state (map_of states (wn_ID n)) of None \<Rightarrow> False | Some s \<Rightarrow> step_terminal s)"
    unfolding assms(4) by (force split: option.splits)
  then have "\<not> b \<and> d' = d" using assms(1) unfolding settleRunTerminalTx_def Let_def by simp
  then show ?thesis using False by blast
next
  case True
  then have all: "\<forall>n \<in> set (wm_Nodes w). case st n of None \<Rightarrow> False | Some s \<Rightarrow> step_terminal s"
    by (force split: option.splits)
  note settled = assms(1) [unfolded settleRunTerminalTx_def Let_def assms(4) [symmetric]]
  have fail: "b \<and> (\<exists>r'. find_run d' runID = Some r' \<and> r_status r' = R_FAILED \<and> r_output r' = r_output r \<and> r_reason r' = Some code)"
    if "fail_output runID code d = Inr (b, d')" for code
    using terminalize_run [OF that [unfolded fail_output_def] assms(2,3)] by simp
  show ?thesis
  proof (cases "\<forall>n \<in> set (wm_Nodes w). st n \<in> {Some S_SUCCEEDED, Some S_SKIPPED}")
    case False
    then have no: "\<not> (\<forall>n \<in> set (wm_Nodes w). st n = Some S_SUCCEEDED \<or> st n = Some S_SKIPPED)" by simp
    have "fail_output runID ''STEP_FAILED'' d = Inr (b, d')" using settled all unfolding if_not_P [OF no] by argo
    from fail [OF this] show ?thesis using True False by auto
  next
    case ok: True
    then have yes: "\<forall>n \<in> set (wm_Nodes w). st n = Some S_SUCCEEDED \<or> st n = Some S_SKIPPED" by simp
    have s: "(case final_output w input outputs dflt of
           Inl _ \<Rightarrow> fail_output runID ''OUTPUT_MAPPING_ERROR'' d
         | Inr out \<Rightarrow>
             if wm_OutputSchema w \<noteq> JNull \<and> ValidatePayload c (wm_OutputSchema w) out \<noteq> Inr ()
             then fail_output runID ''OUTPUT_SCHEMA_VIOLATION'' d
             else (case CanonicalizeGeneric c out of
                     Inl _ \<Rightarrow> Inl ErrPayloadTooLarge
                   | Inr finalJSON \<Rightarrow>
                       if int (length finalJSON) > MaxInlinePayloadBytes then Inl ErrPayloadTooLarge
                       else terminalize runID (\<lambda>r. r\<lparr>r_status := R_SUCCEEDED, r_output := Some out, r_reason := None\<rparr>)
                              ''RUN_COMPLETED'' d)) = Inr (b, d')"
      using settled all unfolding if_P [OF yes] by argo
    show ?thesis
    proof (cases "final_output w input outputs dflt")
      case (Inl e)
      then have "fail_output runID ''OUTPUT_MAPPING_ERROR'' d = Inr (b, d')" using s by simp
      from fail [OF this] show ?thesis using True ok Inl by auto
    next
      case (Inr out)
      show ?thesis
      proof (cases "wm_OutputSchema w \<noteq> JNull \<and> ValidatePayload c (wm_OutputSchema w) out \<noteq> Inr ()")
        case bad: True
        then have "fail_output runID ''OUTPUT_SCHEMA_VIOLATION'' d = Inr (b, d')" using s Inr by simp
        from fail [OF this] show ?thesis using True ok Inr by auto
      next
        case good: False
        then have "terminalize runID (\<lambda>r. r\<lparr>r_status := R_SUCCEEDED, r_output := Some out, r_reason := None\<rparr>) ''RUN_COMPLETED'' d = Inr (b, d')"
          using s Inr by (simp split: sum.splits if_splits)
        from terminalize_run [OF this assms(2,3)] show ?thesis using True ok Inr good by auto
      qed
    qed
  qed
qed

text \<open>The hypotheses hold for the sample run when all its steps have ended.\<close>

theorem settleRunTerminalTx_outcome_witness:
  "\<exists>d' r'. settleRunTerminalTx sample_externals 1 sample_tail
      (map (\<lambda>k. (k, \<lparr> de_id = 10, de_state = S_SUCCEEDED \<rparr>)) [''a'', ''c'', ''x'']) [] JNull (JObj []) sample_dag_db = Inr (True, d') \<and>
     find_run d' 1 = Some r' \<and> r_status r' = R_SUCCEEDED \<and> r_output r' = Some (JObj [])"
proof -
  let ?st = "map (\<lambda>k. (k, \<lparr> de_id = 10, de_state = S_SUCCEEDED \<rparr>)) [''a'', ''c'', ''x'']"
  let ?r = "settleRunTerminalTx sample_externals 1 sample_tail ?st [] JNull (JObj []) sample_dag_db"
  have c: "case ?r of Inl _ \<Rightarrow> False | Inr (b, d') \<Rightarrow> b \<and> map r_status (db_runs d') = [R_SUCCEEDED]"
    "case find_run sample_dag_db 1 of None \<Rightarrow> False | Some r \<Rightarrow> \<not> run_terminal (r_status r)"
    "final_output sample_tail JNull [] (JObj []) = Inr (JObj [])" by code_simp+
  obtain d' r where d': "?r = Inr (True, d')" "map r_status (db_runs d') = [R_SUCCEEDED]"
    and r: "find_run sample_dag_db 1 = Some r" "\<not> run_terminal (r_status r)"
    using c(1,2) by (auto split: sum.splits option.splits)
  define st where "st n = map_option de_state (map_of ?st (wn_ID n))" for n :: workflowNode
  obtain r' where r': "find_run d' 1 = Some r'"
    "r_status r' = R_SUCCEEDED \<and> r_output r' = Some (JObj []) \<or> r_status r' = R_FAILED"
    using settleRunTerminalTx_outcome [OF d'(1) r st_def] c(3) by auto
  moreover have "r_status r' = R_SUCCEEDED" using find_run_id [OF r'(1)] d'(2) by (cases "db_runs d'") auto
  ultimately show ?thesis using d'(1) by auto
qed

end
