(* ===== verification/Command_Store.thy ===== *)
theory Command_Store
  imports Prelude
begin

text \<open>
  The canonical path of a tenant mutation (\<open>internal/tenant/command.go\<close>): a command is claimed by its
  scope and idempotency key, mutates the tenant's state, records the encoded outcome, and is
  replayed from that record, all in one transaction.  The tenant's state, the mutation, its errors
  and its outcome are parameters, as they are in the code; so are the encoding and decoding of an
  outcome (\<open>encoding/json\<close>).
\<close>

section \<open>Commands\<close>

record Command =
  cmd_Scope :: string
  cmd_Key :: string
  cmd_Fingerprint :: string
  cmd_Operation :: string

datatype CommandStatus = PROCESSING | COMPLETED

record command_row =
  k_scope :: string
  k_key :: string
  k_fingerprint :: string
  k_operation :: string
  k_status :: CommandStatus
  k_code :: int
  k_outcome :: string

datatype 'e command_error = MutationError 'e | ErrIdempotencyConflict | ErrCommandStorage

definition commandFromContext :: "Command option \<Rightarrow> Command option" where
  "commandFromContext ctx =
     (case ctx of
        None \<Rightarrow> None
      | Some c \<Rightarrow> if cmd_Key c \<noteq> [] \<and> cmd_Scope c \<noteq> [] \<and> cmd_Fingerprint c \<noteq> [] \<and> cmd_Operation c \<noteq> [] then Some c else None)"

definition same_command :: "Command \<Rightarrow> command_row \<Rightarrow> bool" where
  "same_command c r \<longleftrightarrow> k_scope r = cmd_Scope c \<and> k_key r = cmd_Key c"

text \<open>The unique index on scope and key decides the claim: \<open>ON CONFLICT DO NOTHING\<close>.\<close>

definition claim_command :: "Command \<Rightarrow> int \<Rightarrow> command_row list \<Rightarrow> command_row list option" where
  "claim_command c code rows =
     (if List.find (same_command c) rows \<noteq> None then None
      else Some (rows @ [\<lparr> k_scope = cmd_Scope c, k_key = cmd_Key c, k_fingerprint = cmd_Fingerprint c,
             k_operation = cmd_Operation c, k_status = PROCESSING, k_code = code, k_outcome = ''{}'' \<rparr>]))"

definition complete_command :: "Command \<Rightarrow> int \<Rightarrow> string \<Rightarrow> command_row list \<Rightarrow> command_row list" where
  "complete_command c code raw rows =
     map (\<lambda>r. if same_command c r then r\<lparr>k_status := COMPLETED, k_code := code, k_outcome := raw\<rparr> else r) rows"

definition status_or_ok :: "int \<Rightarrow> int" where
  "status_or_ok code = (if code \<le> 0 then 200 else code)"

text \<open>The recorded outcome of a command that was claimed before.\<close>

definition replay_command :: "(string \<Rightarrow> 'o option) \<Rightarrow> Command \<Rightarrow> command_row list \<Rightarrow> 'e command_error + ('o \<times> int)" where
  "replay_command decode c rows =
     (case List.find (same_command c) rows of
        None \<Rightarrow> Inl ErrCommandStorage
      | Some r \<Rightarrow>
          if k_fingerprint r \<noteq> cmd_Fingerprint c \<or> k_operation r \<noteq> cmd_Operation c then Inl ErrIdempotencyConflict
          else if k_status r \<noteq> COMPLETED then Inl ErrCommandStorage
          else (case decode (k_outcome r) of None \<Rightarrow> Inl ErrCommandStorage | Some out \<Rightarrow> Inr (out, k_code r)))"

section \<open>Transactions\<close>

text \<open>Whether the outcome was replayed, the outcome, and the state after the commit.\<close>

definition withCommandTx ::
    "('o \<Rightarrow> string option) \<Rightarrow> (string \<Rightarrow> 'o option) \<Rightarrow> Command option \<Rightarrow> string \<Rightarrow> int \<Rightarrow> ('s \<Rightarrow> 'e + ('o \<times> 's)) \<Rightarrow>
     command_row list \<times> 's \<Rightarrow> 'e command_error + (bool \<times> 'o \<times> command_row list \<times> 's)" where
  "withCommandTx encode decode ctx operation responseCode mutate st =
     (case st of (rows, s) \<Rightarrow>
       (case commandFromContext ctx of
          None \<Rightarrow> (case mutate s of Inl e \<Rightarrow> Inl (MutationError e) | Inr (out, s') \<Rightarrow> Inr (False, out, rows, s'))
        | Some c \<Rightarrow>
            if operation \<noteq> [] \<and> cmd_Operation c \<noteq> operation then Inl ErrCommandStorage
            else
              (let code = status_or_ok responseCode in
               case claim_command c code rows of
                 Some claimed \<Rightarrow>
                   (case mutate s of
                      Inl e \<Rightarrow> Inl (MutationError e)
                    | Inr (out, s') \<Rightarrow>
                        (case encode out of
                           None \<Rightarrow> Inl ErrCommandStorage
                         | Some raw \<Rightarrow> Inr (False, out, complete_command c code raw claimed, s')))
               | None \<Rightarrow>
                   (case replay_command decode c rows of
                      Inl e \<Rightarrow> Inl e
                    | Inr (out, _) \<Rightarrow> Inr (True, out, rows, s)))))"

text \<open>The variant that records the code the mutation's outcome selects, and returns the recorded code.\<close>

definition WithCommandTxDynamic ::
    "('o \<Rightarrow> string option) \<Rightarrow> (string \<Rightarrow> 'o option) \<Rightarrow> Command option \<Rightarrow> string \<Rightarrow> ('o \<Rightarrow> int) \<Rightarrow> ('s \<Rightarrow> 'e + ('o \<times> 's)) \<Rightarrow>
     command_row list \<times> 's \<Rightarrow> 'e command_error + (bool \<times> int \<times> 'o \<times> command_row list \<times> 's)" where
  "WithCommandTxDynamic encode decode ctx operation responseCode mutate st =
     (case st of (rows, s) \<Rightarrow>
       (case commandFromContext ctx of
          None \<Rightarrow> (case mutate s of Inl e \<Rightarrow> Inl (MutationError e) | Inr (out, s') \<Rightarrow> Inr (False, responseCode out, out, rows, s'))
        | Some c \<Rightarrow>
            if operation \<noteq> [] \<and> cmd_Operation c \<noteq> operation then Inl ErrCommandStorage
            else
              (case claim_command c 200 rows of
                 Some claimed \<Rightarrow>
                   (case mutate s of
                      Inl e \<Rightarrow> Inl (MutationError e)
                    | Inr (out, s') \<Rightarrow>
                        (case encode out of
                           None \<Rightarrow> Inl ErrCommandStorage
                         | Some raw \<Rightarrow>
                             (let code = status_or_ok (responseCode out) in
                              Inr (False, code, out, complete_command c code raw claimed, s'))))
               | None \<Rightarrow>
                   (case replay_command decode c rows of
                      Inl e \<Rightarrow> Inl e
                    | Inr (out, code) \<Rightarrow> Inr (True, code, out, rows, s)))))"

text \<open>\<open>GetCompletedCommand\<close>: the recorded code and outcome.\<close>

definition GetCompletedCommand :: "string \<Rightarrow> string \<Rightarrow> command_row list \<Rightarrow> command_row option" where
  "GetCompletedCommand scope key rows = List.find (\<lambda>r. k_scope r = scope \<and> k_key r = key \<and> k_status r = COMPLETED) rows"

section \<open>The command table\<close>

definition row_key :: "command_row \<Rightarrow> string \<times> string" where
  "row_key r = (k_scope r, k_key r)"

definition command_key :: "Command \<Rightarrow> string \<times> string" where
  "command_key c = (cmd_Scope c, cmd_Key c)"

lemma same_command_key: "same_command c r \<longleftrightarrow> row_key r = command_key c"
  by (auto simp: same_command_def row_key_def command_key_def)

text \<open>Between transactions every row is a completed command, one per scope and key.\<close>

definition commands_ok :: "command_row list \<Rightarrow> bool" where
  "commands_ok rows \<longleftrightarrow> distinct (map row_key rows) \<and> (\<forall>r \<in> set rows. k_status r = COMPLETED)"

lemma claim_complete:
  assumes "claim_command c code rows = Some claimed"
  shows "complete_command c code' raw claimed = rows @ [\<lparr> k_scope = cmd_Scope c, k_key = cmd_Key c, k_fingerprint = cmd_Fingerprint c,
      k_operation = cmd_Operation c, k_status = COMPLETED, k_code = code', k_outcome = raw \<rparr>]"
    and "command_key c \<notin> set (map row_key rows)"
proof -
  have n: "\<forall>r \<in> set rows. \<not> same_command c r"
    using assms by (auto simp: claim_command_def find_None_iff split: if_splits)
  have "map (\<lambda>r. if same_command c r then r\<lparr>k_status := COMPLETED, k_code := code', k_outcome := raw\<rparr> else r) rows = rows"
    using n by (intro map_idI) simp
  then show "complete_command c code' raw claimed = rows @ [\<lparr> k_scope = cmd_Scope c, k_key = cmd_Key c, k_fingerprint = cmd_Fingerprint c,
      k_operation = cmd_Operation c, k_status = COMPLETED, k_code = code', k_outcome = raw \<rparr>]"
    using assms by (auto simp: claim_command_def complete_command_def same_command_def split: if_splits)
  show "command_key c \<notin> set (map row_key rows)" using n by (force simp: same_command_key)
qed

text \<open>What a transaction under a command does: it replays the recorded outcome and changes nothing, or
  it runs the mutation and adds the completed row.\<close>

lemma withCommandTx_cases:
  assumes "withCommandTx encode decode ctx operation code mutate (rows, s) = Inr (replayed, out, rows', s')"
    and "commandFromContext ctx = Some c"
  obtains (replay) r where "replayed" "rows' = rows" "s' = s" "List.find (same_command c) rows = Some r"
      "k_fingerprint r = cmd_Fingerprint c" "k_operation r = cmd_Operation c" "decode (k_outcome r) = Some out"
  | (run) raw where "\<not> replayed" "mutate s = Inr (out, s')" "encode out = Some raw" "command_key c \<notin> set (map row_key rows)"
      "rows' = rows @ [\<lparr> k_scope = cmd_Scope c, k_key = cmd_Key c, k_fingerprint = cmd_Fingerprint c,
         k_operation = cmd_Operation c, k_status = COMPLETED, k_code = status_or_ok code, k_outcome = raw \<rparr>]"
proof (cases "claim_command c (status_or_ok code) rows")
  case None
  then show ?thesis
    using assms by (auto simp: withCommandTx_def Let_def replay_command_def split: if_splits sum.splits option.splits intro: replay)
next
  case (Some claimed)
  then obtain raw where "\<not> replayed" "mutate s = Inr (out, s')" "encode out = Some raw"
    "rows' = complete_command c (status_or_ok code) raw claimed"
    using assms by (auto simp: withCommandTx_def Let_def split: if_splits sum.splits option.splits)
  then show ?thesis using claim_complete [OF Some] by (auto intro: run)
qed

lemma withCommandTx_ok:
  assumes "withCommandTx encode decode ctx operation code mutate (rows, s) = Inr (replayed, out, rows', s')" and "commands_ok rows"
  shows "commands_ok rows' \<and> (\<exists>new. rows' = rows @ new)"
proof (cases "commandFromContext ctx")
  case None
  then show ?thesis using assms by (auto simp: withCommandTx_def split: sum.splits)
next
  case (Some c)
  from assms(1) Some show ?thesis
    by (cases rule: withCommandTx_cases) (use assms(2) in \<open>auto simp: commands_ok_def row_key_def command_key_def\<close>)
qed

lemma find_append_old: "List.find P xs = Some x \<Longrightarrow> List.find P (xs @ ys) = Some x"
  by (induction xs) auto

section \<open>Properties\<close>

text \<open>C24: a command takes effect once.  Once a command has been accepted, every later request with the same
  scope, key, fingerprint and operation, whatever has been committed in between and whatever
  mutation it carries, is answered with the recorded outcome and changes nothing.\<close>

theorem withCommandTx_replays:
  assumes "withCommandTx encode decode ctx operation code mutate (rows, s) = Inr (replayed, out, rows', s')"
    and "commandFromContext ctx = Some c" and "\<And>v raw. encode v = Some raw \<Longrightarrow> decode raw = Some v" and "commands_ok rows"
    and "operation' = [] \<or> operation' = cmd_Operation c"
  shows "withCommandTx encode decode ctx operation' code' mutate' (rows' @ later, t) = Inr (True, out, rows' @ later, t)"
proof -
  have "\<exists>r. List.find (same_command c) rows' = Some r \<and> k_fingerprint r = cmd_Fingerprint c \<and> k_operation r = cmd_Operation c \<and>
      k_status r = COMPLETED \<and> decode (k_outcome r) = Some out"
    using assms(1,2)
  proof (cases rule: withCommandTx_cases)
    case (replay r)
    moreover have "r \<in> set rows" using replay(4) find_Some_set by fast
    ultimately show ?thesis using assms(4) by (simp add: commands_ok_def)
  next
    case (run raw)
    have "List.find (same_command c) rows = None"
      using run(4) by (force simp: find_None_iff same_command_key)
    then have "List.find (same_command c) rows' = Some \<lparr> k_scope = cmd_Scope c, k_key = cmd_Key c, k_fingerprint = cmd_Fingerprint c,
         k_operation = cmd_Operation c, k_status = COMPLETED, k_code = status_or_ok code, k_outcome = raw \<rparr>"
      unfolding run(5) by (simp add: find_append same_command_def)
    then show ?thesis using assms(3) [OF run(3)] by simp
  qed
  then obtain r where r: "List.find (same_command c) rows' = Some r" "k_fingerprint r = cmd_Fingerprint c"
    "k_operation r = cmd_Operation c" "k_status r = COMPLETED" "decode (k_outcome r) = Some out"
    by blast
  have f: "List.find (same_command c) (rows' @ later) = Some r" by (rule find_append_old [OF r(1)])
  have "claim_command c (status_or_ok code') (rows' @ later) = None" by (simp add: claim_command_def f)
  moreover have "\<not> (operation' \<noteq> [] \<and> cmd_Operation c \<noteq> operation')" using assms(5) by blast
  ultimately show ?thesis unfolding withCommandTx_def prod.case assms(2) option.case Let_def by (simp add: replay_command_def f r)
qed

text \<open>An outcome that is a text, encoded as itself.\<close>

definition sample_command :: Command where
  "sample_command = \<lparr> cmd_Scope = ''org'', cmd_Key = ''k1'', cmd_Fingerprint = ''f'', cmd_Operation = ''run.cancel'' \<rparr>"

definition sample_rows :: "command_row list" where
  "sample_rows = complete_command sample_command 200 ''done'' (the (claim_command sample_command 200 []))"

theorem withCommandTx_replays_witness:
  "withCommandTx Some Some (Some sample_command) [] 200 (\<lambda>n. Inl ''late'' :: string + string \<times> int) (sample_rows @ [], 7) =
   Inr (True, ''done'', sample_rows @ [], 7)"
proof -
  have first: "withCommandTx Some Some (Some sample_command) [] 200 (\<lambda>n. Inr (''done'', n + 1) :: string + string \<times> int) ([], 1) =
      Inr (False, ''done'', sample_rows, 2)" by code_simp
  have c: "commandFromContext (Some sample_command) = Some sample_command" and ok: "commands_ok []" by code_simp+
  show ?thesis by (rule withCommandTx_replays [OF first c _ ok]) simp_all
qed

text \<open>A sequence of requests, each with its own mutation; a request that fails is rolled back.  The log
  lists the scope and key of the commands whose mutation was committed.\<close>

fun command_log ::
    "('o \<Rightarrow> string option) \<Rightarrow> (string \<Rightarrow> 'o option) \<Rightarrow> (Command \<times> ('s \<Rightarrow> 'e + ('o \<times> 's))) list \<Rightarrow> command_row list \<times> 's \<Rightarrow>
     (string \<times> string) list" where
  "command_log encode decode [] st = []"
| "command_log encode decode ((c, mutate) # reqs) st =
     (case withCommandTx encode decode (Some c) [] 200 mutate st of
        Inl _ \<Rightarrow> command_log encode decode reqs st
      | Inr (replayed, _, st') \<Rightarrow> (if replayed then [] else [command_key c]) @ command_log encode decode reqs st')"

text \<open>C3: at most once.  In any sequence of requests that carry a command identity, with retries,
  failures and conflicting reuses of a key in any order, the mutations of a scope and key are
  committed at most once, and never for a command accepted before the sequence.\<close>

theorem command_log_once:
  assumes "commands_ok rows" and "\<forall>(c, _) \<in> set reqs. commandFromContext (Some c) = Some c"
  shows "distinct (command_log encode decode reqs (rows, s)) \<and>
    set (command_log encode decode reqs (rows, s)) \<inter> set (map row_key rows) = {}"
  using assms
proof (induction reqs arbitrary: rows s)
  case (Cons req reqs)
  obtain c mutate where req: "req = (c, mutate)" by (cases req)
  have c: "commandFromContext (Some c) = Some c" using Cons.prems(2) req by auto
  have reqs: "\<forall>(c, _) \<in> set reqs. commandFromContext (Some c) = Some c" using Cons.prems(2) by auto
  show ?case
  proof (cases "withCommandTx encode decode (Some c) [] 200 mutate (rows, s)")
    case (Inl e)
    then show ?thesis using Cons.IH [OF Cons.prems(1) reqs] req by simp
  next
    case (Inr res)
    obtain replayed out rows' s' where res: "res = (replayed, out, rows', s')" by (cases res)
    note w = Inr [unfolded res]
    have ok: "commands_ok rows'" using withCommandTx_ok [OF w Cons.prems(1)] by blast
    note IH = Cons.IH [OF ok reqs, of s']
    from w c show ?thesis
    proof (cases rule: withCommandTx_cases)
      case (replay r)
      then show ?thesis using IH w req by simp
    next
      case (run raw)
      have "set (map row_key rows') = insert (command_key c) (set (map row_key rows))"
        using run(5) by (simp add: row_key_def command_key_def)
      then show ?thesis using IH w req run(1,4) by auto
    qed
  qed
qed simp

theorem command_log_once_witness:
  "length (command_log Some Some (replicate 3 (sample_command, \<lambda>n :: int. Inr (''done'', n + 1) :: string + string \<times> int)) ([], 0)) = 1 \<and>
   distinct (command_log Some Some (replicate 3 (sample_command, \<lambda>n :: int. Inr (''done'', n + 1) :: string + string \<times> int)) ([], 0))"
proof -
  have "length (command_log Some Some (replicate 3 (sample_command, \<lambda>n :: int. Inr (''done'', n + 1) :: string + string \<times> int)) ([], 0)) = 1"
    "commands_ok []" "commandFromContext (Some sample_command) = Some sample_command" by code_simp+
  then show ?thesis
    using command_log_once [of "[]" "replicate 3 (sample_command, \<lambda>n :: int. Inr (''done'', n + 1) :: string + string \<times> int)" Some Some 0]
    by simp
qed

end
