(* ===== verification/Run_Control.thy ===== *)
theory Run_Control
  imports Dag_Evaluator Command_Store
begin

text \<open>
  Control of a run (\<open>internal/execution/cancel.go\<close>, \<open>pause.go\<close>): cancellation with stop confirmation,
  pause and resume, and the sweep of runs whose deadline has passed.  The commands run through the
  command store; a control that finds the run overdue is rolled back and the run is failed in a
  second transaction.
\<close>

section \<open>The run as the API returns it\<close>

record RunDTO =
  dto_ID :: uid
  dto_EnvironmentID :: uid
  dto_WorkflowName :: string
  dto_DeploymentID :: uid
  dto_Status :: RunStatus
  dto_ReasonCode :: "string option"
  dto_Revision :: int
  dto_DeadlineAt :: "time option"
  dto_TerminationConfirmed :: "bool option"

definition queryRunDTO :: "db \<Rightarrow> uid \<Rightarrow> RunDTO tx" where
  "queryRunDTO d runID =
     (case find_run d runID of
        None \<Rightarrow> Inl ErrRunNotFound
      | Some r \<Rightarrow> Inr \<lparr> dto_ID = r_id r, dto_EnvironmentID = r_env r, dto_WorkflowName = r_workflow r,
          dto_DeploymentID = r_deployment r, dto_Status = r_status r, dto_ReasonCode = r_reason r, dto_Revision = r_revision r,
          dto_DeadlineAt = r_deadline r, dto_TerminationConfirmed = r_confirmed r \<rparr>)"

text \<open>Who asks.  The role, the capabilities and the correlation id only travel to the audit row's
  metadata.\<close>

datatype IdentityType = HUMAN | MACHINE

record AuditContext =
  ac_ActorID :: "string option"
  ac_ActorType :: IdentityType

definition audit_actor :: "AuditContext \<Rightarrow> string option" where
  "audit_actor a = (case ac_ActorID a of None \<Rightarrow> None | Some s \<Rightarrow> if TrimSpace s \<noteq> [] then Some s else None)"

section \<open>Cancellation\<close>

definition cancel_live_attempt :: "time \<Rightarrow> attempt_row \<Rightarrow> db \<Rightarrow> db" where
  "cancel_live_attempt now a d =
     insert_stop (a_id a) ''CANCEL_REQUESTED'' (now + CancelGraceMs * 1000000)
       (delete_leases (\<lambda>l. l_step l = a_step a)
         (upd_attempts (\<lambda>b. a_id b = a_id a)
           (\<lambda>b. b\<lparr>a_status := A_CANCELLED, a_completed := Some now,
                  a_error := Some \<lparr> e_code = ''CANCEL_REQUESTED'', e_retryable = False, e_effect = effect_of a \<rparr>\<rparr>) d))"

text \<open>The statements that stop the run's work, up to the open cases.\<close>

definition cancel_work :: "time \<Rightarrow> uid \<Rightarrow> db \<Rightarrow> db" where
  "cancel_work now runID d =
     (let d = fold (cancel_live_attempt now) (live_attempts d runID) d;
          d = upd_steps (\<lambda>s. s_run s = runID \<and> s_state s \<in> set open_states)
                (\<lambda>s. s\<lparr>s_state := S_CANCELLED, s_wait := Some ''CANCEL_REQUESTED''\<rparr>) d;
          d = cancel_timers runID d
      in upd_approvals (\<lambda>p. p_status p = P_PENDING \<and> p_step p \<in> set (step_ids d runID))
           (\<lambda>p. p\<lparr>p_status := P_CANCELLED, p_revision := p_revision p + 1\<rparr>) d)"

definition cancelRunTx :: "time \<Rightarrow> uid \<Rightarrow> int \<Rightarrow> AuditContext \<Rightarrow> db \<Rightarrow> (RunDTO \<times> db) tx" where
  "cancelRunTx now runID expectedRevision a d =
     (case find_run d runID of
        None \<Rightarrow> Inl ErrRunNotFound
      | Some r \<Rightarrow>
          if run_terminal (r_status r) then Inl ErrRunTerminal
          else if r_revision r \<noteq> expectedRevision then Inl ErrRevisionConflict
          else if r_status r = R_CANCELLING then ebind (queryRunDTO d runID) (\<lambda>dto. Inr (dto, d))
          else
            ebind (closeOpenCasesTx runID (audit_actor a) ''CANCEL'' (cancel_work now runID d)) (\<lambda>x.
            ebind (if live_attempts d runID = []
                   then appendRunEvent runID ''RUN_CANCELLED''
                     (upd_runs (\<lambda>q. r_id q = runID)
                        (\<lambda>q. q\<lparr>r_status := R_CANCELLED, r_reason := Some ''CANCEL_REQUESTED'', r_revision := r_revision q + 1,
                               r_confirmed := Some True\<rparr>) x)
                   else appendRunEvent runID ''RUN_CANCELLING''
                     (upd_runs (\<lambda>q. r_id q = runID)
                        (\<lambda>q. q\<lparr>r_status := R_CANCELLING, r_reason := Some ''CANCEL_REQUESTED'', r_revision := r_revision q + 1\<rparr>) x)) (\<lambda>x.
              let x = audit ''run.cancel'' runID x in
              ebind (queryRunDTO x runID) (\<lambda>dto. Inr (dto, x)))))"

text \<open>The stop commands of a run's attempts.\<close>

definition run_stops :: "db \<Rightarrow> uid \<Rightarrow> stop_row list" where
  "run_stops d runID = filter (\<lambda>x. \<exists>a \<in> set (db_attempts d). a_id a = x_attempt x \<and> a_step a \<in> set (step_ids d runID)) (db_stops d)"

definition settleCancellingRunTx :: "time \<Rightarrow> uid \<Rightarrow> db \<Rightarrow> (bool \<times> db) tx" where
  "settleCancellingRunTx now runID d =
     ebind (get_run d runID) (\<lambda>r.
       if r_status r \<noteq> R_CANCELLING then Inr (False, d)
       else if \<exists>x \<in> set (run_stops d runID). x_acked x = None \<and> now < x_deadline x then Inr (False, d)
       else
         (let confirmed = (\<forall>x \<in> set (run_stops d runID). x_confirmed x \<noteq> None) in
          ebind (appendRunEvent runID ''RUN_CANCELLED''
              (upd_runs (\<lambda>q. r_id q = runID) (\<lambda>q. q\<lparr>r_status := R_CANCELLED, r_confirmed := Some confirmed\<rparr>) d)) (\<lambda>d.
            Inr (True, d))))"

text \<open>\<open>SELECT DISTINCT id ... ORDER BY 1 LIMIT 50\<close>.\<close>

definition select_runs :: "(run_row \<Rightarrow> bool) \<Rightarrow> db \<Rightarrow> uid list" where
  "select_runs P d = take 50 (sort (remdups (map r_id (filter P (db_runs d)))))"

definition settle_cancelling :: "time \<Rightarrow> uid \<Rightarrow> nat \<times> uid list \<times> db \<Rightarrow> (nat \<times> uid list \<times> db) tx" where
  "settle_cancelling now runID st =
     (case st of (settled, affected, d) \<Rightarrow>
        ebind (settleCancellingRunTx now runID d) (\<lambda>(done', d).
          Inr (if done' then (settled + 1, affected @ [runID], d) else (settled, affected, d))))"

definition settleCancellingRunsTx :: "time \<Rightarrow> db \<Rightarrow> (nat \<times> uid list \<times> db) tx" where
  "settleCancellingRunsTx now d =
     efold (settle_cancelling now) (select_runs (\<lambda>r. r_status r = R_CANCELLING) d) (0, [], d)"

section \<open>Deadlines\<close>

definition failOverdueRunWithoutStepsTx :: "uid \<Rightarrow> db \<Rightarrow> db tx" where
  "failOverdueRunWithoutStepsTx runID d =
     ebind (closeOpenCasesTx runID None ''FAIL'' (cancel_timers runID d)) (\<lambda>d.
     ebind (terminalize runID (\<lambda>r. r\<lparr>r_status := R_FAILED, r_reason := Some ''RUN_DEADLINE_EXCEEDED''\<rparr>) ''RUN_FAILED'' d) (\<lambda>(_, d). Inr d))"

text \<open>The first nonterminal step takes the failure.\<close>

definition settleExpiredRunForControlTx :: "time \<Rightarrow> uid \<Rightarrow> db \<Rightarrow> db tx" where
  "settleExpiredRunForControlTx now runID d =
     (case sort_key s_id (steps_in d runID open_states) of
        [] \<Rightarrow> failOverdueRunWithoutStepsTx runID d
      | s # _ \<Rightarrow> failRunForStepTx now runID (s_id s) ''RUN_DEADLINE_EXCEEDED'' None d)"

definition overdue :: "time \<Rightarrow> db \<Rightarrow> run_row \<Rightarrow> bool" where
  "overdue now d r \<longleftrightarrow> r_status r \<in> {R_QUEUED, R_RUNNING, R_WAITING, R_PAUSING, R_PAUSED} \<and>
     past_deadline now (r_deadline r) \<and> live_attempts d (r_id r) = []"

definition fail_overdue :: "time \<Rightarrow> uid \<Rightarrow> nat \<times> uid list \<times> db \<Rightarrow> (nat \<times> uid list \<times> db) tx" where
  "fail_overdue now runID st =
     (case st of (n, affected, d) \<Rightarrow>
        (case find_run d runID of
           None \<Rightarrow> Inr st
         | Some r \<Rightarrow>
             if r_status r \<in> {R_SUCCEEDED, R_FAILED, R_CANCELLED, R_CANCELLING} then Inr st
             else ebind (settleExpiredRunForControlTx now runID d) (\<lambda>d. Inr (n + 1, affected @ [runID], d))))"

definition failOverdueRunsTx :: "time \<Rightarrow> db \<Rightarrow> (nat \<times> uid list \<times> db) tx" where
  "failOverdueRunsTx now d = efold (fail_overdue now) (select_runs (overdue now d) d) (0, [], d)"

definition settleOverdueRunForControl :: "time \<Rightarrow> uid \<Rightarrow> db \<Rightarrow> (bool \<times> db) tx" where
  "settleOverdueRunForControl now runID d =
     (case find_run d runID of
        None \<Rightarrow> Inl ErrRunNotFound
      | Some r \<Rightarrow>
          if r_status r \<in> {R_SUCCEEDED, R_FAILED, R_CANCELLED, R_CANCELLING} then Inr (False, d)
          else if \<not> past_deadline now (r_deadline r) then Inr (False, d)
          else ebind (settleExpiredRunForControlTx now runID d) (\<lambda>d. Inr (True, d)))"

section \<open>Pause and resume\<close>

definition pauseRunTx :: "time \<Rightarrow> uid \<Rightarrow> int \<Rightarrow> AuditContext \<Rightarrow> db \<Rightarrow> (RunDTO \<times> db) tx" where
  "pauseRunTx now runID expectedRevision a d =
     (case find_run d runID of
        None \<Rightarrow> Inl ErrRunNotFound
      | Some r \<Rightarrow>
          if run_terminal (r_status r) then Inl ErrRunTerminal
          else if r_status r = R_CANCELLING then Inl ErrRunCancelling
          else if r_revision r \<noteq> expectedRevision then Inl ErrRevisionConflict
          else if past_deadline now (r_deadline r) then Inl ErrRunDeadlineExceeded
          else if r_pause_requested r \<and> r_status r \<in> {R_PAUSING, R_PAUSED} then ebind (queryRunDTO d runID) (\<lambda>dto. Inr (dto, d))
          else
            (let (target, event) = (if live_attempts d runID \<noteq> [] then (R_PAUSING, ''RUN_PAUSING'') else (R_PAUSED, ''RUN_PAUSED'')) in
             ebind (appendRunEvent runID event
                 (upd_runs (\<lambda>q. r_id q = runID)
                    (\<lambda>q. q\<lparr>r_status := target, r_reason := Some ''PAUSE_REQUESTED'', r_pause_requested := True, r_revision := r_revision q + 1\<rparr>) d))
               (\<lambda>d. let d = audit ''run.pause'' runID d in ebind (queryRunDTO d runID) (\<lambda>dto. Inr (dto, d)))))"

text \<open>Whether an attempt of the run has ever started, and the status a resumed run takes.\<close>

definition has_started :: "db \<Rightarrow> uid \<Rightarrow> bool" where
  "has_started d runID \<longleftrightarrow> (\<exists>a \<in> set (db_attempts d). a_step a \<in> set (step_ids d runID) \<and>
     (a_started a \<noteq> None \<or> a_status a \<in> {A_RUNNING, A_SUCCEEDED, A_FAILED, A_TIMED_OUT, A_LOST}))"

definition resumed_status :: "db \<Rightarrow> uid \<Rightarrow> RunStatus \<times> string option" where
  "resumed_status d runID =
     (if live_attempts d runID \<noteq> [] then (R_RUNNING, None)
      else if steps_in d runID [S_READY] \<noteq> [] then (if has_started d runID then R_RUNNING else R_QUEUED, None)
      else if open_cases d runID \<noteq> [] then (R_WAITING, Some ''RECONCILIATION'')
      else if \<exists>t \<in> set (pending_timers d runID). t_kind t = ''RETRY_BACKOFF'' then (R_WAITING, Some ''RETRY_BACKOFF'')
      else if \<exists>t \<in> set (pending_timers d runID). t_kind t = ''DELAY'' then (R_WAITING, Some ''DELAY'')
      else (R_WAITING, None))"

definition resume_open :: "uid \<Rightarrow> db \<Rightarrow> (RunDTO \<times> db) tx" where
  "resume_open runID d =
     (let (target, reason) = resumed_status d runID in
      ebind (appendRunEvent runID ''RUN_RESUMED''
          (upd_runs (\<lambda>q. r_id q = runID)
             (\<lambda>q. q\<lparr>r_status := target, r_reason := reason, r_pause_requested := False, r_revision := r_revision q + 1\<rparr>) d))
        (\<lambda>d. let d = audit ''run.resume'' runID d in ebind (queryRunDTO d runID) (\<lambda>dto. Inr (dto, d))))"

definition resumeRunTx :: "externals \<Rightarrow> manifests \<Rightarrow> time \<Rightarrow> uid \<Rightarrow> int \<Rightarrow> AuditContext \<Rightarrow> db \<Rightarrow> (RunDTO \<times> db) tx" where
  "resumeRunTx c manifests now runID expectedRevision a d =
     (case find_run d runID of
        None \<Rightarrow> Inl ErrRunNotFound
      | Some r \<Rightarrow>
          if run_terminal (r_status r) then Inl ErrRunTerminal
          else if r_status r = R_CANCELLING then Inl ErrRunCancelling
          else if r_revision r \<noteq> expectedRevision then Inl ErrRevisionConflict
          else if past_deadline now (r_deadline r) then Inl ErrRunDeadlineExceeded
          else if \<not> r_pause_requested r \<and> r_status r \<noteq> R_PAUSING \<and> r_status r \<noteq> R_PAUSED then Inl ErrRunNotPaused
          else
            (case manifests (r_deployment r) of
               None \<Rightarrow> Inl (EngineError ''decode manifest'')
             | Some m \<Rightarrow>
                 (case target_workflow m (r_workflow r) of
                    None \<Rightarrow> resume_open runID d
                  | Some w \<Rightarrow>
                      ebind (settleRunTerminalTx c runID w (local_steps d runID) (local_outputs d runID) (r_input r) JNull d) (\<lambda>(settled, x).
                        if settled
                        then
                          (let x = upd_runs (\<lambda>q. r_id q = runID) (\<lambda>q. q\<lparr>r_pause_requested := False, r_revision := r_revision q + 1\<rparr>) x
                           in ebind (queryRunDTO x runID) (\<lambda>dto. Inr (dto, x)))
                        else resume_open runID x))))"

definition settlePauseAfterCompletionTx :: "uid \<Rightarrow> db \<Rightarrow> db tx" where
  "settlePauseAfterCompletionTx runID d =
     ebind (get_run d runID) (\<lambda>r.
       if \<not> r_pause_requested r \<or> r_status r \<noteq> R_PAUSING then Inr d
       else if live_attempts d runID \<noteq> [] then Inr d
       else appendRunEvent runID ''RUN_PAUSED''
              (upd_runs (\<lambda>q. r_id q = runID \<and> r_status q = R_PAUSING) (\<lambda>q. q\<lparr>r_status := R_PAUSED\<rparr>) d))"

section \<open>The commands\<close>

text \<open>A mutation through the command store when the engine has one, in a plain tenant transaction
  otherwise.\<close>

record codec =
  encode_run :: "RunDTO \<Rightarrow> string option"
  decode_run :: "string \<Rightarrow> RunDTO option"

type_synonym engine_state = "command_row list \<times> db"

definition run_mutation ::
    "codec \<Rightarrow> bool \<Rightarrow> Command option \<Rightarrow> (db \<Rightarrow> (RunDTO \<times> db) tx) \<Rightarrow> engine_state \<Rightarrow>
     engine_error command_error + (RunDTO \<times> engine_state)" where
  "run_mutation k commands ctx mutate st =
     (if commands
      then (case withCommandTx (encode_run k) (decode_run k) ctx [] 200 mutate st of
              Inl e \<Rightarrow> Inl e
            | Inr (_, dto, st') \<Rightarrow> Inr (dto, st'))
      else (case mutate (snd st) of Inl e \<Rightarrow> Inl (MutationError e) | Inr (dto, d) \<Rightarrow> Inr (dto, fst st, d)))"

definition CancelRun ::
    "codec \<Rightarrow> bool \<Rightarrow> Command option \<Rightarrow> time \<Rightarrow> uid \<Rightarrow> int \<Rightarrow> AuditContext option \<Rightarrow> engine_state \<Rightarrow>
     engine_error command_error + (RunDTO \<times> engine_state)" where
  "CancelRun k commands ctx now runID expectedRevision a st =
     (case a of
        None \<Rightarrow> Inl (MutationError ErrAuditRequired)
      | Some a \<Rightarrow> run_mutation k commands ctx (cancelRunTx now runID expectedRevision a) st)"

text \<open>A pause or a resume commits, in either case, a state: its own, or that of the settlement of an
  overdue run, or the old one.  The second clock reading is the one of the settlement.\<close>

definition control_run ::
    "time \<Rightarrow> uid \<Rightarrow> engine_error command_error + (RunDTO \<times> engine_state) \<Rightarrow> engine_state \<Rightarrow>
     (engine_error command_error + RunDTO) \<times> engine_state" where
  "control_run later runID res st =
     (case res of
        Inr (dto, st') \<Rightarrow> (Inr dto, st')
      | Inl e \<Rightarrow>
          if e = MutationError ErrRunDeadlineExceeded
          then (case settleOverdueRunForControl later runID (snd st) of
                  Inl e' \<Rightarrow> (Inl (MutationError e'), st)
                | Inr (_, d) \<Rightarrow> (Inl e, fst st, d))
          else (Inl e, st))"

definition PauseRun ::
    "codec \<Rightarrow> bool \<Rightarrow> Command option \<Rightarrow> time \<Rightarrow> time \<Rightarrow> uid \<Rightarrow> int \<Rightarrow> AuditContext option \<Rightarrow> engine_state \<Rightarrow>
     (engine_error command_error + RunDTO) \<times> engine_state" where
  "PauseRun k commands ctx now later runID expectedRevision a st =
     (case a of
        None \<Rightarrow> (Inl (MutationError ErrAuditRequired), st)
      | Some a \<Rightarrow> control_run later runID (run_mutation k commands ctx (pauseRunTx now runID expectedRevision a) st) st)"

definition ResumeRun ::
    "externals \<Rightarrow> manifests \<Rightarrow> codec \<Rightarrow> bool \<Rightarrow> Command option \<Rightarrow> time \<Rightarrow> time \<Rightarrow> uid \<Rightarrow> int \<Rightarrow> AuditContext option \<Rightarrow> engine_state \<Rightarrow>
     (engine_error command_error + RunDTO) \<times> engine_state" where
  "ResumeRun c manifests k commands ctx now later runID expectedRevision a st =
     (case a of
        None \<Rightarrow> (Inl (MutationError ErrAuditRequired), st)
      | Some a \<Rightarrow> control_run later runID (run_mutation k commands ctx (resumeRunTx c manifests now runID expectedRevision a) st) st)"

section \<open>The engine's invariant\<close>

definition cancelled_row :: "time \<Rightarrow> attempt_row list \<Rightarrow> attempt_row \<Rightarrow> attempt_row" where
  "cancelled_row now as b = fold (\<lambda>a b. if a_id b = a_id a
     then b\<lparr>a_status := A_CANCELLED, a_completed := Some now,
            a_error := Some \<lparr> e_code = ''CANCEL_REQUESTED'', e_retryable = False, e_effect = effect_of a \<rparr>\<rparr>
     else b) as b"

lemma cancelled_row_keys [simp]:
  "a_id (cancelled_row now as b) = a_id b" "a_step (cancelled_row now as b) = a_step b"
proof -
  have "a_id (cancelled_row now as b) = a_id b \<and> a_step (cancelled_row now as b) = a_step b"
    by (induction as arbitrary: b) (simp_all add: cancelled_row_def)
  then show "a_id (cancelled_row now as b) = a_id b" "a_step (cancelled_row now as b) = a_step b" by blast+
qed

lemma cancelled_row_status:
  "a_status (cancelled_row now as b) = (if a_id b \<in> a_id ` set as then A_CANCELLED else a_status b)"
proof (induction as arbitrary: b)
  case (Cons a as)
  then show ?case by (auto simp: cancelled_row_def)
qed (simp add: cancelled_row_def)

lemma cancel_live_attempt_rows [simp]:
  "db_runs (cancel_live_attempt now a d) = db_runs d"
  "db_steps (cancel_live_attempt now a d) = db_steps d"
  "db_timers (cancel_live_attempt now a d) = db_timers d"
  "db_cases (cancel_live_attempt now a d) = db_cases d"
  "db_approvals (cancel_live_attempt now a d) = db_approvals d"
  "db_attempts (cancel_live_attempt now a d) = map (cancelled_row now [a]) (db_attempts d)"
  "db_leases (cancel_live_attempt now a d) = filter (\<lambda>l. l_step l \<noteq> a_step a) (db_leases d)"
  by (simp_all add: cancel_live_attempt_def upd_def cancelled_row_def)

lemma cancelled_row_append: "cancelled_row now as (cancelled_row now [a] b) = cancelled_row now (a # as) b"
  by (simp add: cancelled_row_def)

lemma cancel_live_attempts:
  "db_runs (fold (cancel_live_attempt now) as d) = db_runs d"
  "db_steps (fold (cancel_live_attempt now) as d) = db_steps d"
  "db_timers (fold (cancel_live_attempt now) as d) = db_timers d"
  "db_cases (fold (cancel_live_attempt now) as d) = db_cases d"
  "db_approvals (fold (cancel_live_attempt now) as d) = db_approvals d"
  "db_attempts (fold (cancel_live_attempt now) as d) = map (cancelled_row now as) (db_attempts d)"
  "db_leases (fold (cancel_live_attempt now) as d) = filter (\<lambda>l. l_step l \<notin> a_step ` set as) (db_leases d)"
  by (induction as arbitrary: d) (simp_all add: map_idI cancelled_row_append conj_commute, simp add: cancelled_row_def map_idI)

text \<open>The live attempts of a run are cancelled by id; with distinct ids none of them has ended.\<close>

lemma cancel_live_others:
  "db_events (fold (cancel_live_attempt now) as d) = db_events d" "history (fold (cancel_live_attempt now) as d) = history d"
  "db_next d \<le> db_next (fold (cancel_live_attempt now) as d)"
proof -
  show "db_events (fold (cancel_live_attempt now) as d) = db_events d" "history (fold (cancel_live_attempt now) as d) = history d"
    by (induction as arbitrary: d) (simp_all add: cancel_live_attempt_def)
  show "db_next d \<le> db_next (fold (cancel_live_attempt now) as d)"
  proof (induction as arbitrary: d)
    case (Cons a as)
    have "db_next d \<le> db_next (cancel_live_attempt now a d)" by (simp add: cancel_live_attempt_def)
    then show ?case using Cons [of "cancel_live_attempt now a d"] by simp
  qed simp
qed

lemma cancelled_row_other: "a_id b \<notin> a_id ` set as \<Longrightarrow> cancelled_row now as b = b"
  by (induction as) (simp_all add: cancelled_row_def)

lemma cancelled_row_le: "attempt_live (a_status b) \<Longrightarrow> attempt_le b (cancelled_row now as b)"
proof -
  have "a_number (cancelled_row now as b) = a_number b \<and> a_created (cancelled_row now as b) = a_created b \<and>
      a_epoch (cancelled_row now as b) = a_epoch b \<and> a_session (cancelled_row now as b) = a_session b"
    by (induction as arbitrary: b) (simp_all add: cancelled_row_def)
  then show "attempt_live (a_status b) \<Longrightarrow> ?thesis" by (simp add: attempt_le_def)
qed

lemma cancel_live_step_ok:
  assumes "step_ok d x" and "inv x"
  shows "step_ok d (fold (cancel_live_attempt now) (live_attempts x rid) x)"
proof -
  let ?as = "live_attempts x rid"
  have inj: "inj_on a_id (set (db_attempts x))" using assms(2) by (simp add: inv_def ids_ok_def distinct_map)
  have live: "attempt_live (a_status b)" if b: "b \<in> set (db_attempts x)" "a_id b \<in> a_id ` set ?as" for b
  proof -
    obtain a where a: "a \<in> set ?as" "a_id b = a_id a" using b(2) by blast
    then have "b = a" using inj_onD [OF inj a(2) b(1)] by (simp add: live_attempts_def)
    then show ?thesis using a(1) by (simp add: live_attempts_def)
  qed
  have lease: "l_step l \<in> a_step ` set ?as" if a: "lease_of l a" "a \<in> set (db_attempts x)" "a_id a \<in> a_id ` set ?as" for l a
  proof -
    obtain b where b: "b \<in> set ?as" "a_id a = a_id b" using a(3) by blast
    then have "a = b" using inj_onD [OF inj b(2) a(2)] by (simp add: live_attempts_def)
    then have "a_step a \<in> a_step ` set ?as" using b(1) by blast
    then show ?thesis using a(1) by (simp add: lease_of_def)
  qed
  let ?u = "delete_leases (\<lambda>l. l_step l \<in> a_step ` set ?as) (upd_attempts (\<lambda>b. a_id b \<in> a_id ` set ?as) (cancelled_row now ?as) x)"
  have "step_ok d ?u"
  proof (rule step_ok_end_attempts [OF assms(1)])
    fix a l assume "a \<in> set (db_attempts x)" "a_id a \<in> a_id ` set ?as" "lease_of l a" "l_step l \<notin> a_step ` set ?as"
    with lease show "attempt_live (a_status (cancelled_row now ?as a))" by blast
  qed (rule cancelled_row_le [OF live])
  then show ?thesis
  proof (rule step_ok_same)
    show "db_attempts (fold (cancel_live_attempt now) ?as x) = db_attempts ?u"
      by (simp add: cancel_live_attempts upd_def cancelled_row_other)
  qed (simp_all add: cancel_live_attempts cancel_live_others)
qed

lemma cancel_work_ok:
  assumes "step_ok d x" and "inv x"
  shows "step_ok d (cancel_work now rid x)"
  unfolding cancel_work_def Let_def cancel_timers_def
  by (intro step_ok_intros cancel_live_step_ok assms) (auto simp: row_le_defs open_states_def)

lemma cancel_live_frame:
  "find_run (fold (cancel_live_attempt now) as x) = find_run x" "run_at Q (fold (cancel_live_attempt now) as x) = run_at Q x"
proof -
  have "db_runs (fold (cancel_live_attempt now) as x) = db_runs x"
    by (induction as arbitrary: x) (simp_all add: cancel_live_attempt_def)
  then show "find_run (fold (cancel_live_attempt now) as x) = find_run x" "run_at Q (fold (cancel_live_attempt now) as x) = run_at Q x"
    by (simp_all add: find_run_def run_at_def fun_eq_iff)
qed

lemma cancel_work_frame [simp]:
  "find_run (cancel_work now rid x) = find_run x" "run_at Q (cancel_work now rid x) = run_at Q x"
  by (simp_all add: cancel_work_def Let_def cancel_timers_def cancel_live_frame)

lemma query_ok [step_ok_intros]: "step_ok d x \<Longrightarrow> returns_ok d (ebind (queryRunDTO x rid) (\<lambda>dto. Inr (dto, x)))"
  by (simp add: queryRunDTO_def split: option.split)

lemma open_run_update_ok:
  assumes "step_ok d x" and "run_open x rid"
    and "\<And>r. run_le (r\<lparr>r_status := r_status (f r)\<rparr>) (f r) \<and> r_last_event (f r) = r_last_event r"
  shows "step_ok d (upd_runs (\<lambda>q. r_id q = rid) f x)"
proof (rule step_ok_upd_runs [OF assms(1)])
  fix r assume "r \<in> set (db_runs x)" "r_id r = rid"
  then have "\<not> run_terminal (r_status r)" using assms(2) by (simp add: run_at_def)
  then show "run_le r (f r) \<and> r_last_event (f r) = r_last_event r"
    using assms(3) [of r] by (simp add: run_le_def)
qed

lemma cancelRunTx_ok: "returns_ok d (cancelRunTx now rid ver a d)"
proof (rule returns_step_okI [OF step_ok_refl])
  assume i: "inv d"
  show "returns_ok d (cancelRunTx now rid ver a d)"
  proof (cases "find_run d rid")
    case None
    then show ?thesis by (simp add: cancelRunTx_def)
  next
    case (Some r)
    have c: "holds (\<lambda>x. step_ok d x \<and> run_open x rid) (closeOpenCasesTx rid act res (cancel_work now rid d))"
      if "\<not> run_terminal (r_status r)" for act res
      using step_ok_closeOpenCasesTx [OF cancel_work_ok [OF step_ok_refl i]] closeOpenCasesTx_at(1) find_run_at [OF i Some] that
      by (auto simp: holds_def)
    have b: "holds (step_ok d) (if b then appendRunEvent rid e1 (upd_runs (\<lambda>q. r_id q = rid)
            (\<lambda>q. q\<lparr>r_status := R_CANCELLED, r_reason := Some ''CANCEL_REQUESTED'', r_revision := r_revision q + 1, r_confirmed := Some True\<rparr>) x)
        else appendRunEvent rid e2 (upd_runs (\<lambda>q. r_id q = rid)
            (\<lambda>q. q\<lparr>r_status := R_CANCELLING, r_reason := Some ''CANCEL_REQUESTED'', r_revision := r_revision q + 1\<rparr>) x))"
      if "step_ok d x \<and> run_open x rid" for x b e1 e2
      using that by (auto intro!: step_ok_appendRunEvent open_run_update_ok simp: run_le_def)
    have k: "returns_ok d (ebind (if b then appendRunEvent rid e1 (upd_runs (\<lambda>q. r_id q = rid)
            (\<lambda>q. q\<lparr>r_status := R_CANCELLED, r_reason := Some ''CANCEL_REQUESTED'', r_revision := r_revision q + 1, r_confirmed := Some True\<rparr>) x)
        else appendRunEvent rid e2 (upd_runs (\<lambda>q. r_id q = rid)
            (\<lambda>q. q\<lparr>r_status := R_CANCELLING, r_reason := Some ''CANCEL_REQUESTED'', r_revision := r_revision q + 1\<rparr>) x))
        (\<lambda>x. let x = audit ''run.cancel'' rid x in ebind (queryRunDTO x rid) (\<lambda>dto. Inr (dto, x))))"
      if "step_ok d x \<and> run_open x rid" for x b e1 e2
      unfolding Let_def by (rule returns_ok_bind [OF b [OF that]]) (intro step_ok_intros)
    show ?thesis
      unfolding cancelRunTx_def Some option.case
      by (auto intro!: query_ok returns_ok_bindP [OF c] k)
  qed
qed

lemma settleCancellingRunTx_ok: "step_ok d x \<Longrightarrow> returns_ok d (settleCancellingRunTx now rid x)"
proof (rule returns_step_okI)
  assume i: "inv x"
  show "returns_ok x (settleCancellingRunTx now rid x)"
  proof (cases "find_run x rid")
    case (Some r)
    have "run_open x rid" if "r_status r = R_CANCELLING" using find_run_at [OF i Some] that by simp
    then show ?thesis
      unfolding settleCancellingRunTx_def Let_def
      by (auto simp: Some run_le_def intro!: returns_ok_bind step_ok_appendRunEvent open_run_update_ok)
  qed (simp add: settleCancellingRunTx_def)
qed

lemma settle_cancelling_ok:
  "step_ok d x \<Longrightarrow> holds (\<lambda>(n, aff, y). step_ok d y) (settle_cancelling now rid (m, aff, x))"
  unfolding settle_cancelling_def prod.case
  by (rule holds_bind [OF settleCancellingRunTx_ok [unfolded returns_ok_def]]) auto

lemma settleCancellingRunsTx_ok: "holds (\<lambda>(n, aff, y). step_ok d y) (settleCancellingRunsTx now d)"
  unfolding settleCancellingRunsTx_def
  by (rule holds_efold) (use settle_cancelling_ok in \<open>force\<close>, simp)

lemma failOverdueRunWithoutStepsTx_ok: "step_ok d x \<Longrightarrow> holds (step_ok d) (failOverdueRunWithoutStepsTx rid x)"
  unfolding failOverdueRunWithoutStepsTx_def cancel_timers_def
  by (intro step_ok_bind [OF step_ok_closeOpenCasesTx] step_ok_bind2 [OF terminalize_ok])
    (auto intro!: step_ok_intros simp: timer_le_def)

lemma step_at_mem:
  assumes "inv x" and "s \<in> set (db_steps x)"
  shows "step_at Q x (s_id s) \<longleftrightarrow> Q (s_state s)"
proof -
  have "inj_on s_id (set (db_steps x))" using assms(1) by (simp add: inv_def ids_ok_def distinct_map)
  then have "t = s" if "t \<in> set (db_steps x)" "s_id t = s_id s" for t using that assms(2) by (simp add: inj_on_def)
  then show ?thesis using assms(2) unfolding step_at_def by metis
qed

lemma settleExpiredRunForControlTx_ok:
  assumes "step_ok d x" and "inv x \<Longrightarrow> run_failable x rid"
  shows "holds (step_ok d) (settleExpiredRunForControlTx now rid x)"
proof (rule holds_step_okI [OF assms(1)])
  assume i: "inv x"
  show "holds (step_ok x) (settleExpiredRunForControlTx now rid x)"
  proof (cases "sort_key s_id (steps_in x rid open_states)")
    case Nil
    then show ?thesis by (simp add: settleExpiredRunForControlTx_def failOverdueRunWithoutStepsTx_ok)
  next
    case (Cons s ss)
    then have "s \<in> set (sort_key s_id (steps_in x rid open_states))" by simp
    then have s: "s \<in> set (db_steps x)" "s_state s \<in> set open_states" by (simp_all add: steps_in_def)
    have "step_failable x (s_id s)" using s(2) unfolding step_at_mem [OF i s(1)] by (auto simp: open_states_def)
    then show ?thesis
      using Cons assms(2) [OF i] by (simp add: settleExpiredRunForControlTx_def failRunForStepTx_step_ok)
  qed
qed

lemma run_failable_find:
  "inv x \<Longrightarrow> find_run x rid = Some r \<Longrightarrow> r_status r \<notin> {R_SUCCEEDED, R_CANCELLED} \<Longrightarrow> run_failable x rid"
  using find_run_at by blast

lemma fail_overdue_ok:
  "step_ok d x \<Longrightarrow> holds (\<lambda>(n, aff, y). step_ok d y) (fail_overdue now rid (m, aff, x))"
  unfolding fail_overdue_def prod.case
  by (auto split: option.split intro!: holds_bind [OF settleExpiredRunForControlTx_ok] run_failable_find)

lemma failOverdueRunsTx_ok: "holds (\<lambda>(n, aff, y). step_ok d y) (failOverdueRunsTx now d)"
  unfolding failOverdueRunsTx_def
  by (rule holds_efold) (use fail_overdue_ok in \<open>force\<close>, simp)

lemma settleOverdueRunForControl_ok: "step_ok d x \<Longrightarrow> returns_ok d (settleOverdueRunForControl now rid x)"
  unfolding settleOverdueRunForControl_def
  by (auto split: option.split intro!: returns_ok_bind [OF settleExpiredRunForControlTx_ok] run_failable_find)

lemma pauseRunTx_ok: "returns_ok d (pauseRunTx now rid ver a d)"
proof (rule returns_step_okI [OF step_ok_refl])
  assume i: "inv d"
  show "returns_ok d (pauseRunTx now rid ver a d)"
  proof (cases "find_run d rid")
    case (Some r)
    have "run_open d rid" if "\<not> run_terminal (r_status r)" using find_run_at [OF i Some] that by simp
    then show ?thesis
      unfolding pauseRunTx_def Let_def
      by (auto simp: Some run_le_def intro!: query_ok returns_ok_bind [OF step_ok_appendRunEvent] open_run_update_ok step_ok_others)
  qed (simp add: pauseRunTx_def)
qed

lemma resume_open_ok:
  assumes "step_ok d x" and "run_open x rid"
  shows "returns_ok d (resume_open rid x)"
  unfolding resume_open_def Let_def using assms
  by (auto simp: run_le_def split: prod.split intro!: query_ok returns_ok_bind [OF step_ok_appendRunEvent] open_run_update_ok step_ok_others)

lemma settleRunTerminalTx_unsettled:
  "settleRunTerminalTx c rid w states os input dflt d = Inr (False, d') \<Longrightarrow> d' = d"
  unfolding settleRunTerminalTx_def fail_output_def terminalize_def Let_def
  by (auto split: if_splits sum.splits)

lemma resumeRunTx_ok: "returns_ok d (resumeRunTx c manifests now rid ver a d)"
proof (rule returns_step_okI [OF step_ok_refl])
  assume i: "inv d"
  show "returns_ok d (resumeRunTx c manifests now rid ver a d)"
  proof (cases "find_run d rid")
    case (Some r)
    have o: "run_open d rid" if "\<not> run_terminal (r_status r)" using find_run_at [OF i Some] that by simp
    have "returns_ok d (ebind (settleRunTerminalTx c rid w (local_steps d rid) (local_outputs d rid) inp JNull d) (\<lambda>(settled, x).
        if settled
        then (let x = upd_runs (\<lambda>q. r_id q = rid) (\<lambda>q. q\<lparr>r_pause_requested := False, r_revision := r_revision q + 1\<rparr>) x
              in ebind (queryRunDTO x rid) (\<lambda>dto. Inr (dto, x)))
        else resume_open rid x))" if "\<not> run_terminal (r_status r)" for w inp
    proof (cases "settleRunTerminalTx c rid w (local_steps d rid) (local_outputs d rid) inp JNull d")
      case (Inr res)
      obtain b x where res: "res = (b, x)" by (cases res)
      have "step_ok d x" using settleRunTerminalTx_ok [OF step_ok_refl] Inr unfolding res by (metis returns_ok_simps(1))
      then have "returns_ok d (ebind (queryRunDTO (upd_runs (\<lambda>q. r_id q = rid) (\<lambda>q. q\<lparr>r_pause_requested := False, r_revision := r_revision q + 1\<rparr>) x) rid)
          (\<lambda>dto. Inr (dto, upd_runs (\<lambda>q. r_id q = rid) (\<lambda>q. q\<lparr>r_pause_requested := False, r_revision := r_revision q + 1\<rparr>) x)))"
        by (intro query_ok step_ok_upd_runs) (simp_all add: run_le_def)
      moreover have "returns_ok d (resume_open rid x)" if "\<not> b"
        using Inr that o [OF \<open>\<not> run_terminal (r_status r)\<close>] unfolding res
        by (auto dest!: settleRunTerminalTx_unsettled intro: resume_open_ok)
      ultimately show ?thesis using Inr res by (simp add: Let_def)
    qed simp
    then show ?thesis
      unfolding resumeRunTx_def using o
      by (auto simp: Some split: option.split intro!: resume_open_ok)
  qed (simp add: resumeRunTx_def)
qed

lemma settlePauseAfterCompletionTx_ok: "step_ok d x \<Longrightarrow> holds (step_ok d) (settlePauseAfterCompletionTx rid x)"
  unfolding settlePauseAfterCompletionTx_def
  by (auto split: option.split intro!: step_ok_appendRunEvent step_ok_upd_runs simp: run_le_def)

section \<open>What a cancellation does\<close>

lemma cancel_live_stops_keep:
  "x \<in> set (db_stops d) \<Longrightarrow> x \<in> set (db_stops (fold (cancel_live_attempt now) as d))"
  by (induction as arbitrary: d) (simp_all add: cancel_live_attempt_def insert_stop_def)

lemma cancel_live_stops:
  assumes "a \<in> set as"
  shows "\<exists>x \<in> set (db_stops (fold (cancel_live_attempt now) as d)). x_attempt x = a_id a \<and>
     x_reason x = ''CANCEL_REQUESTED'' \<and> x_deadline x = now + CancelGraceMs * 1000000"
  using assms
proof (induction as arbitrary: d)
  case (Cons b as)
  show ?case
  proof (cases "a = b")
    case True
    have "\<exists>x \<in> set (db_stops (cancel_live_attempt now b d)). x_attempt x = a_id b \<and> x_reason x = ''CANCEL_REQUESTED'' \<and>
        x_deadline x = now + CancelGraceMs * 1000000"
      by (simp add: cancel_live_attempt_def insert_stop_def)
    then show ?thesis using True cancel_live_stops_keep by (metis fold_simps(2))
  qed (use Cons in simp)
qed simp

lemma cancel_work_rows:
  "db_steps (cancel_work now rid d) = upd (\<lambda>s. s_run s = rid \<and> s_state s \<in> set open_states)
     (\<lambda>s. s\<lparr>s_state := S_CANCELLED, s_wait := Some ''CANCEL_REQUESTED''\<rparr>) (db_steps d)"
  "db_timers (cancel_work now rid d) = upd (\<lambda>t. t_run t = rid \<and> t_state t = T_PENDING) (\<lambda>t. t\<lparr>t_state := T_CANCELLED\<rparr>) (db_timers d)"
  "db_attempts (cancel_work now rid d) = map (cancelled_row now (live_attempts d rid)) (db_attempts d)"
  "db_leases (cancel_work now rid d) = filter (\<lambda>l. l_step l \<notin> a_step ` set (live_attempts d rid)) (db_leases d)"
  "db_cases (cancel_work now rid d) = db_cases d"
  "db_stops (cancel_work now rid d) = db_stops (fold (cancel_live_attempt now) (live_attempts d rid) d)"
  "step_ids (cancel_work now rid d) rid = step_ids d rid"
  "db_approvals (cancel_work now rid d) = upd (\<lambda>p. p_status p = P_PENDING \<and> p_step p \<in> set (step_ids d rid))
     (\<lambda>p. p\<lparr>p_status := P_CANCELLED, p_revision := p_revision p + 1\<rparr>) (db_approvals d)"
proof -
  have ids: "step_ids (cancel_timers rid (upd_steps (\<lambda>s. s_run s = rid \<and> s_state s \<in> set open_states)
      (\<lambda>s. s\<lparr>s_state := S_CANCELLED, s_wait := Some ''CANCEL_REQUESTED''\<rparr>) (fold (cancel_live_attempt now) as d))) rid = step_ids d rid" for as
    by (simp add: step_ids_def cancel_timers_def cancel_live_attempts map_filter_upd)
  show "step_ids (cancel_work now rid d) rid = step_ids d rid"
    by (simp add: cancel_work_def Let_def step_ids_def cancel_timers_def cancel_live_attempts map_filter_upd)
  show "db_approvals (cancel_work now rid d) = upd (\<lambda>p. p_status p = P_PENDING \<and> p_step p \<in> set (step_ids d rid))
     (\<lambda>p. p\<lparr>p_status := P_CANCELLED, p_revision := p_revision p + 1\<rparr>) (db_approvals d)"
    unfolding cancel_work_def Let_def ids by (simp add: cancel_timers_def cancel_live_attempts)
qed (simp_all add: cancel_work_def Let_def cancel_timers_def cancel_live_attempts)

text \<open>The shape of a cancellation that finds the run open.\<close>

lemma cancelRunTxE:
  assumes "cancelRunTx now rid ver a d = Inr (dto, d')" and "find_run d rid = Some r" and "r_status r \<noteq> R_CANCELLING"
  obtains x y e f where "closeOpenCasesTx rid (audit_actor a) ''CANCEL'' (cancel_work now rid d) = Inr x"
    "appendRunEvent rid e (upd_runs (\<lambda>q. r_id q = rid) f x) = Inr y" "d' = audit ''run.cancel'' rid y"
    "\<not> run_terminal (r_status r)" "r_revision r = ver"
    "f = (if live_attempts d rid = []
       then (\<lambda>q. q\<lparr>r_status := R_CANCELLED, r_reason := Some ''CANCEL_REQUESTED'', r_revision := r_revision q + 1, r_confirmed := Some True\<rparr>)
       else (\<lambda>q. q\<lparr>r_status := R_CANCELLING, r_reason := Some ''CANCEL_REQUESTED'', r_revision := r_revision q + 1\<rparr>))"
proof -
  obtain x where x: "closeOpenCasesTx rid (audit_actor a) ''CANCEL'' (cancel_work now rid d) = Inr x"
    and g: "\<not> run_terminal (r_status r)" "r_revision r = ver"
    using assms unfolding cancelRunTx_def
    by (cases "closeOpenCasesTx rid (audit_actor a) ''CANCEL'' (cancel_work now rid d)") (auto split: if_splits)
  show thesis
  proof (cases "live_attempts d rid = []")
    case True
    let ?f = "\<lambda>q. q\<lparr>r_status := R_CANCELLED, r_reason := Some ''CANCEL_REQUESTED'', r_revision := r_revision q + 1, r_confirmed := Some True\<rparr>"
    obtain y where "appendRunEvent rid ''RUN_CANCELLED'' (upd_runs (\<lambda>q. r_id q = rid) ?f x) = Inr y" "d' = audit ''run.cancel'' rid y"
      using assms x g True unfolding cancelRunTx_def
      by (cases "appendRunEvent rid ''RUN_CANCELLED'' (upd_runs (\<lambda>q. r_id q = rid) ?f x)") (auto simp: Let_def)
    then show thesis using that [OF x _ _ g] True by simp
  next
    case False
    let ?f = "\<lambda>q. q\<lparr>r_status := R_CANCELLING, r_reason := Some ''CANCEL_REQUESTED'', r_revision := r_revision q + 1\<rparr>"
    obtain y where "appendRunEvent rid ''RUN_CANCELLING'' (upd_runs (\<lambda>q. r_id q = rid) ?f x) = Inr y" "d' = audit ''run.cancel'' rid y"
      using assms x g False unfolding cancelRunTx_def
      by (cases "appendRunEvent rid ''RUN_CANCELLING'' (upd_runs (\<lambda>q. r_id q = rid) ?f x)") (auto simp: Let_def)
    then show thesis using that [OF x _ _ g] False by simp
  qed
qed

section \<open>Properties\<close>

text \<open>C4: a cancellation of an open run that commits stops the whole run at once: no attempt of the run is
  claimed or running, no step is open, no timer is pending, no case is open and no approval is
  pending; the steps that had ended are untouched; no lease on a step of a live attempt is left and
  the worker of each live attempt has a stop request with the ten second grace; and the run, at the
  next revision, is CANCELLED with confirmed termination exactly when there was nothing to stop and
  CANCELLING otherwise.\<close>

theorem cancelRunTx_stops:
  assumes "cancelRunTx now runID ver a d = Inr (dto, d')" and "find_run d runID = Some r" and "r_status r \<noteq> R_CANCELLING"
  shows "live_attempts d' runID = [] \<and> steps_in d' runID open_states = [] \<and> pending_timers d' runID = [] \<and> open_cases d' runID = []
    \<and> (\<forall>p \<in> set (db_approvals d'). p_step p \<in> set (step_ids d' runID) \<longrightarrow> p_status p \<noteq> P_PENDING)
    \<and> (\<forall>s \<in> set (db_steps d). s_run s \<noteq> runID \<or> step_terminal (s_state s) \<longrightarrow> s \<in> set (db_steps d'))
    \<and> (\<forall>l \<in> set (db_leases d'). l_step l \<notin> a_step ` set (live_attempts d runID))
    \<and> (\<forall>b \<in> set (live_attempts d runID). \<exists>x \<in> set (db_stops d'). x_attempt x = a_id b \<and>
         x_reason x = ''CANCEL_REQUESTED'' \<and> x_deadline x = now + 10 * 1000000000)
    \<and> (\<exists>r'. find_run d' runID = Some r' \<and> r_revision r' = r_revision r + 1 \<and> r_reason r' = Some ''CANCEL_REQUESTED'' \<and>
         (if live_attempts d runID = [] then r_status r' = R_CANCELLED \<and> r_confirmed r' = Some True else r_status r' = R_CANCELLING))"
proof -
  obtain x y e f where x: "closeOpenCasesTx runID (audit_actor a) ''CANCEL'' (cancel_work now runID d) = Inr x"
    and y: "appendRunEvent runID e (upd_runs (\<lambda>q. r_id q = runID) f x) = Inr y" and d': "d' = audit ''run.cancel'' runID y"
    and f: "f = (if live_attempts d runID = []
       then (\<lambda>q. q\<lparr>r_status := R_CANCELLED, r_reason := Some ''CANCEL_REQUESTED'', r_revision := r_revision q + 1, r_confirmed := Some True\<rparr>)
       else (\<lambda>q. q\<lparr>r_status := R_CANCELLING, r_reason := Some ''CANCEL_REQUESTED'', r_revision := r_revision q + 1\<rparr>))"
    by (rule cancelRunTxE [OF assms])
  note X = closeOpenCasesTxD [OF x]
  note D = appendRunEventD(2-9) [OF y, simplified]
  have ids: "step_ids d' runID = step_ids d runID"
    by (simp add: d' step_ids_def D X(2)) (use cancel_work_rows(7) [of now runID d] in \<open>simp add: step_ids_def\<close>)
  have "live_attempts d' runID = []"
    unfolding live_attempts_def ids
    by (auto simp: d' D X cancel_work_rows filter_empty_conv cancelled_row_status live_attempts_def)
  moreover have "steps_in d' runID open_states = []"
    by (simp add: steps_in_def d' D X cancel_work_rows filter_empty_conv ball_upd stepstates)
  moreover have "pending_timers d' runID = []"
    by (simp add: pending_timers_def d' D X cancel_work_rows filter_empty_conv ball_upd)
  moreover have "open_cases d' runID = []"
    unfolding open_cases_def ids by (simp add: d' D X cancel_work_rows filter_empty_conv ball_upd)
  moreover have "\<forall>p \<in> set (db_approvals d'). p_step p \<in> set (step_ids d' runID) \<longrightarrow> p_status p \<noteq> P_PENDING"
    unfolding ids by (simp add: d' D X cancel_work_rows ball_upd) blast
  moreover have "\<forall>s \<in> set (db_steps d). s_run s \<noteq> runID \<or> step_terminal (s_state s) \<longrightarrow> s \<in> set (db_steps d')"
    by (force simp: d' D X cancel_work_rows in_upd stepstates)
  moreover have "\<forall>l \<in> set (db_leases d'). l_step l \<notin> a_step ` set (live_attempts d runID)"
    by (simp add: d' D X cancel_work_rows)
  moreover have "\<forall>b \<in> set (live_attempts d runID). \<exists>x \<in> set (db_stops d'). x_attempt x = a_id b \<and>
         x_reason x = ''CANCEL_REQUESTED'' \<and> x_deadline x = now + 10 * 1000000000"
  proof
    fix b assume "b \<in> set (live_attempts d runID)"
    moreover have "db_stops d' = db_stops (fold (cancel_live_attempt now) (live_attempts d runID) d)"
      by (simp add: d' D X cancel_work_rows)
    ultimately show "\<exists>x \<in> set (db_stops d'). x_attempt x = a_id b \<and> x_reason x = ''CANCEL_REQUESTED'' \<and> x_deadline x = now + 10 * 1000000000"
      using cancel_live_stops [of b "live_attempts d runID" now d] by (simp add: CancelGraceMs_def)
  qed
  moreover have "\<exists>r'. find_run d' runID = Some r' \<and> r_revision r' = r_revision r + 1 \<and> r_reason r' = Some ''CANCEL_REQUESTED'' \<and>
         (if live_attempts d runID = [] then r_status r' = R_CANCELLED \<and> r_confirmed r' = Some True else r_status r' = R_CANCELLING)"
  proof -
    have "map_option (\<lambda>q. q\<lparr>r_last_event := 0\<rparr>) (find_run d runID) = map_option (\<lambda>q. q\<lparr>r_last_event := 0\<rparr>) (find_run x runID)"
      using X(11) [of runID] by simp
    then obtain n where n: "find_run x runID = Some (r\<lparr>r_last_event := n\<rparr>)"
      using map_option_find_run_status assms(2) by blast
    have "r_id (f q) = r_id q" for q by (simp add: f)
    then show ?thesis
      using n find_run_id [OF n] by (simp add: d' appendRunEventD(12) [OF y] find_run_upd f)
  qed
  ultimately show ?thesis by blast
qed

definition sample_audit :: AuditContext where
  "sample_audit = \<lparr> ac_ActorID = Some ''u'', ac_ActorType = HUMAN \<rparr>"

theorem cancelRunTx_stops_witness:
  "\<exists>dto d' r'. cancelRunTx 1000 1 1 sample_audit sample_db = Inr (dto, d') \<and> length (live_attempts sample_db 1) = 1 \<and>
     live_attempts d' 1 = [] \<and> find_run d' 1 = Some r' \<and> r_status r' = R_CANCELLING"
proof -
  have c: "case cancelRunTx 1000 1 1 sample_audit sample_db of Inl _ \<Rightarrow> False | Inr _ \<Rightarrow> True"
    "case find_run sample_db 1 of None \<Rightarrow> False | Some r \<Rightarrow> r_status r \<noteq> R_CANCELLING" "length (live_attempts sample_db 1) = 1"
    by code_simp+
  obtain dto d' r where d': "cancelRunTx 1000 1 1 sample_audit sample_db = Inr (dto, d')"
    "find_run sample_db 1 = Some r" "r_status r \<noteq> R_CANCELLING"
    using c(1,2) by (auto split: sum.splits option.splits)
  have "live_attempts sample_db 1 \<noteq> []" using c(3) by auto
  then show ?thesis using cancelRunTx_stops [OF d'] d'(1) c(3) by auto
qed

text \<open>C26: the settlement of a cancelling run.  It waits exactly while a stop request of the run is
  unacknowledged within its grace; then the run is CANCELLED, and its termination is recorded as
  confirmed exactly when every stop request carries the proof that the process stopped, which an
  acknowledgement alone is not.\<close>

theorem settleCancellingRunTx_confirms:
  assumes "settleCancellingRunTx now runID d = Inr (settled, d')" and "find_run d runID = Some r" and "r_status r = R_CANCELLING"
  shows "(settled \<longleftrightarrow> (\<forall>x \<in> set (run_stops d runID). x_acked x \<noteq> None \<or> x_deadline x \<le> now)) \<and> (\<not> settled \<longrightarrow> d' = d) \<and>
    (settled \<longrightarrow> (\<exists>r'. find_run d' runID = Some r' \<and> r_status r' = R_CANCELLED \<and>
       r_confirmed r' = Some (\<forall>x \<in> set (run_stops d runID). x_confirmed x \<noteq> None)))"
proof (cases "\<exists>x \<in> set (run_stops d runID). x_acked x = None \<and> now < x_deadline x")
  case True
  then have "\<not> settled \<and> d' = d" using assms by (simp add: settleCancellingRunTx_def)
  then show ?thesis using True by force
next
  case False
  let ?f = "\<lambda>q. q\<lparr>r_status := R_CANCELLED, r_confirmed := Some (\<forall>x \<in> set (run_stops d runID). x_confirmed x \<noteq> None)\<rparr>"
  obtain y where y: "appendRunEvent runID ''RUN_CANCELLED'' (upd_runs (\<lambda>q. r_id q = runID) ?f d) = Inr y" "settled" "d' = y"
    using assms False unfolding settleCancellingRunTx_def Let_def
    by (cases "appendRunEvent runID ''RUN_CANCELLED'' (upd_runs (\<lambda>q. r_id q = runID) ?f d)") auto
  have "find_run d' runID = Some ((?f r)\<lparr>r_last_event := r_last_event r + 1\<rparr>)"
    using appendRunEventD(12) [OF y(1)] assms(2) find_run_id [OF assms(2)] y(3) by (simp add: find_run_upd)
  then show ?thesis using y(2) False by force
qed

text \<open>A stop that was acknowledged without the proof leaves the termination unconfirmed.\<close>

definition sample_cancelling :: db where
  "sample_cancelling = sample_db\<lparr>db_runs := [sample_run\<lparr>r_status := R_CANCELLING\<rparr>],
     db_stops := [\<lparr> x_id = 45, x_attempt = 21, x_reason = ''CANCEL_REQUESTED'', x_deadline = 5000, x_acked = Some 900, x_confirmed = None \<rparr>]\<rparr>"

theorem settleCancellingRunTx_confirms_witness:
  "\<exists>d' r'. settleCancellingRunTx 1000 1 sample_cancelling = Inr (True, d') \<and> find_run d' 1 = Some r' \<and>
     r_status r' = R_CANCELLED \<and> r_confirmed r' = Some False"
proof -
  have c: "case settleCancellingRunTx 1000 1 sample_cancelling of Inl _ \<Rightarrow> False | Inr (b, _) \<Rightarrow> b"
    "case find_run sample_cancelling 1 of None \<Rightarrow> False | Some r \<Rightarrow> r_status r = R_CANCELLING"
    "\<not> (\<forall>x \<in> set (run_stops sample_cancelling 1). x_confirmed x \<noteq> None)" by code_simp+
  obtain d' r where d': "settleCancellingRunTx 1000 1 sample_cancelling = Inr (True, d')"
    "find_run sample_cancelling 1 = Some r" "r_status r = R_CANCELLING"
    using c(1,2) by (auto split: sum.splits option.splits)
  show ?thesis using settleCancellingRunTx_confirms [OF d'] d'(1) c(3) by auto
qed

section \<open>Overdue runs\<close>

lemma closeOpenCasesTx_other:
  "closeOpenCasesTx rid actor res d = Inr d' \<Longrightarrow> x \<noteq> rid \<Longrightarrow> find_run d' x = find_run d x"
  by (cases "find_run d x")
    (auto simp: closeOpenCasesTx_def Let_def appendRunEventD(12) dest: find_run_id split: if_splits)

lemma terminalize_other:
  assumes "terminalize rid f event d = Inr (b, d')" and "x \<noteq> rid" and "\<And>q. r_id (f q) = r_id q"
  shows "find_run d' x = find_run d x"
  using assms by (cases "find_run d x")
    (auto simp: terminalize_def appendRunEventD(12) find_run_upd dest: find_run_id split: if_splits)

lemma failRunForStepTx_other:
  assumes "failRunForStepTx now rid sid code actor d = Inr d'" and "x \<noteq> rid"
  shows "find_run d' x = find_run d x"
proof (rule failRunForStepTxE [OF assms(1)])
  fix d3
  assume 1: "closeOpenCasesTx rid actor ''FAIL'' (upd_steps (\<lambda>s. s_id s = sid) (\<lambda>s. s\<lparr>s_state := S_FAILED, s_wait := Some code\<rparr>)
        (fold (fail_live_attempt now) (live_attempts d rid) d)) = Inr d3"
    and 2: "appendRunEvent rid ''RUN_FAILED'' (cancel_timers rid (upd_steps (\<lambda>s. s_run s = rid \<and> s_id s \<noteq> sid \<and> s_state s \<in> set open_states)
        (\<lambda>s. s\<lparr>s_state := S_CANCELLED, s_wait := None\<rparr>)
        (upd_runs (\<lambda>r. r_id r = rid) (\<lambda>r. r\<lparr>r_status := R_FAILED, r_reason := Some code\<rparr>) d3))) = Inr d'"
  have "find_run d3 x = find_run d x" using closeOpenCasesTx_other [OF 1 assms(2)] by (simp add: find_run_def)
  then show ?thesis
    using assms(2) by (cases "find_run d x") (auto simp: appendRunEventD(12) [OF 2] cancel_timers_def find_run_upd dest: find_run_id)
qed

lemma settleExpired_other:
  assumes "settleExpiredRunForControlTx now rid d = Inr d'" and "x \<noteq> rid"
  shows "find_run d' x = find_run d x"
proof (cases "sort_key s_id (steps_in d rid open_states)")
  case Nil
  then obtain e b f where "closeOpenCasesTx rid None ''FAIL'' (cancel_timers rid d) = Inr e"
    "terminalize rid (\<lambda>r. r\<lparr>r_status := R_FAILED, r_reason := Some ''RUN_DEADLINE_EXCEEDED''\<rparr>) ''RUN_FAILED'' e = Inr (b, d')"
    using assms(1) unfolding settleExpiredRunForControlTx_def failOverdueRunWithoutStepsTx_def by (auto dest!: holds_ebindD)
  then have "find_run d' x = find_run e x" "find_run e x = find_run d x"
    using terminalize_other closeOpenCasesTx_other assms(2) by (fastforce simp: cancel_timers_def)+
  then show ?thesis by simp
next
  case (Cons s ss)
  then show ?thesis using assms failRunForStepTx_other by (simp add: settleExpiredRunForControlTx_def)
qed

lemma settleExpired_fails:
  assumes "settleExpiredRunForControlTx now rid d = Inr d'" and "find_run d rid = Some r" and "\<not> run_terminal (r_status r)"
  shows "(\<exists>r'. find_run d' rid = Some r' \<and> r_status r' = R_FAILED \<and> r_reason r' = Some ''RUN_DEADLINE_EXCEEDED'') \<and>
    steps_in d' rid open_states = []"
proof (cases "sort_key s_id (steps_in d rid open_states)")
  case Nil
  then have none: "steps_in d rid open_states = []" by (metis length_0_conv length_sort)
  obtain e b where e: "closeOpenCasesTx rid None ''FAIL'' (cancel_timers rid d) = Inr e"
    and t: "terminalize rid (\<lambda>r. r\<lparr>r_status := R_FAILED, r_reason := Some ''RUN_DEADLINE_EXCEEDED''\<rparr>) ''RUN_FAILED'' e = Inr (b, d')"
    using assms(1) Nil unfolding settleExpiredRunForControlTx_def failOverdueRunWithoutStepsTx_def by (auto dest!: holds_ebindD)
  obtain n where n: "find_run e rid = Some (r\<lparr>r_last_event := n\<rparr>)"
    using map_option_find_run_status [OF closeOpenCasesTxD(11) [OF e, of rid, symmetric], of r] assms(2) by (auto simp: cancel_timers_def)
  have "db_steps d' = db_steps e" using t by (auto simp: terminalize_def appendRunEventD(2) split: if_splits)
  then have "steps_in d' rid open_states = []" using none closeOpenCasesTxD(2) [OF e] by (simp add: steps_in_def cancel_timers_def)
  then show ?thesis using terminalize_run [OF t n] assms(3) by simp
next
  case (Cons s ss)
  then have f: "failRunForStepTx now rid (s_id s) ''RUN_DEADLINE_EXCEEDED'' None d = Inr d'"
    using assms(1) by (simp add: settleExpiredRunForControlTx_def)
  have "steps_in d' rid open_states = []"
    by (simp add: steps_in_def failRunForStepTxD [OF f] filter_empty_conv ball_upd stepstates)
  then show ?thesis using failRunForStepTx_run(1) [OF f] by blast
qed

lemma settleExpired_commits:
  assumes "find_run d rid = Some r" and "\<not> run_terminal (r_status r)" and "r_last_event r < maxRunEvents - 1"
  shows "\<exists>d'. settleExpiredRunForControlTx now rid d = Inr d'"
proof (cases "sort_key s_id (steps_in d rid open_states)")
  case (Cons s ss)
  then show ?thesis
    using assms failRunForStepTx_commits [of now rid "s_id s" "''RUN_DEADLINE_EXCEEDED''" None d]
    by (simp add: settleExpiredRunForControlTx_def)
next
  case Nil
  have t: "find_run (cancel_timers rid d) rid = Some r" using assms(1) by (simp add: cancel_timers_def)
  have "\<exists>e n. closeOpenCasesTx rid None ''FAIL'' (cancel_timers rid d) = Inr e \<and> find_run e rid = Some (r\<lparr>r_last_event := n\<rparr>) \<and> n < maxRunEvents"
  proof (cases "open_cases (cancel_timers rid d) rid = []")
    case True
    then show ?thesis using t assms(3) by (intro exI [of _ "cancel_timers rid d"] exI [of _ "r_last_event r"]) (simp add: closeOpenCasesTx_noop)
  next
    case False
    let ?u = "upd_cases (\<lambda>c. c_step c \<in> set (step_ids (cancel_timers rid d) rid) \<and> c_status c = C_OPEN)
        (\<lambda>c. c\<lparr>c_status := C_RESOLVED, c_resolution := Some ''FAIL'', c_actor := None, c_revision := c_revision c + 1\<rparr>) (cancel_timers rid d)"
    obtain e where e: "appendRunEvent rid ''CASE_RESOLVED'' ?u = Inr e"
      using t assms(3) appendRunEvent_commits [of rid "''CASE_RESOLVED''" ?u] by (auto simp: within_budget_def)
    have "find_run e rid = Some (r\<lparr>r_last_event := r_last_event r + 1\<rparr>)"
      using appendRunEventD(12) [OF e, of rid] t find_run_id [OF assms(1)] by simp
    then show ?thesis using e False assms(3) by (auto simp: closeOpenCasesTx_def Let_def)
  qed
  then obtain e n where e: "closeOpenCasesTx rid None ''FAIL'' (cancel_timers rid d) = Inr e"
    "find_run e rid = Some (r\<lparr>r_last_event := n\<rparr>)" "n < maxRunEvents" by blast
  let ?f = "\<lambda>r. r\<lparr>r_status := R_FAILED, r_reason := Some ''RUN_DEADLINE_EXCEEDED''\<rparr>"
  let ?g = "upd_runs (\<lambda>r. r_id r = rid \<and> \<not> run_terminal (r_status r)) ?f e"
  have "find_run ?g rid = Some (?f (r\<lparr>r_last_event := n\<rparr>))" using e(2) assms(2) find_run_id [OF e(2)] by (simp add: find_run_upd)
  then have "\<exists>d'. appendRunEvent rid ''RUN_FAILED'' ?g = Inr d'"
    using e(3) by (auto simp: appendRunEvent_commits within_budget_def terminal_event_def)
  moreover have "\<exists>q \<in> set (db_runs e). r_id q = rid \<and> \<not> run_terminal (r_status q)"
    using find_run_id [OF e(2)] assms(2) by (intro bexI [of _ "r\<lparr>r_last_event := n\<rparr>"]) auto
  ultimately have "\<exists>d'. terminalize rid ?f ''RUN_FAILED'' e = Inr (True, d')" unfolding terminalize_def by auto
  then show ?thesis using Nil e(1) by (auto simp: settleExpiredRunForControlTx_def failOverdueRunWithoutStepsTx_def)
qed

text \<open>A fresh command runs its mutation; an error of the mutation is the command's error.\<close>

lemma run_mutation_error:
  assumes "mutate d = Inl e" and "\<And>c. commandFromContext ctx = Some c \<Longrightarrow> List.find (same_command c) rows = None"
  shows "run_mutation k commands ctx mutate (rows, d) = Inl (MutationError e)"
proof (cases "commandFromContext ctx")
  case None
  then show ?thesis using assms(1) by (simp add: run_mutation_def withCommandTx_def)
next
  case (Some c)
  then show ?thesis using assms(1) assms(2) [OF Some] by (simp add: run_mutation_def withCommandTx_def Let_def claim_command_def)
qed

text \<open>C28: a pause that finds the run past its deadline is refused, and the failure of the run is durable
  although the pause is rolled back: the run is FAILED with RUN_DEADLINE_EXCEEDED and none of its
  steps is open.\<close>

theorem PauseRun_overdue:
  assumes "find_run d runID = Some r" and "\<not> run_terminal (r_status r)" and "r_status r \<noteq> R_CANCELLING" and "r_revision r = ver"
    and "past_deadline now (r_deadline r)" and "now \<le> later" and "r_last_event r < maxRunEvents - 1"
    and "\<And>c. commandFromContext ctx = Some c \<Longrightarrow> List.find (same_command c) rows = None"
  shows "\<exists>d' r'. PauseRun k commands ctx now later runID ver (Some a) (rows, d) = (Inl (MutationError ErrRunDeadlineExceeded), rows, d') \<and>
    find_run d' runID = Some r' \<and> r_status r' = R_FAILED \<and> r_reason r' = Some ''RUN_DEADLINE_EXCEEDED'' \<and> steps_in d' runID open_states = []"
proof -
  have "pauseRunTx now runID ver a d = Inl ErrRunDeadlineExceeded" using assms(1-5) by (simp add: pauseRunTx_def)
  then have m: "run_mutation k commands ctx (pauseRunTx now runID ver a) (rows, d) = Inl (MutationError ErrRunDeadlineExceeded)"
    using assms(8) by (rule run_mutation_error)
  obtain d' where d': "settleExpiredRunForControlTx later runID d = Inr d'" using settleExpired_commits [OF assms(1,2,7)] by blast
  have "past_deadline later (r_deadline r)" using assms(5,6) by (auto simp: past_deadline_def split: option.splits)
  then have "settleOverdueRunForControl later runID d = Inr (True, d')"
    using assms(1-3) d' by (simp add: settleOverdueRunForControl_def run_terminal_def)
  then show ?thesis using m settleExpired_fails [OF d' assms(1,2)] by (auto simp: PauseRun_def control_run_def)
qed

definition sample_codec :: codec where
  "sample_codec = \<lparr> encode_run = (\<lambda>_. Some []), decode_run = (\<lambda>_. None) \<rparr>"

definition sample_overdue :: db where
  "sample_overdue = sample_db\<lparr>db_runs := [sample_run\<lparr>r_deadline := Some 900\<rparr>], db_attempts := [], db_leases := []\<rparr>"

theorem PauseRun_overdue_witness:
  "\<exists>d' r'. PauseRun sample_codec True (Some sample_command) 1000 1001 1 1 (Some sample_audit) ([], sample_overdue) =
       (Inl (MutationError ErrRunDeadlineExceeded), [], d') \<and> find_run d' 1 = Some r' \<and> r_status r' = R_FAILED"
proof -
  let ?r = "sample_run\<lparr>r_deadline := Some 900\<rparr>"
  have r: "find_run sample_overdue 1 = Some ?r" by (simp add: sample_overdue_def find_run_def sample_run_def)
  have "\<exists>d' r'. PauseRun sample_codec True (Some sample_command) 1000 1001 1 1 (Some sample_audit) ([], sample_overdue) =
      (Inl (MutationError ErrRunDeadlineExceeded), [], d') \<and> find_run d' 1 = Some r' \<and> r_status r' = R_FAILED \<and>
      r_reason r' = Some ''RUN_DEADLINE_EXCEEDED'' \<and> steps_in d' 1 open_states = []"
    by (rule PauseRun_overdue [OF r]) (simp_all add: sample_run_def past_deadline_def maxRunEvents_def)
  then show ?thesis by blast
qed

text \<open>The runs a sweep has settled, and the ones it has not reached.\<close>

definition deadline_failed :: "db \<Rightarrow> uid \<Rightarrow> bool" where
  "deadline_failed d rid \<longleftrightarrow> (\<exists>r. find_run d rid = Some r \<and> r_status r = R_FAILED \<and> r_reason r = Some ''RUN_DEADLINE_EXCEEDED'')"

lemma fail_overdue_sweep:
  assumes "efold (fail_overdue now) ids (n, affected, d) = Inr (n', affected', d')" and "distinct ids"
    and "\<forall>i \<in> set ids. \<exists>r. find_run d i = Some r \<and> r_status r \<in> {R_QUEUED, R_RUNNING, R_WAITING, R_PAUSING, R_PAUSED}"
  shows "(\<forall>i \<in> set ids. deadline_failed d' i) \<and> (\<forall>i. i \<notin> set ids \<longrightarrow> find_run d' i = find_run d i) \<and>
    n' = n + length ids \<and> affected' = affected @ ids"
  using assms
proof (induction ids arbitrary: n affected d)
  case (Cons i ids)
  obtain r where r: "find_run d i = Some r" "r_status r \<in> {R_QUEUED, R_RUNNING, R_WAITING, R_PAUSING, R_PAUSED}"
    using Cons.prems(3) by auto
  then have o: "\<not> run_terminal (r_status r)" by auto
  have step: "fail_overdue now i (n, affected, d) = ebind (settleExpiredRunForControlTx now i d) (\<lambda>d. Inr (n + 1, affected @ [i], d))"
    using r by (auto simp: fail_overdue_def)
  obtain e where e: "settleExpiredRunForControlTx now i d = Inr e"
    and rest: "efold (fail_overdue now) ids (n + 1, affected @ [i], e) = Inr (n', affected', d')"
    using Cons.prems(1) step by (cases "settleExpiredRunForControlTx now i d") auto
  have other: "find_run e j = find_run d j" if "j \<noteq> i" for j using settleExpired_other [OF e that] .
  have prem: "\<forall>j \<in> set ids. \<exists>r. find_run e j = Some r \<and> r_status r \<in> {R_QUEUED, R_RUNNING, R_WAITING, R_PAUSING, R_PAUSED}"
  proof
    fix j assume j: "j \<in> set ids"
    then have "j \<noteq> i" using Cons.prems(2) by auto
    then show "\<exists>r. find_run e j = Some r \<and> r_status r \<in> {R_QUEUED, R_RUNNING, R_WAITING, R_PAUSING, R_PAUSED}"
      using Cons.prems(3) j other by auto
  qed
  have ids: "distinct ids" "i \<notin> set ids" using Cons.prems(2) by simp_all
  note IH = Cons.IH [OF rest ids(1) prem]
  have "deadline_failed e i" using settleExpired_fails [OF e r(1) o] by (simp add: deadline_failed_def)
  then have "deadline_failed d' i" using IH ids(2) by (simp add: deadline_failed_def)
  then show ?case using IH other by auto
qed simp



section \<open>Pause and resume\<close>

text \<open>The tables a pause leaves alone: everything but the run's row, the history and the audit.\<close>

definition same_work :: "db \<Rightarrow> db \<Rightarrow> bool" where
  "same_work d d' \<longleftrightarrow> db_steps d' = db_steps d \<and> db_attempts d' = db_attempts d \<and> db_leases d' = db_leases d \<and>
     db_timers d' = db_timers d \<and> db_cases d' = db_cases d \<and> db_approvals d' = db_approvals d \<and> db_stops d' = db_stops d"

lemma same_work_resumed: "same_work d d' \<Longrightarrow> resumed_status d' rid = resumed_status d rid"
  unfolding same_work_def resumed_status_def live_attempts_def steps_in_def has_started_def open_cases_def
      pending_timers_def step_ids_def by (simp only:)

lemma same_work_trans: "same_work a b \<Longrightarrow> same_work b c \<Longrightarrow> same_work a c"
  by (simp add: same_work_def)

lemma same_work_run: "appendRunEvent rid e (upd_runs P f d) = Inr d' \<Longrightarrow> same_work d (audit x y d')"
  by (simp add: same_work_def appendRunEventD)

lemma pauseRunTx_work:
  assumes "pauseRunTx now rid ver a d = Inr (dto, d')"
  shows "same_work d d'"
proof -
  obtain r where r: "find_run d rid = Some r" using assms by (cases "find_run d rid") (simp_all add: pauseRunTx_def)
  show ?thesis
    using assms unfolding pauseRunTx_def Let_def r
    by (auto simp: same_work_def appendRunEventD split: if_splits)
qed

lemma settled_terminal:
  assumes "settleRunTerminalTx c rid w states os input dflt d = Inr (b, d')" and "find_run d rid = Some r"
    and "\<not> run_terminal (r_status r)" and b
  shows "\<exists>q. find_run d' rid = Some q \<and> run_terminal (r_status q)"
proof -
  have t: "\<exists>q. find_run d' rid = Some q \<and> run_terminal (r_status q)"
    if "terminalize rid f e d = Inr (b, d')" "\<And>q. r_id (f q) = r_id q" "run_terminal (r_status (f r))" for f e
    using terminalize_run [OF that(1) assms(2,3) that(2)] that(3) by simp
  show ?thesis
    using assms(1,4) unfolding settleRunTerminalTx_def fail_output_def Let_def
    by (auto split: if_splits sum.splits intro!: t)
qed

lemma resume_openE:
  assumes "resume_open rid d = Inr (dto, d')"
  obtains y where "appendRunEvent rid ''RUN_RESUMED'' (upd_runs (\<lambda>q. r_id q = rid)
      (\<lambda>q. q\<lparr>r_status := fst (resumed_status d rid), r_reason := snd (resumed_status d rid), r_pause_requested := False,
             r_revision := r_revision q + 1\<rparr>) d) = Inr y" "d' = audit ''run.resume'' rid y"
  using assms unfolding resume_open_def Let_def split_beta
  by (auto dest!: holds_ebindD)


definition sample_manifests :: manifests where
  "sample_manifests i = (if i = 1 then Some sample_dm else None)"


end
