(* ===== verification/Evaluation_Law.thy ===== *)
theory Evaluation_Law
  imports Dag_Evaluator
begin

text \<open>
  What a graph evaluation keeps.  The evaluation of \<open>internal/execution/worker_engine.go\<close> reaches the
  tables through five kinds of statement; the locale names what a relation between states has to
  satisfy for each of them, and the evaluation and everything that runs it then satisfy the relation.
\<close>

definition ids_in :: "uid set \<Rightarrow> dag_state \<Rightarrow> bool" where
  "ids_in S g \<longleftrightarrow> (\<forall>p \<in> set (g_steps g). de_id (snd p) \<in> S)"

lemma ids_in_simps [simp]:
  "ids_in S (g\<lparr>g_db := d\<rparr>) = ids_in S g" "ids_in S (g\<lparr>g_outputs := os\<rparr>) = ids_in S g" "ids_in S (g\<lparr>g_changed := b\<rparr>) = ids_in S g"
  "ids_in S (g\<lparr>g_transitions := n\<rparr>) = ids_in S g"
  by (simp_all add: ids_in_def)

lemma ids_in_set_state [simp]: "ids_in S (set_state nid st g) = ids_in S g"
proof -
  have "(\<forall>p \<in> set (map (\<lambda>p. if fst p = nid then (nid, (snd p)\<lparr>de_state := st\<rparr>) else p) xs). de_id (snd p) \<in> S) =
      (\<forall>p \<in> set xs. de_id (snd p) \<in> S)" for xs :: "(string \<times> dagEvalStep) list"
    by (induction xs) auto
  then show ?thesis by (simp add: ids_in_def set_state_def)
qed

lemma g_db_set_state [simp]: "g_db (set_state nid st g) = g_db g"
  by (simp add: set_state_def)

text \<open>A request for an approval, with the step parked for it.\<close>

definition park_approval :: "uid \<Rightarrow> uid \<Rightarrow> approval_row \<Rightarrow> db \<Rightarrow> db tx" where
  "park_approval runID sid p d =
     (let d = d\<lparr>db_approvals := db_approvals d @ [p], db_next := db_next d + 1\<rparr> in
      if \<not> blocked_row d sid then Inr d
      else ebind (appendRunEvent runID ''APPROVAL_REQUESTED''
               (upd_steps (\<lambda>s. s_id s = sid \<and> s_state s = S_BLOCKED)
                  (\<lambda>s. s\<lparr>s_state := S_WAITING, s_wait := Some ''APPROVAL'', s_eligible := None\<rparr>) d))
             (recomputeRunStatusAfterControlTx runID))"

locale evaluation_law =
  fixes R :: "db \<Rightarrow> db \<Rightarrow> bool" and now :: time and rid :: uid and S :: "uid set"
  assumes refl: "R d d"
    and trans: "R d d1 \<Longrightarrow> R d1 d2 \<Longrightarrow> R d d2"
    and failing: "sid \<in> S \<Longrightarrow> failRunForStepTx now rid sid code None d = Inr d' \<Longrightarrow> R d d'"
    and settling: "sid \<in> S \<Longrightarrow> st \<in> {S_SKIPPED, S_SUCCEEDED, S_READY} \<Longrightarrow>
      (\<And>s. same_step (f s) s) \<Longrightarrow>
      appendRunEvent rid event (upd_steps (\<lambda>s. s_id s = sid \<and> s_state s = S_BLOCKED) (\<lambda>s. (f s)\<lparr>s_state := st\<rparr>) d) = Inr d' \<Longrightarrow> R d d'"
    and parking: "sid \<in> S \<Longrightarrow> p_step p = sid \<Longrightarrow> p_id p = db_next d \<Longrightarrow> p_status p = P_PENDING \<Longrightarrow> sid \<notin> set (map p_step (db_approvals d)) \<Longrightarrow>
      park_approval rid sid p d = Inr d' \<Longrightarrow> R d d'"
    and delaying: "sid \<in> S \<Longrightarrow> scheduleDelayTx now rid sid ms d = Inr (due, ins, d') \<Longrightarrow> R d d'"
    and logging: "appendRunEvent rid event d = Inr d' \<Longrightarrow> R d d'"
begin

definition kept :: "dag_state \<Rightarrow> dag_state \<Rightarrow> bool" where
  "kept g h \<longleftrightarrow> (ids_in S g \<longrightarrow> ids_in S h \<and> R (g_db g) (g_db h))"

lemma kept_refl: "kept g g"
  by (simp add: kept_def refl)

lemma kept_trans: "kept a b \<Longrightarrow> kept b e \<Longrightarrow> kept a e"
  unfolding kept_def using trans by blast

lemma kept_changed: "kept (g\<lparr>g_changed := b\<rparr>) h \<longleftrightarrow> kept g h"
  by (simp add: kept_def)

lemma fail_dag_kept: "sid \<in> S \<Longrightarrow> holds (\<lambda>r. kept g (result_state r)) (fail_dag now rid sid code g)"
  by (auto simp: fail_dag_def holds_def kept_def intro: failing)

lemma settle_blocked_kept:
  assumes "sid \<in> S" and "st \<in> {S_SKIPPED, S_SUCCEEDED, S_READY}"
    and "\<And>s. same_step (f s) s"
  shows "holds (\<lambda>(b, h). kept g h) (settle_blocked rid nid sid st f e g)"
  using settling [OF assms] by (auto simp: settle_blocked_def holds_def kept_def refl)

lemma go_on_kept: "holds (\<lambda>(b, h). kept g h) t \<Longrightarrow> holds (\<lambda>r. kept g (result_state r)) (go_on t)"
  by (auto simp: go_on_def holds_def)

lemma skip_node_kept: "sid \<in> S \<Longrightarrow> holds (\<lambda>r. kept g (result_state r)) (skip_node rid nid sid g)"
  unfolding skip_node_def by (intro go_on_kept settle_blocked_kept) simp_all

lemma succeed_node_kept:
  assumes "sid \<in> S"
  shows "holds (\<lambda>(b, h). kept g h) (succeed_node c rid nid sid out g)"
proof -
  have *: "holds (\<lambda>(b, h). kept g h) (settle_blocked rid nid sid S_SUCCEEDED (\<lambda>s. s\<lparr>s_wait := None, s_output := Some out\<rparr>) e g)" for e
    by (rule settle_blocked_kept [OF assms]) simp_all
  show ?thesis
    unfolding succeed_node_def by (auto split: option.split intro!: holds_bind [OF *] simp: kept_def)
qed

lemma eval_merge_kept: "sid \<in> S \<Longrightarrow> holds (\<lambda>r. kept g (result_state r)) (eval_merge c now rid w input anc desc n sid g)"
  by (simp add: eval_merge_def commit_merge_def Let_def fail_dag_kept go_on_kept succeed_node_kept skip_node_kept kept_refl
      split: option.split sum.split)

lemma skip_all_kept: "kept g h \<Longrightarrow> ids_in S h \<Longrightarrow> holds (\<lambda>h. kept g h \<and> ids_in S h) (efold (skip_unselected rid) nids h)"
proof (rule holds_efold)
  fix nid h assume h: "kept g h \<and> ids_in S h"
  have "holds (\<lambda>h. kept g h \<and> ids_in S h) (ebind (settle_blocked rid nid (de_id st) S_SKIPPED (\<lambda>s. s\<lparr>s_wait := w\<rparr>) e h) (\<lambda>(_, g). Inr g))"
    if "map_of (g_steps h) nid = Some st" for st w e
  proof (rule holds_bind [OF settle_blocked_kept])
    show "de_id st \<in> S" using h map_of_in_set [OF that] by (force simp: ids_in_def)
    show "holds (\<lambda>h. kept g h \<and> ids_in S h) (case p of (_, g) \<Rightarrow> Inr g)" if "case p of (b, i) \<Rightarrow> kept h i" for p
      using that h by (auto intro: trans simp: kept_def split: prod.splits)
  qed simp_all
  then show "holds (\<lambda>h. kept g h \<and> ids_in S h) (skip_unselected rid nid h)"
    using h by (auto simp: skip_unselected_def split: option.split)
qed simp

lemma eval_choice_kept:
  assumes "sid \<in> S"
  shows "holds (\<lambda>r. kept g (result_state r)) (eval_choice c now rid w input anc desc n sid g)"
proof -
  have "holds (\<lambda>r. kept g (result_state r)) (ebind (efold (skip_unselected rid) nids h) (\<lambda>g. Inr (Going g)))" if "kept g h" for nids h
  proof (cases "ids_in S g")
    case True
    then have "ids_in S h" using that by (simp add: kept_def)
    then show ?thesis by (rule holds_bind [OF skip_all_kept [OF that]]) simp
  qed (auto simp: holds_def kept_def)
  then show ?thesis
    unfolding eval_choice_def
    by (auto split: sum.split intro!: fail_dag_kept assms holds_bind [OF succeed_node_kept [OF assms]])
qed

lemma openApprovalTx_kept:
  assumes "sid \<in> S"
  shows "holds (\<lambda>(b, h). kept g h) (openApprovalTx c now rid input n sid g)"
proof (cases "wn_Approval n")
  case None
  then show ?thesis by (auto simp: openApprovalTx_def holds_def)
next
  case (Some cfg)
  show ?thesis
  proof (cases "MapInput (if ap_Payload cfg = JNull then JObj [] else ap_Payload cfg) input (g_outputs g)")
    case (Inl e)
    then show ?thesis using Some failing [OF assms] by (auto simp: openApprovalTx_def holds_def kept_def)
  next
    case (Inr v)
    define row where "row t = \<lparr> p_id = db_next (g_db g), p_step = sid, p_payload = v, p_status = P_PENDING, p_expires = Some t,
      p_decided = None, p_comment = None, p_actor = None, p_revision = 1 \<rparr>" for t
    have law: "R (g_db g) d'" if "sid \<notin> set (map p_step (db_approvals (g_db g)))" and "park_approval rid sid (row t) (g_db g) = Inr d'" for t d'
      by (rule parking [OF assms _ _ _ that]) (simp_all add: row_def)
    let ?d = "\<lambda>t. (g_db g)\<lparr>db_approvals := db_approvals (g_db g) @ [row t], db_next := db_next (g_db g) + 1\<rparr>"
    let ?u = "\<lambda>t. upd_steps (\<lambda>s. s_id s = sid \<and> s_state s = S_BLOCKED)
        (\<lambda>s. s\<lparr>s_state := S_WAITING, s_wait := Some ''APPROVAL'', s_eligible := None\<rparr>) (?d t)"
    have new: "R (g_db g) (?d t)" if "sid \<notin> set (map p_step (db_approvals (g_db g)))" and "\<not> blocked_row (?d t) sid" for t
      using law [OF that(1), of t] that(2) by (simp add: park_approval_def Let_def)
    have parked: "R (g_db g) d'" if "sid \<notin> set (map p_step (db_approvals (g_db g)))" and "blocked_row (?d t) sid"
      and "appendRunEvent rid ''APPROVAL_REQUESTED'' (?u t) = Inr x" and "recomputeRunStatusAfterControlTx rid x = Inr d'" for t x d'
      using law [OF that(1), of t] that(2-) by (simp add: park_approval_def Let_def)
    show ?thesis
      using Some Inr
      by (auto simp: openApprovalTx_def row_def [symmetric] holds_def Let_def kept_def refl intro: new [simplified] parked [simplified] split: option.splits if_splits)
  qed
qed

lemma eval_approval_kept: "sid \<in> S \<Longrightarrow> holds (\<lambda>r. kept g (result_state r)) (eval_approval c now rid input n sid g)"
  unfolding eval_approval_def by (rule holds_bind [OF openApprovalTx_kept]) (auto simp: kept_def)

lemma eval_delay_kept:
  assumes "sid \<in> S"
  shows "holds (\<lambda>r. kept g (result_state r)) (eval_delay now rid n sid g)"
proof -
  have one: "kept g ((set_state k S_WAITING g)\<lparr>g_db := d\<rparr>)" if "scheduleDelayTx now rid sid ms (g_db g) = Inr (due, b, d)" for k ms due b d
    using delaying [OF assms that] by (simp add: kept_def)
  have two: "kept g ((set_state k S_WAITING g)\<lparr>g_db := d', g_transitions := t, g_changed := True\<rparr>)"
    if "scheduleDelayTx now rid sid ms (g_db g) = Inr (due, b, d)" and "appendRunEvent rid e d = Inr d'" for k ms due b d e d' t
    using trans [OF delaying [OF assms that(1)] logging [OF that(2)]] by (simp add: kept_def)
  show ?thesis
    unfolding eval_delay_def Let_def using fail_dag_kept [OF assms, of g] one two
    by (auto simp: holds_def split: option.split if_splits)
qed

lemma eval_node_kept: "holds (\<lambda>r. kept g (result_state r)) (eval_node c now rid m w name input anc desc n g)"
proof (cases "ids_in S g")
  case True
  then have S: "de_id st \<in> S" if "map_of (g_steps g) (wn_ID n) = Some st" for st
    using map_of_in_set [OF that] by (force simp: ids_in_def)
  have task: "holds (\<lambda>r. kept g (result_state r)) (go_on (settle_blocked rid k sid S_READY (\<lambda>s. s\<lparr>s_wait := None, s_eligible := Some now\<rparr>) e g))"
    if "sid \<in> S" for k sid e
    by (intro go_on_kept settle_blocked_kept that) simp_all
  show ?thesis
    by (simp add: eval_node_def eval_task_def eval_merge_kept eval_choice_kept eval_approval_kept eval_delay_kept
        fail_dag_kept skip_node_kept task S kept_refl split: option.split)
qed (auto simp: holds_def kept_def)

lemma evaluation:
  assumes "de_id ` snd ` set steps \<subseteq> S"
  shows "holds (\<lambda>r. R d (g_db (result_state r))) (evaluateBlockedDAGTx c now rid name w m input steps os d)"
proof -
  let ?g = "\<lparr> g_db = d, g_steps = steps, g_outputs = os, g_transitions = 0, g_changed = True \<rparr>"
  have "holds (\<lambda>r. kept ?g (result_state r)) (dag_loop c now rid m w name input anc desc ?g)" for anc desc
    by (rule dag_loop_induct [where R = kept, OF eval_node_kept kept_trans kept_refl kept_changed])
  moreover have "ids_in S ?g" using assms by (auto simp: ids_in_def)
  ultimately show ?thesis
    unfolding evaluateBlockedDAGTx_def by (auto simp: kept_def holds_def split: option.split)
qed

end

text \<open>With a law for the statement that ends a finished run, advancing a run after a step is covered too.\<close>

locale advancement_law = evaluation_law +
  assumes ending: "settleRunTerminalTx c rid w states outputs input dflt d = Inr (over, d') \<Longrightarrow> R d d'"
begin

lemma advancement:
  assumes "de_id ` snd ` set (local_steps d rid) \<subseteq> S"
  shows "holds (R d) (advanceAfterStepSuccessTx c manifests now rid out d)"
proof -
  have *: "holds (R d) (case res of RunFailed g \<Rightarrow> Inr (g_db g)
      | Going g \<Rightarrow> ebind (settleRunTerminalTx c rid w (g_steps g) (g_outputs g) i out (g_db g)) (\<lambda>(_, d). Inr d))"
    if "R d (g_db (result_state res))" for res w i
    using that by (cases res) (auto simp: holds_def intro: trans ending)
  show ?thesis
    unfolding advanceAfterStepSuccessTx_def
    by (auto split: option.split intro!: holds_bind [OF evaluation [OF assms]] * refl)
qed

end

end
