(* ===== verification/Approvals.thy ===== *)
theory Approvals
  imports Run_Control Evaluation_Law
begin

text \<open>
  Human approvals (\<open>internal/execution/approval.go\<close>): the single decision of a request, its expiry, seen
  by a decision or by the sweep, and what either does to the run.  Opening a request is part of the
  graph evaluation.  The time stamp in a decision's output is formatted by the \<open>time\<close> package and is
  a parameter.
\<close>

section \<open>Requests\<close>

record DecideApprovalRequest =
  dr_Decision :: string
  dr_ExpectedRevision :: int
  dr_Comment :: string

record ApprovalDTO =
  ad_ID :: uid
  ad_RunID :: uid
  ad_StepID :: uid
  ad_NodeID :: string
  ad_WorkflowName :: string
  ad_Status :: ApprovalStatus
  ad_Payload :: json
  ad_Revision :: int
  ad_ExpiresAt :: "time option"
  ad_DecidedAt :: "time option"
  ad_DecisionComment :: "string option"
  ad_ActorID :: "string option"

definition find_approval :: "db \<Rightarrow> uid \<Rightarrow> approval_row option" where
  "find_approval d pid = List.find (\<lambda>p. p_id p = pid) (db_approvals d)"

definition queryApprovalDTO :: "db \<Rightarrow> uid \<Rightarrow> ApprovalDTO tx" where
  "queryApprovalDTO d approvalID =
     (case find_approval d approvalID of
        None \<Rightarrow> Inl ErrApprovalNotFound
      | Some p \<Rightarrow>
          (case find_step d (p_step p) of
             None \<Rightarrow> Inl ErrApprovalNotFound
           | Some s \<Rightarrow>
               (case find_run d (s_run s) of
                  None \<Rightarrow> Inl ErrApprovalNotFound
                | Some r \<Rightarrow> Inr \<lparr> ad_ID = p_id p, ad_RunID = s_run s, ad_StepID = s_id s, ad_NodeID = s_node s,
                    ad_WorkflowName = r_workflow r, ad_Status = p_status p, ad_Payload = p_payload p, ad_Revision = p_revision p,
                    ad_ExpiresAt = p_expires p, ad_DecidedAt = p_decided p, ad_DecisionComment = p_comment p, ad_ActorID = p_actor p \<rparr>)))"

section \<open>Expiry\<close>

definition approvalExpiredNowTx :: "time \<Rightarrow> time option \<Rightarrow> bool" where
  "approvalExpiredNowTx now expiresAt = (case expiresAt of None \<Rightarrow> False | Some t \<Rightarrow> t \<le> now)"

definition expireApprovalTx :: "time \<Rightarrow> uid \<Rightarrow> uid \<Rightarrow> uid \<Rightarrow> db \<Rightarrow> db tx" where
  "expireApprovalTx now runID stepID approvalID d =
     (if \<not> (\<exists>p \<in> set (db_approvals d). p_id p = approvalID \<and> p_status p = P_PENDING) then Inr d
      else
        ebind (appendRunEvent runID ''APPROVAL_EXPIRED''
            (upd_approvals (\<lambda>p. p_id p = approvalID \<and> p_status p = P_PENDING)
               (\<lambda>p. p\<lparr>p_status := P_EXPIRED, p_revision := p_revision p + 1\<rparr>) d))
          (failRunForStepTx now runID stepID ''APPROVAL_EXPIRED'' None))"

definition due_approvals :: "time \<Rightarrow> db \<Rightarrow> (approval_row \<times> step_row) list" where
  "due_approvals now d =
     take 50 (sort_key (\<lambda>(p, _). case p_expires p of None \<Rightarrow> 0 | Some t \<Rightarrow> t)
       (List.map_filter (\<lambda>p. if p_status p = P_PENDING \<and> p_expires p \<noteq> None \<and> approvalExpiredNowTx now (p_expires p)
           then map_option (Pair p) (find_step d (p_step p)) else None) (db_approvals d)))"

definition SweepExpiredApprovals :: "time \<Rightarrow> db \<Rightarrow> (nat \<times> db) tx" where
  "SweepExpiredApprovals now d =
     efold (\<lambda>(p, s) (swept, d). ebind (expireApprovalTx now (s_run s) (s_id s) (p_id p) d) (\<lambda>d. Inr (swept + 1, d)))
       (due_approvals now d) (0, d)"

section \<open>Decisions\<close>

text \<open>The schema of every approval node with the step's node id, in every workflow of the manifest; the
  first one that rejects the output fails the run.\<close>

definition approval_schemas :: "deploymentManifest \<Rightarrow> string \<Rightarrow> json list" where
  "approval_schemas m nodeID =
     concat (map (\<lambda>w. List.map_filter (\<lambda>n.
        if wn_ID n \<noteq> nodeID then None
        else (case wn_Approval n of
                None \<Rightarrow> None
              | Some cfg \<Rightarrow> if ap_OutputSchema cfg = JNull then None else Some (ap_OutputSchema cfg))) (wm_Nodes w)) (dm_Workflows m))"

definition validateApprovalOutputTx ::
    "externals \<Rightarrow> manifests \<Rightarrow> time \<Rightarrow> uid \<Rightarrow> uid \<Rightarrow> string \<Rightarrow> json \<Rightarrow> db \<Rightarrow> db tx" where
  "validateApprovalOutputTx c manifests now runID stepID nodeID out d =
     ebind (get_run d runID) (\<lambda>r.
       case manifests (r_deployment r) of
         None \<Rightarrow> Inl (EngineError ''decode manifest'')
       | Some m \<Rightarrow>
           if list_all (\<lambda>schema. ValidatePayload c schema out = Inr ()) (approval_schemas m nodeID) then Inr d
           else failRunForStepTx now runID stepID ''SCHEMA_VALIDATION_ERROR'' None d)"

definition decision_output :: "(time \<Rightarrow> string) \<Rightarrow> string \<Rightarrow> string \<Rightarrow> string \<Rightarrow> time \<Rightarrow> json" where
  "decision_output format decision actor comment now =
     JObj ([(''decision'', JStr decision), (''actorId'', JStr actor), (''decidedAt'', JStr (format now))] @
       (if comment \<noteq> [] then [(''comment'', JStr comment)] else []))"

text \<open>The outcome of a decision transaction: committed, or aborted because the request had expired, with
  the ids the settlement needs.\<close>

datatype 'a decision_result = Decided 'a | ExpiredSignal uid uid uid

definition commit_decision ::
    "externals \<Rightarrow> manifests \<Rightarrow> (time \<Rightarrow> string) \<Rightarrow> time \<Rightarrow> uid \<Rightarrow> uid \<Rightarrow> string \<Rightarrow> uid \<Rightarrow> DecideApprovalRequest \<Rightarrow> string \<Rightarrow> db \<Rightarrow> db tx" where
  "commit_decision c manifests format now runID stepID nodeID approvalID req actor d =
     (let decidedStatus = (if dr_Decision req = ''rejected'' then P_REJECTED else P_APPROVED);
          out = decision_output format (dr_Decision req) actor (dr_Comment req) now;
          d = upd_approvals (\<lambda>p. p_id p = approvalID \<and> p_status p = P_PENDING)
                (\<lambda>p. p\<lparr>p_status := decidedStatus, p_decided := Some now, p_comment := Some (dr_Comment req), p_actor := Some actor,
                       p_revision := p_revision p + 1\<rparr>) d
      in ebind (validateApprovalOutputTx c manifests now runID stepID nodeID out d) (\<lambda>d.
         case json_Marshal c out of
           None \<Rightarrow> Inl (EngineError ''marshal'')
         | Some _ \<Rightarrow>
             ebind (appendRunEvent runID ''APPROVAL_DECIDED''
                 (upd_steps (\<lambda>s. s_id s = stepID \<and> s_state s = S_WAITING)
                    (\<lambda>s. s\<lparr>s_state := S_SUCCEEDED, s_wait := None, s_output := Some out\<rparr>) d)) (\<lambda>d.
             ebind (appendRunEvent runID ''STEP_SUCCEEDED'' d) (\<lambda>d.
             ebind (advanceAfterStepSuccessTx c manifests now runID out (audit ''approval.decide'' approvalID d))
               (recomputeRunStatusAfterControlTx runID)))))"

definition decideApprovalTx ::
    "externals \<Rightarrow> manifests \<Rightarrow> (time \<Rightarrow> string) \<Rightarrow> time \<Rightarrow> uid \<Rightarrow> DecideApprovalRequest \<Rightarrow> string \<Rightarrow> db \<Rightarrow> (ApprovalDTO \<times> db) decision_result tx" where
  "decideApprovalTx c manifests format now approvalID req actor d =
     (case find_approval d approvalID of
        None \<Rightarrow> Inl ErrApprovalNotFound
      | Some p \<Rightarrow>
          (case find_step d (p_step p) of
             None \<Rightarrow> Inl ErrApprovalNotFound
           | Some s \<Rightarrow>
               ebind (get_run d (s_run s)) (\<lambda>r.
                 if run_terminal (r_status r) then Inl ErrRunTerminal
                 else if r_status r = R_CANCELLING then Inl ErrRunCancelling
                 else if approvalExpiredNowTx now (p_expires p) \<and> p_status p = P_PENDING
                 then Inr (ExpiredSignal (s_run s) (s_id s) approvalID)
                 else if p_status p \<noteq> P_PENDING
                 then
                   (if p_status p = P_CANCELLED \<or> p_status p = P_EXPIRED then Inl ErrApprovalTerminal
                    else if (p_status p = P_APPROVED) \<noteq> (dr_Decision req = ''approved'') then Inl ErrApprovalConflict
                    else ebind (queryApprovalDTO d approvalID) (\<lambda>dto. Inr (Decided (dto, d))))
                 else if dr_ExpectedRevision req \<noteq> p_revision p then Inl ErrRevisionConflict
                 else if s_state s \<noteq> S_WAITING then Inl ErrApprovalTerminal
                 else
                   ebind (commit_decision c manifests format now (s_run s) (s_id s) (s_node s) approvalID req actor d) (\<lambda>d.
                   ebind (queryApprovalDTO d approvalID) (\<lambda>dto. Inr (Decided (dto, d)))))))"

definition settleExpiredApproval :: "time \<Rightarrow> uid \<Rightarrow> uid \<Rightarrow> uid \<Rightarrow> db \<Rightarrow> db tx" where
  "settleExpiredApproval now runID stepID approvalID d = expireApprovalTx now runID stepID approvalID d"

section \<open>The command\<close>

record approval_codec =
  encode_approval :: "ApprovalDTO \<Rightarrow> string option"
  decode_approval :: "string \<Rightarrow> ApprovalDTO option"

text \<open>In the decision's transaction the expiry is an error: the transaction is rolled back, and the
  expiry is committed in a transaction of its own before the decision is refused.\<close>

datatype decide_error = DecideError engine_error | DecideExpired uid uid uid

definition decide_mutation ::
    "externals \<Rightarrow> manifests \<Rightarrow> (time \<Rightarrow> string) \<Rightarrow> time \<Rightarrow> uid \<Rightarrow> DecideApprovalRequest \<Rightarrow> string \<Rightarrow> db \<Rightarrow> decide_error + (ApprovalDTO \<times> db)" where
  "decide_mutation c manifests format now approvalID req actor d =
     (case decideApprovalTx c manifests format now approvalID req actor d of
        Inl e \<Rightarrow> Inl (DecideError e)
      | Inr (ExpiredSignal runID stepID pid) \<Rightarrow> Inl (DecideExpired runID stepID pid)
      | Inr (Decided p) \<Rightarrow> Inr p)"

definition DecideApproval ::
    "externals \<Rightarrow> manifests \<Rightarrow> (time \<Rightarrow> string) \<Rightarrow> approval_codec \<Rightarrow> bool \<Rightarrow> Command option \<Rightarrow> time \<Rightarrow> time \<Rightarrow> uid \<Rightarrow> DecideApprovalRequest \<Rightarrow>
     AuditContext option \<Rightarrow> engine_state \<Rightarrow> (decide_error command_error + ApprovalDTO) \<times> engine_state" where
  "DecideApproval c manifests format k commands ctx now later approvalID req a st =
     (case a of
        None \<Rightarrow> (Inl (MutationError (DecideError ErrAuditRequired)), st)
      | Some au \<Rightarrow>
          (case (if ac_ActorType au = HUMAN then audit_actor au else None) of
             None \<Rightarrow> (Inl (MutationError (DecideError ErrApprovalHumanOnly)), st)
           | Some actor \<Rightarrow>
               if dr_Decision req \<noteq> ''approved'' \<and> dr_Decision req \<noteq> ''rejected''
               then (Inl (MutationError (DecideError ErrInvalidDecision)), st)
               else
                 (let mutate = decide_mutation c manifests format now approvalID req actor;
                      res = (if commands
                             then map_sum id snd (withCommandTx (encode_approval k) (decode_approval k) ctx [] 200 mutate st)
                             else (case mutate (snd st) of Inl e \<Rightarrow> Inl (MutationError e) | Inr (dto, d) \<Rightarrow> Inr (dto, fst st, d)))
                  in case res of
                       Inr (dto, st') \<Rightarrow> (Inr dto, st')
                     | Inl (MutationError (DecideExpired runID stepID pid)) \<Rightarrow>
                         (case settleExpiredApproval later runID stepID pid (snd st) of
                            Inl e \<Rightarrow> (Inl (MutationError (DecideError e)), st)
                          | Inr d \<Rightarrow> (Inl (MutationError (DecideError ErrApprovalExpired)), fst st, d))
                     | Inl e \<Rightarrow> (Inl e, st))))"

section \<open>The engine's invariant\<close>

lemma failRunForStepTx_failable:
  assumes "failRunForStepTx now rid sid code actor d = Inr d'"
  shows "run_failable d i \<Longrightarrow> run_failable d' i" and "step_failable d j \<Longrightarrow> step_failable d' j"
proof -
  show "step_failable d' j" if "step_failable d j"
    using that by (auto simp: step_at_def failRunForStepTxD(1) [OF assms] ball_upd)
  show "run_failable d' i" if "run_failable d i"
  proof (rule failRunForStepTxE [OF assms])
    fix d3
    assume 1: "closeOpenCasesTx rid actor ''FAIL'' (upd_steps (\<lambda>s. s_id s = sid) (\<lambda>s. s\<lparr>s_state := S_FAILED, s_wait := Some code\<rparr>)
          (fold (fail_live_attempt now) (live_attempts d rid) d)) = Inr d3"
      and 2: "appendRunEvent rid ''RUN_FAILED'' (cancel_timers rid (upd_steps (\<lambda>s. s_run s = rid \<and> s_id s \<noteq> sid \<and> s_state s \<in> set open_states)
          (\<lambda>s. s\<lparr>s_state := S_CANCELLED, s_wait := None\<rparr>)
          (upd_runs (\<lambda>r. r_id r = rid) (\<lambda>r. r\<lparr>r_status := R_FAILED, r_reason := Some code\<rparr>) d3))) = Inr d'"
    have "run_failable d3 i" using that by (simp add: closeOpenCasesTx_at(1) [OF 1])
    then have "run_failable (upd_runs (\<lambda>r. r_id r = rid) (\<lambda>r. r\<lparr>r_status := R_FAILED, r_reason := Some code\<rparr>) d3) i"
      by (rule run_at_keep) simp
    then show ?thesis by (simp add: appendRunEvent_at(1) [OF 2] cancel_timers_def)
  qed
qed

text \<open>What a settlement may assume and keeps: that the run and the step can still be failed.\<close>

definition failable_kept :: "db \<Rightarrow> db \<Rightarrow> bool" where
  "failable_kept x y \<longleftrightarrow> (\<forall>i. run_failable x i \<longrightarrow> run_failable y i) \<and> (\<forall>j. step_failable x j \<longrightarrow> step_failable y j)"

lemma failable_kept_refl [simp]: "failable_kept x x"
  by (simp add: failable_kept_def)

lemma failable_kept_trans: "failable_kept x y \<Longrightarrow> failable_kept y z \<Longrightarrow> failable_kept x z"
  by (simp add: failable_kept_def)

lemma failRunForStepTx_kept:
  assumes "step_ok d x" and "inv x \<Longrightarrow> run_failable x rid" and "inv x \<Longrightarrow> step_failable x sid"
  shows "holds (\<lambda>y. step_ok d y \<and> failable_kept x y) (failRunForStepTx now rid sid code actor x)"
  using failRunForStepTx_step_ok [OF assms] failRunForStepTx_failable by (auto simp: holds_def failable_kept_def)

lemma expireApprovalTx_kept:
  assumes "step_ok d x" and "run_failable x rid" and "step_failable x sid"
  shows "holds (\<lambda>y. step_ok d y \<and> failable_kept x y) (expireApprovalTx now rid sid pid x)"
proof -
  let ?u = "upd_approvals (\<lambda>p. p_id p = pid \<and> p_status p = P_PENDING) (\<lambda>p. p\<lparr>p_status := P_EXPIRED, p_revision := p_revision p + 1\<rparr>) x"
  have "holds (\<lambda>y. step_ok d y \<and> failable_kept x y) (ebind (appendRunEvent rid e ?u) (failRunForStepTx now rid sid code None))" for e code
  proof (rule holds_bind)
    show "holds (\<lambda>y. step_ok d y \<and> failable_kept x y) (appendRunEvent rid e ?u)"
      using step_ok_appendRunEvent [OF step_ok_others(1) [OF assms(1)]] appendRunEvent_at
      by (auto simp: holds_def failable_kept_def)
    show "holds (\<lambda>y. step_ok d y \<and> failable_kept x y) (failRunForStepTx now rid sid code None y)"
      if "step_ok d y \<and> failable_kept x y" for y
      by (rule holds_mono [OF failRunForStepTx_kept [of d y]]) (use that assms in \<open>auto simp: failable_kept_def\<close>)
  qed
  then show ?thesis using assms(1) unfolding expireApprovalTx_def by simp
qed

text \<open>The law of the sweep, for a state whose due requests belong to steps and runs that can still be
  failed.\<close>

definition due_failable :: "time \<Rightarrow> db \<Rightarrow> bool" where
  "due_failable now d \<longleftrightarrow> (\<forall>(p, s) \<in> set (due_approvals now d). run_failable d (s_run s) \<and> step_failable d (s_id s))"

lemma SweepExpiredApprovals_ok:
  assumes "due_failable now d"
  shows "returns_ok d (SweepExpiredApprovals now d)"
proof -
  let ?I = "\<lambda>(n :: nat, y). step_ok d y \<and> failable_kept d y"
  have "holds ?I (SweepExpiredApprovals now d)"
    unfolding SweepExpiredApprovals_def
  proof (rule holds_efold)
    fix q st assume q: "q \<in> set (due_approvals now d)" and st: "?I st"
    obtain p s where ps: "q = (p, s)" by (cases q)
    obtain n y where y: "st = (n, y)" "step_ok d y" "failable_kept d y" using st by (cases st) simp
    have "run_failable y (s_run s)" "step_failable y (s_id s)"
      using assms q y(3) ps by (auto simp: due_failable_def failable_kept_def)
    note k = expireApprovalTx_kept [OF y(2) this]
    show "holds ?I ((case q of (p, s) \<Rightarrow> \<lambda>(swept, d). ebind (expireApprovalTx now (s_run s) (s_id s) (p_id p) d) (\<lambda>d. Inr (swept + 1, d))) st)"
      unfolding ps y(1) prod.case
      by (rule holds_bind [OF k]) (use y(3) in \<open>auto intro: failable_kept_trans\<close>)
  qed simp
  then show ?thesis unfolding returns_ok_def by (rule holds_mono) auto
qed

lemma validateApprovalOutputTx_kept:
  assumes "step_ok d x" and "inv x \<Longrightarrow> run_failable x rid" and "inv x \<Longrightarrow> step_failable x sid"
  shows "holds (\<lambda>y. step_ok d y \<and> failable_kept x y) (validateApprovalOutputTx c manifests now rid sid node out x)"
  unfolding validateApprovalOutputTx_def using assms
  by (auto split: option.split intro!: failRunForStepTx_kept)

lemma commit_decision_ok:
  assumes i: "inv x" and "run_failable x rid" and "step_failable x sid"
  shows "holds (step_ok x) (commit_decision c manifests format now rid sid node pid req actor x)"
proof -
  have k: "holds (\<lambda>y. step_ok x y \<and> run_failable y rid) (validateApprovalOutputTx c manifests now rid sid node out (upd_approvals P f x))" for out P f
  proof (rule holds_mono [OF validateApprovalOutputTx_kept])
    show "step_ok x (upd_approvals P f x)" by (rule step_ok_others(1)) simp
    show "step_ok x y \<and> run_failable y rid" if "step_ok x y \<and> failable_kept (upd_approvals P f x) y" for y
      using that assms(2) by (simp add: failable_kept_def)
  qed (use assms in simp_all)
  have e: "holds (\<lambda>y. step_ok x y \<and> run_failable y rid) (appendRunEvent rid t y)" if "step_ok x y \<and> run_failable y rid" for y t
    using that step_ok_appendRunEvent appendRunEvent_at(1) by (auto simp: holds_def)
  have s: "step_ok x (upd_steps (\<lambda>s. s_id s = sid \<and> s_state s = S_WAITING) (\<lambda>s. s\<lparr>s_state := S_SUCCEEDED, s_wait := None, s_output := o'\<rparr>) y)
      \<and> run_failable (upd_steps (\<lambda>s. s_id s = sid \<and> s_state s = S_WAITING) (\<lambda>s. s\<lparr>s_state := S_SUCCEEDED, s_wait := None, s_output := o'\<rparr>) y) rid"
    if "step_ok x y \<and> run_failable y rid" for y o'
    using that by (auto simp: step_le_def intro!: step_ok_upd_steps)
  have adv: "holds (step_ok x) (ebind (advanceAfterStepSuccessTx c manifests now rid out (audit t pid y)) (recomputeRunStatusAfterControlTx rid))"
    if "step_ok x y \<and> run_failable y rid" for y out t
    using that by (auto intro!: step_ok_bind [OF advanceAfterStepSuccessTx_ok] recomputeAfterControl_ok step_ok_others)
  show ?thesis
    unfolding commit_decision_def Let_def
    by (auto split: option.split intro!: holds_bind [OF k] holds_bind [OF e] s adv)
qed

text \<open>A decision that commits moves the engine forward; one that is aborted changes nothing.\<close>

definition decided_ok :: "db \<Rightarrow> (ApprovalDTO \<times> db) decision_result tx \<Rightarrow> bool" where
  "decided_ok d t \<longleftrightarrow> holds (\<lambda>r. case r of Decided (_, y) \<Rightarrow> step_ok d y | ExpiredSignal _ _ _ \<Rightarrow> True) t"

lemma decided_ok_simps [simp]: "decided_ok d (Inl e)" "decided_ok d (Inr (ExpiredSignal a b p))"
  by (simp_all add: decided_ok_def)

lemma decideApprovalTx_ok: "decided_ok d (decideApprovalTx c manifests format now pid req actor d)"
proof (cases "inv d")
  case False
  then show ?thesis by (auto simp: decided_ok_def holds_def step_ok_trivial split: decision_result.split)
next
  case True
  have q: "decided_ok d (ebind (queryApprovalDTO y pid) (\<lambda>dto. Inr (Decided (dto, y))))" if "step_ok d y" for y
    using that by (cases "queryApprovalDTO y pid") (auto simp: decided_ok_def)
  have c: "decided_ok d (ebind (commit_decision c manifests format now (s_run s) (s_id s) (s_node s) pid req actor d)
      (\<lambda>d. ebind (queryApprovalDTO d pid) (\<lambda>dto. Inr (Decided (dto, d)))))"
    if "find_run d (s_run s) = Some r" "\<not> run_terminal (r_status r)" "find_step d sid = Some s" "s_state s = S_WAITING" for s r sid
  proof -
    have r: "run_failable d (s_run s)" by (rule run_failable_find [OF True that(1)]) (use that(2) in auto)
    have s: "step_failable d (s_id s)" using find_step_at [OF True that(3)] that(4) find_step_id [OF that(3)] by simp
    show ?thesis
      unfolding decided_ok_def
      by (rule holds_bind [OF commit_decision_ok [OF True r s]]) (erule q [unfolded decided_ok_def])
  qed
  show ?thesis
    unfolding decideApprovalTx_def by (auto split: option.split intro!: q c)
qed

section \<open>Requests are never rewritten by an evaluation\<close>

definition approvals_grow :: "db \<Rightarrow> db \<Rightarrow> bool" where
  "approvals_grow d d' \<longleftrightarrow> (\<exists>new. db_approvals d' = db_approvals d @ new)"

lemma approvals_grow_refl [simp]: "db_approvals d' = db_approvals d \<Longrightarrow> approvals_grow d d'"
  by (simp add: approvals_grow_def)

lemma approvals_grow_trans: "approvals_grow a b \<Longrightarrow> approvals_grow b c \<Longrightarrow> approvals_grow a c"
  by (auto simp: approvals_grow_def)

lemma approvals_grow_find: "approvals_grow d d' \<Longrightarrow> find_approval d pid = Some p \<Longrightarrow> find_approval d' pid = Some p"
  by (auto simp: approvals_grow_def find_approval_def find_append_old)

lemma appendRunEvent_approvals: "appendRunEvent rid t d = Inr d' \<Longrightarrow> db_approvals d' = db_approvals d"
  by (rule appendRunEventD(7))

lemma recompute_approvals: "recomputeRunStatusAfterControlTx rid d = Inr d' \<Longrightarrow> db_approvals d' = db_approvals d"
  by (cases "find_run d rid") (auto simp: recomputeRunStatusAfterControlTx_def Let_def split: if_splits)

lemma scheduleDelayTx_approvals: "scheduleDelayTx now rid sid ms d = Inr (due, b, d') \<Longrightarrow> db_approvals d' = db_approvals d"
  unfolding scheduleDelayTx_def insert_timer_def Let_def
  by (auto split: option.splits prod.splits if_splits simp: recomputeRunStatusForDelayTx_def)

lemma settleRunTerminalTx_approvals:
  "settleRunTerminalTx c rid w states os input dflt d = Inr (b, d') \<Longrightarrow> db_approvals d' = db_approvals d"
  unfolding settleRunTerminalTx_def fail_output_def terminalize_def Let_def
  by (auto split: if_splits sum.splits simp: appendRunEvent_approvals)

interpretation approvals_law: advancement_law approvals_grow now rid UNIV for now rid
proof unfold_locales
  fix d d' sid p assume "park_approval rid sid p d = Inr d'"
  then show "approvals_grow d d'"
    by (auto simp: park_approval_def Let_def approvals_grow_def dest!: recompute_approvals appendRunEvent_approvals split: if_splits)
qed (auto intro: approvals_grow_trans dest: failRunForStepTxD(6) appendRunEvent_approvals scheduleDelayTx_approvals settleRunTerminalTx_approvals)

lemmas advanceAfterStepSuccessTx_grow = approvals_law.advancement [OF subset_UNIV]

section \<open>Properties\<close>

lemma validateApprovalOutputTx_approvals:
  "validateApprovalOutputTx c manifests now rid sid node out d = Inr d' \<Longrightarrow> db_approvals d' = db_approvals d"
  unfolding validateApprovalOutputTx_def
  by (auto simp: failRunForStepTxD(6) split: option.splits if_splits)

definition decided_row :: "time \<Rightarrow> DecideApprovalRequest \<Rightarrow> string \<Rightarrow> approval_row \<Rightarrow> approval_row" where
  "decided_row now req actor p = p\<lparr>p_status := (if dr_Decision req = ''rejected'' then P_REJECTED else P_APPROVED), p_decided := Some now,
     p_comment := Some (dr_Comment req), p_actor := Some actor, p_revision := p_revision p + 1\<rparr>"

lemma commit_decision_approval:
  assumes "commit_decision c manifests format now rid sid node pid req actor d = Inr d'" and "find_approval d pid = Some p"
    and "p_status p = P_PENDING"
  shows "find_approval d' pid = Some (decided_row now req actor p)"
proof -
  let ?u = "upd_approvals (\<lambda>p. p_id p = pid \<and> p_status p = P_PENDING) (decided_row now req actor) d"
  let ?out = "decision_output format (dr_Decision req) actor (dr_Comment req) now"
  have "find_approval ?u pid = Some (decided_row now req actor p)"
    using assms(2,3) find_Some_set [of "\<lambda>p. p_id p = pid" "db_approvals d" p]
    by (simp add: find_approval_def find_upd decided_row_def)
  moreover have "approvals_grow ?u d'"
  proof -
    obtain x y z w where x: "validateApprovalOutputTx c manifests now rid sid node ?out ?u = Inr x"
      and y: "appendRunEvent rid ''APPROVAL_DECIDED'' (upd_steps (\<lambda>s. s_id s = sid \<and> s_state s = S_WAITING)
                    (\<lambda>s. s\<lparr>s_state := S_SUCCEEDED, s_wait := None, s_output := Some ?out\<rparr>) x) = Inr y"
      and z: "appendRunEvent rid ''STEP_SUCCEEDED'' y = Inr z"
      and w: "advanceAfterStepSuccessTx c manifests now rid ?out (audit ''approval.decide'' pid z) = Inr w"
      and d': "recomputeRunStatusAfterControlTx rid w = Inr d'"
      using assms(1) unfolding commit_decision_def Let_def decided_row_def
      by (auto dest!: holds_ebindD split: option.splits)
    have "approvals_grow (audit ''approval.decide'' pid z) w" using advanceAfterStepSuccessTx_grow w unfolding holds_def by blast
    then show ?thesis
      using validateApprovalOutputTx_approvals [OF x] appendRunEvent_approvals [OF y] appendRunEvent_approvals [OF z] recompute_approvals [OF d']
      by (simp add: approvals_grow_def)
  qed
  ultimately show ?thesis by (rule approvals_grow_find [rotated])
qed

text \<open>C7: a request is decided once.  A decision that commits on a pending request was made before the
  request expired and against its current revision, and it is recorded with its actor, time and
  comment at the next revision.  From then on no decision changes the state again: a contradicting
  one is refused, and a repeated one is answered from the record.\<close>

theorem decideApprovalTx_once:
  assumes "decideApprovalTx c manifests format now approvalID req actor d = Inr (Decided (dto, d'))"
    and "find_approval d approvalID = Some p" and "p_status p = P_PENDING" and "dr_Decision req \<in> {''approved'', ''rejected''}"
  shows "(\<forall>t. p_expires p = Some t \<longrightarrow> now < t) \<and> dr_ExpectedRevision req = p_revision p \<and>
    find_approval d' approvalID = Some (decided_row now req actor p) \<and>
    (case decideApprovalTx c' manifests' format' now' approvalID req' actor' d' of
       Inl _ \<Rightarrow> True
     | Inr (Decided (_, d'')) \<Rightarrow> d'' = d' \<and> (dr_Decision req' = ''approved'') = (dr_Decision req = ''approved'')
     | Inr (ExpiredSignal _ _ _) \<Rightarrow> False)"
proof -
  obtain s where s: "find_step d (p_step p) = Some s"
    using assms(1,2) by (cases "find_step d (p_step p)") (simp_all add: decideApprovalTx_def)
  obtain r where r: "find_run d (s_run s) = Some r"
    using assms(1,2) s by (cases "find_run d (s_run s)") (simp_all add: decideApprovalTx_def)
  have e: "\<not> approvalExpiredNowTx now (p_expires p)" and v: "dr_ExpectedRevision req = p_revision p"
    using assms(1-3) s r by (auto simp: decideApprovalTx_def split: if_splits)
  have "commit_decision c manifests format now (s_run s) (s_id s) (s_node s) approvalID req actor d = Inr d'"
    using assms(1-3) s r e v by (auto simp: decideApprovalTx_def split: if_splits dest!: holds_ebindD)
  note p' = commit_decision_approval [OF this assms(2,3)]
  have status: "p_status (decided_row now req actor p) = (if dr_Decision req = ''rejected'' then P_REJECTED else P_APPROVED)"
    by (simp add: decided_row_def)
  have "case decideApprovalTx c' manifests' format' now' approvalID req' actor' d' of
       Inl _ \<Rightarrow> True
     | Inr (Decided (_, d'')) \<Rightarrow> d'' = d' \<and> (dr_Decision req' = ''approved'') = (dr_Decision req = ''approved'')
     | Inr (ExpiredSignal _ _ _) \<Rightarrow> False"
  proof (cases "dr_Decision req = ''rejected''")
    case True
    then show ?thesis using p' status
      by (cases "queryApprovalDTO d' approvalID") (auto simp: decideApprovalTx_def split: option.split)
  next
    case False
    then show ?thesis using p' status assms(4)
      by (cases "queryApprovalDTO d' approvalID") (auto simp: decideApprovalTx_def split: option.split)
  qed
  then show ?thesis using e v p' by (auto simp: approvalExpiredNowTx_def)
qed

text \<open>The sample run, waiting for a decision; the node declares no schema for it.\<close>

definition sample_approval :: approval_row where
  "sample_approval = \<lparr> p_id = 45, p_step = 13, p_payload = JObj [], p_status = P_PENDING, p_expires = Some 5000, p_decided = None,
     p_comment = None, p_actor = None, p_revision = 1 \<rparr>"

definition sample_waiting :: db where
  "sample_waiting = sample_dag_db\<lparr>db_steps := map (\<lambda>s. if s_id s = 13 then s\<lparr>s_state := S_WAITING, s_wait := Some ''APPROVAL''\<rparr> else s) (db_steps sample_dag_db),
     db_approvals := [sample_approval]\<rparr>"

definition sample_request :: DecideApprovalRequest where
  "sample_request = \<lparr> dr_Decision = ''approved'', dr_ExpectedRevision = 1, dr_Comment = [] \<rparr>"

theorem decideApprovalTx_once_witness:
  "\<exists>dto d' p'. decideApprovalTx sample_externals sample_manifests (\<lambda>_. []) 1000 45 sample_request ''u'' sample_waiting = Inr (Decided (dto, d')) \<and>
     find_approval d' 45 = Some p' \<and> p_status p' = P_APPROVED"
proof -
  have c: "case decideApprovalTx sample_externals sample_manifests (\<lambda>_. []) 1000 45 sample_request ''u'' sample_waiting of
      Inr (Decided _) \<Rightarrow> True | _ \<Rightarrow> False"
    "find_approval sample_waiting 45 = Some sample_approval" "p_status sample_approval = P_PENDING"
    "dr_Decision sample_request \<in> {''approved'', ''rejected''}" by code_simp+
  obtain dto d' where d': "decideApprovalTx sample_externals sample_manifests (\<lambda>_. []) 1000 45 sample_request ''u'' sample_waiting =
      Inr (Decided (dto, d'))" using c(1) by (auto split: sum.splits decision_result.splits)
  show ?thesis
    using decideApprovalTx_once [OF d' c(2-4)] d' by (auto simp: decided_row_def sample_request_def)
qed

section \<open>Where the settlement of approvals falls short\<close>

text \<open>A decision output that the node's schema rejects, and the same run failed by another step while the
  request is still pending.\<close>

definition strict_externals :: externals where
  "strict_externals = sample_externals\<lparr>schema_compile := (\<lambda>_. Some (\<lambda>_. False))\<rparr>"

definition strict_node :: workflowNode where
  "strict_node = (sample_wn ''y'' ''approval'' [''c''])\<lparr>wn_Approval :=
     Some \<lparr> ap_Payload = JNull, ap_OutputSchema = JBool False, ap_RequiredPermission = [], ap_ExpiresInMs = 0 \<rparr>\<rparr>"

definition strict_manifests :: manifests where
  "strict_manifests i = Some (sample_dm\<lparr>dm_Workflows := [sample_tail\<lparr>wm_Nodes := wm_Nodes sample_tail @ [strict_node]\<rparr>]\<rparr>)"

definition event_types :: "db \<Rightarrow> string list" where
  "event_types d = map v_type (db_events d)"


text \<open>C35: the expiry of a request does not look at the run.  When it takes effect on a run that has failed
  already, it fails the run again: the reason of the first failure is replaced, a further RUN_FAILED
  event follows the terminal one, and the step that was cancelled with the run becomes FAILED.\<close>

theorem expireApprovalTx_refails:
  assumes "expireApprovalTx now runID stepID approvalID d = Inr d'" and "p \<in> set (db_approvals d)" and "p_id p = approvalID"
    and "p_status p = P_PENDING" and "find_run d runID = Some r" and "r_status r = R_FAILED" and "find_step d stepID = Some s"
  shows "(\<exists>r'. find_run d' runID = Some r' \<and> r_status r' = R_FAILED \<and> r_reason r' = Some ''APPROVAL_EXPIRED'') \<and>
    (\<exists>n es. db_events d' = es @ [\<lparr> v_run = runID, v_seq = n, v_type = ''RUN_FAILED'' \<rparr>]) \<and>
    (\<exists>s'. find_step d' stepID = Some s' \<and> s_state s' = S_FAILED)"
proof -
  let ?u = "upd_approvals (\<lambda>p. p_id p = approvalID \<and> p_status p = P_PENDING) (\<lambda>p. p\<lparr>p_status := P_EXPIRED, p_revision := p_revision p + 1\<rparr>) d"
  obtain x where x: "appendRunEvent runID ''APPROVAL_EXPIRED'' ?u = Inr x"
    and f: "failRunForStepTx now runID stepID ''APPROVAL_EXPIRED'' None x = Inr d'"
    using assms(1-4) unfolding expireApprovalTx_def by (auto dest!: holds_ebindD split: if_splits)
  have s: "find_step x stepID = Some s" using assms(7) find_step_append [OF x] by simp
  have "\<exists>s'. find_step d' stepID = Some s' \<and> s_state s' = S_FAILED"
    using s find_step_id [OF s] unfolding find_step_def failRunForStepTxD(1) [OF f] by (simp add: find_upd)
  then show ?thesis using failRunForStepTx_run [OF f] by blast
qed

definition sample_failed :: db where
  "sample_failed = (case failRunForStepTx 1000 1 12 ''TASK_FAILED'' None sample_waiting of Inl _ \<Rightarrow> sample_waiting | Inr d \<Rightarrow> d)"

theorem expireApprovalTx_refails_witness:
  "\<exists>d' r r'. find_run sample_failed 1 = Some r \<and> r_reason r = Some ''TASK_FAILED'' \<and>
     expireApprovalTx 6000 1 13 45 sample_failed = Inr d' \<and> find_run d' 1 = Some r' \<and> r_reason r' = Some ''APPROVAL_EXPIRED''"
proof -
  have c: "case expireApprovalTx 6000 1 13 45 sample_failed of Inl _ \<Rightarrow> False | Inr _ \<Rightarrow> True"
    "case find_run sample_failed 1 of None \<Rightarrow> False | Some r \<Rightarrow> r_status r = R_FAILED \<and> r_reason r = Some ''TASK_FAILED''"
    "case find_step sample_failed 13 of None \<Rightarrow> False | Some s \<Rightarrow> True" "db_approvals sample_failed = [sample_approval]" by code_simp+
  obtain d' r s where d': "expireApprovalTx 6000 1 13 45 sample_failed = Inr d'" "find_run sample_failed 1 = Some r" "r_status r = R_FAILED"
    "r_reason r = Some ''TASK_FAILED''" "find_step sample_failed 13 = Some s"
    using c(1-3) by (auto split: sum.splits option.splits)
  have p: "sample_approval \<in> set (db_approvals sample_failed)" "p_id sample_approval = 45" "p_status sample_approval = P_PENDING"
    by (simp_all add: c(4) sample_approval_def)
  show ?thesis using expireApprovalTx_refails [OF d'(1) p d'(2,3,5)] d' by blast
qed

end
