(* ===== verification/Reconciliation.thy ===== *)
theory Reconciliation
  imports Approvals
begin

text \<open>
  Human resolution of held steps (\<open>internal/execution/reconcile.go\<close>): a step whose outcome is unknown
  waits with an open case until an identified person confirms the success, allows another attempt
  within the budget, or fails the run.  The run leaves the hold with its last open case.  The jitter
  of a retry is drawn by \<open>math/rand\<close> and is a parameter.
\<close>

section \<open>Requests\<close>

definition maxDecisionReasonRunes :: nat where "maxDecisionReasonRunes = 280"

definition ResolveActionSucceed :: string where "ResolveActionSucceed = ''confirm_succeeded''"

definition ResolveActionRetry :: string where "ResolveActionRetry = ''confirm_not_executed_retry''"

definition ResolveActionFail :: string where "ResolveActionFail = ''fail_run''"

definition CaseResolutionSucceed :: string where "CaseResolutionSucceed = ''SUCCEED''"

definition CaseResolutionRetry :: string where "CaseResolutionRetry = ''RETRY''"

definition CaseResolutionFail :: string where "CaseResolutionFail = ''FAIL''"

record ResolveReconciliationRequest =
  rq_Action :: string
  rq_Evidence :: string
  rq_Reason :: string
  rq_Result :: json
  rq_ExpectedRevision :: int

record ResolveReconciliationResponse =
  rs_CaseID :: uid
  rs_Resolved :: bool
  rs_Revision :: int

text \<open>\<open>utf8.RuneCountInString\<close>: the size of the encoding a byte string starts with; a byte that starts no
  valid encoding counts as one rune of its own.\<close>

definition cont :: "nat \<Rightarrow> bool" where
  "cont b \<longleftrightarrow> 0x80 \<le> b \<and> b \<le> 0xBF"

definition second_ok :: "nat \<Rightarrow> nat \<Rightarrow> bool" where
  "second_ok b0 b1 \<longleftrightarrow>
     (if b0 = 0xE0 then 0xA0 else if b0 = 0xF0 then 0x90 else 0x80) \<le> b1 \<and>
     b1 \<le> (if b0 = 0xED then 0x9F else if b0 = 0xF4 then 0x8F else 0xBF)"

definition rune_size :: "nat list \<Rightarrow> nat" where
  "rune_size bs =
     (case bs of
        b0 # b1 # rest \<Rightarrow>
          if 0xC2 \<le> b0 \<and> b0 \<le> 0xDF \<and> cont b1 then 2
          else if 0xE0 \<le> b0 \<and> b0 \<le> 0xEF \<and> second_ok b0 b1 then
            (case rest of b2 # _ \<Rightarrow> if cont b2 then 3 else 1 | [] \<Rightarrow> 1)
          else if 0xF0 \<le> b0 \<and> b0 \<le> 0xF4 \<and> second_ok b0 b1 then
            (case rest of b2 # b3 # _ \<Rightarrow> if cont b2 \<and> cont b3 then 4 else 1 | _ \<Rightarrow> 1)
          else 1
      | _ \<Rightarrow> 1)"

lemma rune_size_pos: "0 < rune_size bs"
  by (auto simp: rune_size_def split: list.split)

function rune_count :: "nat list \<Rightarrow> nat" where
  "rune_count bs = (if bs = [] then 0 else 1 + rune_count (drop (rune_size bs) bs))"
  by pat_completeness auto
termination
  by (relation "measure length") (auto simp: rune_size_pos)

declare rune_count.simps [simp del]

definition RuneCountInString :: "string \<Rightarrow> nat" where
  "RuneCountInString s = rune_count (map of_char s)"

section \<open>The three decisions\<close>

definition find_case :: "db \<Rightarrow> uid \<Rightarrow> case_row option" where
  "find_case d cid = List.find (\<lambda>c. c_id c = cid) (db_cases d)"

definition markCaseResolvedTx :: "case_row \<Rightarrow> string \<Rightarrow> AuditContext \<Rightarrow> db \<Rightarrow> db tx" where
  "markCaseResolvedTx row resolution a d =
     (if \<not> (\<exists>c \<in> set (db_cases d). c_id c = c_id row \<and> c_status c = C_OPEN) then Inl ErrCaseResolved
      else Inr (upd_cases (\<lambda>c. c_id c = c_id row \<and> c_status c = C_OPEN)
             (\<lambda>c. c\<lparr>c_status := C_RESOLVED, c_resolution := Some resolution, c_actor := audit_actor a,
                    c_revision := c_revision c + 1\<rparr>) d))"

definition appendCaseAuditTx :: "case_row \<Rightarrow> db \<Rightarrow> db" where
  "appendCaseAuditTx row = audit ''reconciliation.resolve'' (c_id row)"

definition held :: "uid \<Rightarrow> step_row \<Rightarrow> bool" where
  "held stepID s \<longleftrightarrow> s_id s = stepID \<and> s_state s = S_WAITING \<and> s_wait s = Some ''RECONCILIATION''"

definition resolveCaseSucceedTx ::
    "externals \<Rightarrow> uid \<Rightarrow> case_row \<Rightarrow> string \<Rightarrow> deploymentManifest \<Rightarrow> string \<Rightarrow> ResolveReconciliationRequest \<Rightarrow> AuditContext \<Rightarrow> db \<Rightarrow> db tx" where
  "resolveCaseSucceedTx c runID row nodeID manifest workflowName req a d =
     (let outputSchema = snd (taskSchemas manifest workflowName nodeID) in
      if outputSchema \<noteq> JNull \<and> ValidatePayload c outputSchema (rq_Result req) \<noteq> Inr () then Inl ErrResultSchema
      else (case CanonicalizeGeneric c (rq_Result req) of
              Inl _ \<Rightarrow> Inl ErrResultTooLarge
            | Inr canonicalResult \<Rightarrow>
                if int (length canonicalResult) > MaxInlinePayloadBytes then Inl ErrResultTooLarge
                else
                  ebind (markCaseResolvedTx row CaseResolutionSucceed a
                      (upd_steps (held (c_step row))
                         (\<lambda>s. s\<lparr>s_state := S_SUCCEEDED, s_output := Some (rq_Result req), s_wait := None,
                                s_source := Some ''RECONCILIATION''\<rparr>) d)) (\<lambda>d.
                  ebind (appendRunEvent runID ''STEP_SUCCEEDED'' d) (\<lambda>d. Inr (appendCaseAuditTx row d)))))"

text \<open>The admission of another attempt of an idempotent task.\<close>

definition resolve_window :: "time \<Rightarrow> uid \<Rightarrow> RetryPolicy \<Rightarrow> time option \<Rightarrow> db \<Rightarrow> db tx" where
  "resolve_window now stepID policy validUntil d =
     (if \<not> is_idempotent policy then Inr d
      else (case IdempotencyWindowMs policy of
              None \<Rightarrow> Inl ErrWindowInsufficient
            | Some windowMs \<Rightarrow>
                ebind (case validUntil of None \<Rightarrow> deriveIdempotencyDeadlineTx stepID windowMs d | Some v \<Rightarrow> Inr (Some v, d))
                  (\<lambda>(v, d). case v of
                     None \<Rightarrow> Inl ErrWindowInsufficient
                   | Some v \<Rightarrow> if InsufficientIdempotencyWindow now v (TimeoutMs policy) then Inl ErrWindowInsufficient else Inr d)))"

definition resolveCaseRetryTx ::
    "rat \<Rightarrow> uid \<Rightarrow> case_row \<Rightarrow> RetryPolicy \<Rightarrow> AuditContext \<Rightarrow> time \<Rightarrow> time option \<Rightarrow> db \<Rightarrow> db tx" where
  "resolveCaseRetryTx jitter runID row policy a dbNow runDeadline d =
     ebind (get_step d (c_step row)) (\<lambda>s.
       if s_state s \<noteq> S_WAITING \<or> text_or_empty (s_wait s) \<noteq> ''RECONCILIATION'' then Inl ErrCaseResolved
       else if \<not> HasRetryBudget (s_next_attempt s) (MaxAttempts policy) then Inl ErrBudgetExhausted
       else ebind (resolve_window dbNow (c_step row) policy (s_valid_until s) d) (\<lambda>d.
         let failedAttemptNumber = max (s_next_attempt s - 1) 1;
             delayMs = ComputeRetryDelayMs failedAttemptNumber (InitialDelayMs policy) (MaxDelayMs policy) jitter None;
             dueAt = dbNow + ms_duration delayMs
         in if InsufficientRunDeadline dueAt (TimeoutMs policy) runDeadline then Inl ErrRunDeadlineExceeded
            else ebind (get_run d runID) (\<lambda>_.
              let (_, _, d) = insert_timer ''RETRY_BACKOFF'' runID (c_step row) (Some (s_next_attempt s)) ''RECONCILIATION_RETRY'' dueAt d;
                  d = upd_steps (held (c_step row))
                        (\<lambda>s. s\<lparr>s_state := S_WAITING, s_wait := Some ''RETRY_BACKOFF'', s_eligible := Some dueAt\<rparr>) d
              in ebind (markCaseResolvedTx row CaseResolutionRetry a d) (\<lambda>d.
                 ebind (appendRunEvent runID ''STEP_WAITING'' d) (\<lambda>d.
                 ebind (appendRunEvent runID ''CASE_RESOLVED'' d) (\<lambda>d. Inr (appendCaseAuditTx row d)))))))"

definition resolveCaseFailTx :: "time \<Rightarrow> uid \<Rightarrow> case_row \<Rightarrow> AuditContext \<Rightarrow> db \<Rightarrow> db tx" where
  "resolveCaseFailTx now runID row a d =
     ebind (markCaseResolvedTx row CaseResolutionFail a d) (\<lambda>d.
     ebind (closeOpenCasesTx runID (audit_actor a) CaseResolutionFail d) (\<lambda>d.
     ebind (failRunForStepTx now runID (c_step row) ''RECONCILIATION_FAILED'' (audit_actor a) d) (\<lambda>d.
     ebind (appendRunEvent runID ''CASE_RESOLVED'' d) (\<lambda>d. Inr (appendCaseAuditTx row d)))))"

section \<open>The hold\<close>

definition releaseHoldTx :: "uid \<Rightarrow> string \<Rightarrow> db \<Rightarrow> db tx" where
  "releaseHoldTx runID action d =
     ebind (get_run d runID) (\<lambda>r.
       if r_status r \<noteq> R_WAITING \<or> text_or_empty (r_reason r) \<noteq> ''RECONCILIATION'' then Inr d
       else
         (let hasStarted = (\<exists>x \<in> set (db_attempts d). a_step x \<in> set (step_ids d runID) \<and> a_started x \<noteq> None);
              target = (if hasStarted then R_RUNNING else R_QUEUED)
          in if action = ResolveActionRetry
             then appendRunEvent runID ''RUN_RESUMED''
               (upd_runs (\<lambda>q. r_id q = runID) (\<lambda>q. q\<lparr>r_status := R_WAITING, r_reason := Some ''RETRY_BACKOFF''\<rparr>) d)
             else appendRunEvent runID ''RUN_RESUMED''
               (upd_runs (\<lambda>q. r_id q = runID) (\<lambda>q. q\<lparr>r_status := target, r_reason := None\<rparr>) d)))"

definition settleHoldAfterCompletionTx :: "uid \<Rightarrow> db \<Rightarrow> db tx" where
  "settleHoldAfterCompletionTx runID d =
     ebind (get_run d runID) (\<lambda>r.
       if r_status r \<in> {R_SUCCEEDED, R_FAILED, R_CANCELLED, R_CANCELLING, R_PAUSING, R_PAUSED} then Inr d
       else if r_status r = R_WAITING \<and> text_or_empty (r_reason r) = ''RECONCILIATION'' then Inr d
       else if open_cases d runID = [] then Inr d
       else if live_attempts d runID \<noteq> [] then Inr d
       else appendRunEvent runID ''RUN_WAITING''
              (upd_runs (\<lambda>q. r_id q = runID) (\<lambda>q. q\<lparr>r_status := R_WAITING, r_reason := Some ''RECONCILIATION''\<rparr>) d))"

section \<open>The transaction\<close>

definition apply_action ::
    "externals \<Rightarrow> rat \<Rightarrow> time \<Rightarrow> run_row \<Rightarrow> step_row \<Rightarrow> case_row \<Rightarrow> deploymentManifest \<Rightarrow> ResolveReconciliationRequest \<Rightarrow> AuditContext \<Rightarrow> db \<Rightarrow> db tx" where
  "apply_action c jitter now r s row m req a d =
     (let action = TrimSpace (rq_Action req) in
      if action = ResolveActionSucceed then resolveCaseSucceedTx c (r_id r) row (s_node s) m (r_workflow r) req a d
      else if action = ResolveActionRetry
      then resolveCaseRetryTx jitter (r_id r) row (taskRetryPolicy m (r_workflow r) (s_node s)) a now (r_deadline r) d
      else resolveCaseFailTx now (r_id r) row a d)"

definition resolveReconciliationCaseTx ::
    "externals \<Rightarrow> manifests \<Rightarrow> rat \<Rightarrow> time \<Rightarrow> uid \<Rightarrow> ResolveReconciliationRequest \<Rightarrow> AuditContext \<Rightarrow> db \<Rightarrow> (ResolveReconciliationResponse \<times> db) tx" where
  "resolveReconciliationCaseTx c manifests jitter now caseID req a d =
     (case find_case d caseID of
        None \<Rightarrow> Inl ErrCaseNotFound
      | Some row \<Rightarrow>
          ebind (get_step d (c_step row)) (\<lambda>s.
          ebind (get_run d (s_run s)) (\<lambda>r.
            if c_status row \<noteq> C_OPEN then Inl ErrCaseResolved
            else if c_revision row \<noteq> rq_ExpectedRevision req then Inl ErrRevisionConflict
            else if run_terminal (r_status r) then Inl ErrRunTerminal
            else if past_deadline now (r_deadline r) then Inl ErrRunDeadlineExceeded
            else
              (case manifests (r_deployment r) of
                 None \<Rightarrow> Inl (EngineError ''decode manifest'')
               | Some m \<Rightarrow>
                   if \<not> IsValidRecoveryPolicy (Recovery (taskRetryPolicy m (r_workflow r) (s_node s))) then Inl ErrInvalidRecovery
                   else
                     ebind (apply_action c jitter now r s row m req a d) (\<lambda>d.
                     ebind (if open_cases d (r_id r) = []
                            then ebind (if TrimSpace (rq_Action req) = ResolveActionSucceed
                                        then advanceAfterStepSuccessTx c manifests now (r_id r) (rq_Result req) d else Inr d)
                                   (releaseHoldTx (r_id r) (TrimSpace (rq_Action req)))
                            else Inr d) (\<lambda>d.
                       case find_case d caseID of
                         None \<Rightarrow> Inl ErrNoRows
                       | Some row \<Rightarrow> Inr (\<lparr> rs_CaseID = caseID, rs_Resolved = True, rs_Revision = c_revision row \<rparr>, d)))))))"

section \<open>The command\<close>

record resolve_codec =
  encode_resolve :: "ResolveReconciliationResponse \<Rightarrow> string option"
  decode_resolve :: "string \<Rightarrow> ResolveReconciliationResponse option"

definition check_resolve :: "ResolveReconciliationRequest \<Rightarrow> AuditContext option \<Rightarrow> engine_error + AuditContext" where
  "check_resolve req au =
     (case au of
        None \<Rightarrow> Inl ErrAuditRequired
      | Some a \<Rightarrow>
          (let action = TrimSpace (rq_Action req) in
           if ac_ActorType a = MACHINE then Inl ErrMachineForbidden
           else if audit_actor a = None then Inl ErrAuditRequired
           else if action \<noteq> ResolveActionSucceed \<and> action \<noteq> ResolveActionRetry \<and> action \<noteq> ResolveActionFail then Inl ErrInvalidAction
           else if TrimSpace (rq_Evidence req) = [] then Inl ErrMissingEvidence
           else if TrimSpace (rq_Reason req) = [] then Inl ErrMissingReason
           else if RuneCountInString (rq_Reason req) > maxDecisionReasonRunes then Inl ErrReasonTooLong
           else if action = ResolveActionSucceed \<and> rq_Result req = JNull then Inl ErrMissingResult
           else Inr a))"

definition ResolveReconciliationCase ::
    "externals \<Rightarrow> manifests \<Rightarrow> resolve_codec \<Rightarrow> bool \<Rightarrow> Command option \<Rightarrow> rat \<Rightarrow> time \<Rightarrow> uid \<Rightarrow> ResolveReconciliationRequest \<Rightarrow>
     AuditContext option \<Rightarrow> engine_state \<Rightarrow> engine_error command_error + (ResolveReconciliationResponse \<times> engine_state)" where
  "ResolveReconciliationCase c manifests k commands ctx jitter now caseID req au st =
     (case check_resolve req au of
        Inl e \<Rightarrow> Inl (MutationError e)
      | Inr a \<Rightarrow>
          (let mutate = resolveReconciliationCaseTx c manifests jitter now caseID req a in
           if commands
           then map_sum id snd (withCommandTx (encode_resolve k) (decode_resolve k) ctx [] 200 mutate st)
           else (case mutate (snd st) of Inl e \<Rightarrow> Inl (MutationError e) | Inr (resp, d) \<Rightarrow> Inr (resp, fst st, d))))"

section \<open>The engine's invariant\<close>

lemma markCaseResolvedTx_ok: "step_ok d x \<Longrightarrow> holds (step_ok d) (markCaseResolvedTx row res a x)"
  unfolding markCaseResolvedTx_def by (auto intro!: step_ok_upd_cases simp: case_le_def)

lemma markCaseResolvedTxD:
  assumes "markCaseResolvedTx row res a d = Inr d'"
  shows "d' = upd_cases (\<lambda>c. c_id c = c_id row \<and> c_status c = C_OPEN)
             (\<lambda>c. c\<lparr>c_status := C_RESOLVED, c_resolution := Some res, c_actor := audit_actor a, c_revision := c_revision c + 1\<rparr>) d"
  using assms by (simp add: markCaseResolvedTx_def split: if_splits)

lemma resolveCaseSucceedTx_ok: "step_ok d x \<Longrightarrow> holds (step_ok d) (resolveCaseSucceedTx c rid row node m w req a x)"
  unfolding resolveCaseSucceedTx_def Let_def appendCaseAuditTx_def
  by (auto split: sum.split simp: held_def step_le_def
      intro!: step_ok_bind [OF markCaseResolvedTx_ok] step_ok_bind [OF step_ok_appendRunEvent] step_ok_upd_steps step_ok_others(4))

lemma resolve_window_ok: "step_ok d x \<Longrightarrow> holds (step_ok d) (resolve_window now sid policy v x)"
  unfolding resolve_window_def
  by (auto split: option.split intro!: step_ok_bind2 [OF deriveIdempotencyDeadlineTx_ok])

lemma resolveCaseRetryTx_ok: "step_ok d x \<Longrightarrow> holds (step_ok d) (resolveCaseRetryTx jitter rid row policy a now deadline x)"
proof -
  have *: "step_ok d z" if "step_ok d y" "insert_timer kind rid sid num reason due y = (due', b, z)" for y z kind sid num reason due due' b
    using insert_timer_ok [OF that(1)] that(2) by (metis snd_conv)
  assume "step_ok d x"
  then show ?thesis
    unfolding resolveCaseRetryTx_def Let_def appendCaseAuditTx_def
    by (auto split: option.split prod.split simp: held_def step_le_def
        intro!: step_ok_bind [OF resolve_window_ok] step_ok_bind [OF markCaseResolvedTx_ok] step_ok_bind [OF step_ok_appendRunEvent]
          step_ok_upd_steps step_ok_others(4) elim: *)
qed

lemma releaseHoldTx_ok: "step_ok d x \<Longrightarrow> holds (step_ok d) (releaseHoldTx rid action x)"
proof (rule holds_step_okI)
  assume i: "inv x"
  have "run_open x rid" if "find_run x rid = Some r" "r_status r = R_WAITING" for r
    using find_run_at [OF i that(1)] that(2) by simp
  then show "holds (step_ok x) (releaseHoldTx rid action x)"
    unfolding releaseHoldTx_def Let_def
    by (auto split: option.split intro!: step_ok_appendRunEvent open_run_update_ok simp: run_le_def)
qed

lemma settleHoldAfterCompletionTx_ok: "step_ok d x \<Longrightarrow> holds (step_ok d) (settleHoldAfterCompletionTx rid x)"
proof (rule holds_step_okI)
  assume i: "inv x"
  have "run_open x rid" if "find_run x rid = Some r" "\<not> run_terminal (r_status r)" for r
    using find_run_at [OF i that(1)] that(2) by simp
  then show "holds (step_ok x) (settleHoldAfterCompletionTx rid x)"
    unfolding settleHoldAfterCompletionTx_def
    by (auto split: option.split intro!: step_ok_appendRunEvent open_run_update_ok simp: run_le_def run_terminal_def)
qed

text \<open>A decision to fail relies on the case: its step has not succeeded while the case is open.\<close>

definition cases_failable :: "db \<Rightarrow> bool" where
  "cases_failable d \<longleftrightarrow> (\<forall>c \<in> set (db_cases d). c_status c = C_OPEN \<longrightarrow> step_failable d (c_step c))"

lemma resolveCaseFailTx_ok:
  assumes "run_failable d rid" and "step_failable d (c_step row)"
  shows "holds (step_ok d) (resolveCaseFailTx now rid row a d)"
proof -
  have m: "holds (\<lambda>x. step_ok d x \<and> run_failable x rid \<and> step_failable x (c_step row)) (markCaseResolvedTx row res a d)" for res
    using markCaseResolvedTx_ok [OF step_ok_refl] assms by (auto simp: holds_def dest!: markCaseResolvedTxD)
  have c: "holds (\<lambda>x. step_ok d x \<and> run_failable x rid \<and> step_failable x (c_step row)) (closeOpenCasesTx rid actor res x)"
    if "step_ok d x \<and> run_failable x rid \<and> step_failable x (c_step row)" for x actor res
    using step_ok_closeOpenCasesTx [of d x] closeOpenCasesTx_at that by (auto simp: holds_def)
  show ?thesis
    unfolding resolveCaseFailTx_def appendCaseAuditTx_def
    by (rule holds_bind [OF m], rule holds_bind [OF c])
      (auto intro!: step_ok_bind [OF failRunForStepTx_step_ok] step_ok_bind [OF step_ok_appendRunEvent] step_ok_others(4))
qed

definition resolution_of :: "string \<Rightarrow> string" where
  "resolution_of action = (if action = ResolveActionSucceed then CaseResolutionSucceed
     else if action = ResolveActionRetry then CaseResolutionRetry else CaseResolutionFail)"

definition resolved_case :: "string \<Rightarrow> AuditContext \<Rightarrow> case_row \<Rightarrow> case_row" where
  "resolved_case res a c =
     c\<lparr>c_status := C_RESOLVED, c_resolution := Some res, c_actor := audit_actor a, c_revision := c_revision c + 1\<rparr>"

lemma find_case_id: "find_case d cid = Some row \<Longrightarrow> row \<in> set (db_cases d) \<and> c_id row = cid"
  unfolding find_case_def by (rule find_Some_set)

lemma find_case_mark:
  assumes "find_case d cid = Some row" and "c_status row = C_OPEN"
    and "markCaseResolvedTx row res a y = Inr x" and "db_cases y = db_cases d"
  shows "find_case x cid = Some (resolved_case res a row)"
  using assms(1,2,4) find_case_id [OF assms(1)] unfolding markCaseResolvedTxD [OF assms(3)]
  by (simp add: find_case_def find_upd resolved_case_def)

lemma find_case_close:
  assumes "find_case d cid = Some c" and "c_status c = C_RESOLVED" and "db_cases x = upd (\<lambda>c. P c \<and> c_status c = C_OPEN) f (db_cases d)"
    and "\<And>c. c_id (f c) = c_id c"
  shows "find_case x cid = Some c"
  using assms by (simp add: find_case_def find_upd)

lemma cases_cong: "db_cases x = db_cases d \<Longrightarrow> find_case x = find_case d"
  by (simp add: find_case_def fun_eq_iff)

lemma insert_timer_frame:
  assumes "insert_timer kind rid sid n reason due d = (due', b, d')"
  shows "db_cases d' = db_cases d" "db_runs d' = db_runs d" "db_steps d' = db_steps d" "step_ids d' = step_ids d"
  using assms by (auto simp: insert_timer_def step_ids_def split: option.splits)

lemma resolve_window_frame:
  assumes "resolve_window now sid policy v d = Inr d'"
  shows "db_cases d' = db_cases d" "db_runs d' = db_runs d" "step_ids d' = step_ids d"
  using assms by (auto simp: resolve_window_def deriveIdempotencyDeadlineTx_def set_valid_until_def Let_def step_ids_upd
      split: option.splits if_splits)

lemma apply_action_case:
  assumes "apply_action c jitter now r s row m req a d = Inr x" and "find_case d cid = Some row" and "c_status row = C_OPEN"
  shows "find_case x cid = Some (resolved_case (resolution_of (TrimSpace (rq_Action req))) a row)"
proof -
  consider (S) "TrimSpace (rq_Action req) = ResolveActionSucceed" | (R) "TrimSpace (rq_Action req) \<noteq> ResolveActionSucceed"
      "TrimSpace (rq_Action req) = ResolveActionRetry"
    | (F) "TrimSpace (rq_Action req) \<noteq> ResolveActionSucceed" "TrimSpace (rq_Action req) \<noteq> ResolveActionRetry" by blast
  then show ?thesis
  proof cases
    case S
    then obtain y z where y: "markCaseResolvedTx row CaseResolutionSucceed a y = Inr z" "db_cases y = db_cases d" "db_cases x = db_cases z"
      using assms(1) by (auto simp: apply_action_def resolveCaseSucceedTx_def appendCaseAuditTx_def Let_def appendRunEventD(6)
          split: sum.splits if_splits)
    then show ?thesis
      using find_case_mark [OF assms(2,3) y(1,2)] S cases_cong [OF y(3)] by (simp add: resolution_of_def)
  next
    case R
    then obtain y z where y: "markCaseResolvedTx row CaseResolutionRetry a y = Inr z" "db_cases y = db_cases d" "db_cases x = db_cases z"
      using assms(1) by (auto simp: apply_action_def resolveCaseRetryTx_def appendCaseAuditTx_def Let_def appendRunEventD(6)
          insert_timer_frame resolve_window_frame split: option.splits if_splits prod.splits)
    then show ?thesis
      using find_case_mark [OF assms(2,3) y(1,2)] R cases_cong [OF y(3)] by (simp add: resolution_of_def)
  next
    case F
    then obtain y z w where y: "markCaseResolvedTx row CaseResolutionFail a d = Inr y"
      "closeOpenCasesTx (r_id r) (audit_actor a) CaseResolutionFail y = Inr z"
      "failRunForStepTx now (r_id r) (c_step row) ''RECONCILIATION_FAILED'' (audit_actor a) z = Inr w" "db_cases x = db_cases w"
      using assms(1) by (auto simp: apply_action_def resolveCaseFailTx_def appendCaseAuditTx_def Let_def appendRunEventD(6))
    let ?c = "resolved_case CaseResolutionFail a row"
    have 1: "find_case y cid = Some ?c" by (rule find_case_mark [OF assms(2,3) y(1)]) simp
    have 2: "find_case z cid = Some ?c" by (rule find_case_close [OF 1 _ closeOpenCasesTxD(1) [OF y(2)]]) (simp_all add: resolved_case_def)
    have "find_case w cid = Some ?c" by (rule find_case_close [OF 2 _ failRunForStepTxD(5) [OF y(3)]]) (simp_all add: resolved_case_def)
    then show ?thesis using F cases_cong [OF y(4)] by (simp add: resolution_of_def)
  qed
qed

lemma append_same_run:
  "appendRunEvent rid t d = Inr d' \<Longrightarrow>
     map_option (\<lambda>q. q\<lparr>r_last_event := 0\<rparr>) (find_run d' i) = map_option (\<lambda>q. q\<lparr>r_last_event := 0\<rparr>) (find_run d i)"
  by (cases "find_run d i") (simp_all add: appendRunEventD(12))

lemma same_run_audit [simp]: "find_run (audit x y d) = find_run d"
  by (simp add: find_run_def fun_eq_iff)

lemma apply_action_run:
  assumes "apply_action c jitter now r s row m req a d = Inr x" and "TrimSpace (rq_Action req) \<in> {ResolveActionSucceed, ResolveActionRetry}"
  shows "run_at Q x = run_at Q d" "step_ids x = step_ids d"
    "map_option (\<lambda>q. q\<lparr>r_last_event := 0\<rparr>) (find_run x rid) = map_option (\<lambda>q. q\<lparr>r_last_event := 0\<rparr>) (find_run d rid)"
    "db_cases x = upd (\<lambda>c. c_id c = c_id row \<and> c_status c = C_OPEN) (resolved_case (resolution_of (TrimSpace (rq_Action req))) a) (db_cases d)"
proof -
  let ?res = "resolution_of (TrimSpace (rq_Action req))"
  obtain y z where y: "markCaseResolvedTx row ?res a y = Inr z" "db_cases y = db_cases d" "db_runs y = db_runs d" "step_ids y = step_ids d"
      "db_cases x = db_cases z" "step_ids x = step_ids z" "run_at Q x = run_at Q z"
      "map_option (\<lambda>q. q\<lparr>r_last_event := 0\<rparr>) (find_run x rid) = map_option (\<lambda>q. q\<lparr>r_last_event := 0\<rparr>) (find_run z rid)"
  proof (cases "TrimSpace (rq_Action req) = ResolveActionSucceed")
    case True
    then show thesis
      using assms(1) that unfolding apply_action_def resolveCaseSucceedTx_def appendCaseAuditTx_def Let_def
      by (auto simp: appendRunEventD(6,11) appendRunEvent_at append_same_run resolution_of_def step_ids_upd split: sum.splits if_splits)
  next
    case False
    then show thesis
      using assms that unfolding apply_action_def resolveCaseRetryTx_def appendCaseAuditTx_def Let_def
      by (auto simp: appendRunEventD(6,11) appendRunEvent_at append_same_run resolution_of_def step_ids_upd
          insert_timer_frame resolve_window_frame split: option.splits if_splits prod.splits)
  qed
  have "run_at Q z = run_at Q y" "step_ids z = step_ids y" "find_run z = find_run y" "run_at Q y = run_at Q d"
    using y(3) unfolding markCaseResolvedTxD [OF y(1)] by (simp_all add: run_at_def fun_eq_iff step_ids_def find_run_def)
  moreover have "find_run y = find_run d" using y(3) by (simp add: find_run_def fun_eq_iff)
  ultimately show "run_at Q x = run_at Q d" "step_ids x = step_ids d"
    "map_option (\<lambda>q. q\<lparr>r_last_event := 0\<rparr>) (find_run x rid) = map_option (\<lambda>q. q\<lparr>r_last_event := 0\<rparr>) (find_run d rid)"
    using y by simp_all
  show "db_cases x = upd (\<lambda>c. c_id c = c_id row \<and> c_status c = C_OPEN) (resolved_case ?res a) (db_cases d)"
    unfolding y(5) markCaseResolvedTxD [OF y(1)] by (simp add: y(2) resolved_case_def upd_def)
qed

lemma resolveReconciliationCaseTxE:
  assumes "resolveReconciliationCaseTx c manifests jitter now caseID req a d = Inr (resp, d')"
  obtains row s r m x where "find_case d caseID = Some row" "find_step d (c_step row) = Some s" "find_run d (s_run s) = Some r"
    "c_status row = C_OPEN" "c_revision row = rq_ExpectedRevision req" "\<not> run_terminal (r_status r)" "\<not> past_deadline now (r_deadline r)"
    "apply_action c jitter now r s row m req a d = Inr x"
    "(if open_cases x (r_id r) = []
      then ebind (if TrimSpace (rq_Action req) = ResolveActionSucceed
                  then advanceAfterStepSuccessTx c manifests now (r_id r) (rq_Result req) x else Inr x)
             (releaseHoldTx (r_id r) (TrimSpace (rq_Action req)))
      else Inr x) = Inr d'"
    "\<exists>row'. find_case d' caseID = Some row' \<and> rs_Revision resp = c_revision row'"
proof -
  obtain row where 1: "find_case d caseID = Some row"
    using assms by (cases "find_case d caseID") (simp_all add: resolveReconciliationCaseTx_def)
  obtain s where 2: "find_step d (c_step row) = Some s"
    using assms 1 by (cases "find_step d (c_step row)") (simp_all add: resolveReconciliationCaseTx_def)
  obtain r where 3: "find_run d (s_run s) = Some r"
    using assms 1 2 by (cases "find_run d (s_run s)") (simp_all add: resolveReconciliationCaseTx_def)
  obtain m where 4: "manifests (r_deployment r) = Some m"
    using assms 1 2 3 by (cases "manifests (r_deployment r)") (simp_all add: resolveReconciliationCaseTx_def split: if_splits)
  note A = assms [unfolded resolveReconciliationCaseTx_def 1 option.case 2 3 bind_get 4]
  have g: "c_status row = C_OPEN" "c_revision row = rq_ExpectedRevision req" "\<not> run_terminal (r_status r)" "\<not> past_deadline now (r_deadline r)"
    using A by (auto split: if_splits)
  obtain x where x: "apply_action c jitter now r s row m req a d = Inr x"
    using A g by (cases "apply_action c jitter now r s row m req a d") (auto split: if_splits)
  show thesis
    by (rule that [OF 1 2 3 g x]) (use A g x in \<open>auto split: if_splits option.splits\<close>)
qed

lemma resolveReconciliationCaseTx_ok:
  assumes "cases_failable d"
  shows "returns_ok d (resolveReconciliationCaseTx c manifests jitter now caseID req a d)"
proof (rule returns_step_okI [OF step_ok_refl])
  assume i: "inv d"
  have "step_ok d d'" if "resolveReconciliationCaseTx c manifests jitter now caseID req a d = Inr (resp, d')" for resp d'
  proof (rule resolveReconciliationCaseTxE [OF that])
    fix row s r m x
    assume row: "find_case d caseID = Some row" and s: "find_step d (c_step row) = Some s" and r: "find_run d (s_run s) = Some r"
      and o: "c_status row = C_OPEN" "\<not> run_terminal (r_status r)"
      and x: "apply_action c jitter now r s row m req a d = Inr x"
      and d': "(if open_cases x (r_id r) = []
          then ebind (if TrimSpace (rq_Action req) = ResolveActionSucceed
                      then advanceAfterStepSuccessTx c manifests now (r_id r) (rq_Result req) x else Inr x)
                 (releaseHoldTx (r_id r) (TrimSpace (rq_Action req)))
          else Inr x) = Inr d'"
    have "run_failable d (s_run s)" by (rule run_failable_find [OF i r]) (use o(2) in auto)
    then have f: "run_failable d (r_id r)" using find_run_id [OF r] by simp
    have "step_failable d (c_step row)" using assms find_case_id [OF row] o(1) by (simp add: cases_failable_def)
    then have ok: "step_ok d x"
      using x resolveCaseSucceedTx_ok [OF step_ok_refl] resolveCaseRetryTx_ok [OF step_ok_refl] resolveCaseFailTx_ok [OF f]
      unfolding apply_action_def Let_def holds_def by (auto split: if_splits)
    have "holds (step_ok d) (ebind (if TrimSpace (rq_Action req) = ResolveActionSucceed
        then advanceAfterStepSuccessTx c manifests now (r_id r) (rq_Result req) x else Inr x) (releaseHoldTx (r_id r) (TrimSpace (rq_Action req))))"
      by (rule step_ok_bind) (use ok f apply_action_run(1) [OF x] in \<open>auto intro!: advanceAfterStepSuccessTx_ok releaseHoldTx_ok\<close>)
    then show "step_ok d d'" using d' ok by (auto simp: holds_def split: if_splits)
  qed
  then show "returns_ok d (resolveReconciliationCaseTx c manifests jitter now caseID req a d)"
    by (auto simp: returns_ok_def holds_def)
qed

section \<open>Rows persist\<close>

lemma grows_find:
  assumes "grows R xs ys" and "\<And>x y. R x y \<Longrightarrow> k y = k x" and "List.find (\<lambda>x. k x = i) xs = Some x"
  shows "\<exists>y. List.find (\<lambda>x. k x = i) ys = Some y \<and> R x y"
proof -
  obtain zs ws where ys: "ys = zs @ ws" "list_all2 R xs zs" using assms(1) unfolding grows_def by blast
  have "\<exists>y. List.find (\<lambda>x. k x = i) zs = Some y \<and> R x y"
    using ys(2) assms(3) by induction (use assms(2) in \<open>auto split: if_splits\<close>)
  then show ?thesis unfolding ys(1) by (auto simp: find_append)
qed

lemma extends_case:
  "extends d d' \<Longrightarrow> find_case d cid = Some row \<Longrightarrow> c_status row = C_RESOLVED \<Longrightarrow> find_case d' cid = Some row"
  using grows_find [of case_le "db_cases d" "db_cases d'" c_id cid row] by (auto simp: extends_def find_case_def case_le_def)

lemma extends_step:
  "extends d d' \<Longrightarrow> find_step d sid = Some s \<Longrightarrow> \<exists>s'. find_step d' sid = Some s' \<and> step_le s s'"
  using grows_find [of step_le "db_steps d" "db_steps d'" s_id sid s] by (simp add: extends_def find_step_def step_le_def)

lemma extends_run:
  "extends d d' \<Longrightarrow> find_run d rid = Some r \<Longrightarrow> \<exists>r'. find_run d' rid = Some r' \<and> run_le r r'"
  using grows_find [of run_le "db_runs d" "db_runs d'" r_id rid r] by (simp add: extends_def find_run_def run_le_def)

lemma case_resolved_refuses:
  assumes "find_case d cid = Some row" and "c_status row = C_RESOLVED" and "find_step d (c_step row) = Some s" and "find_run d (s_run s) = Some r"
  shows "resolveReconciliationCaseTx c manifests jitter now cid req a d = Inl ErrCaseResolved"
  using assms by (simp add: resolveReconciliationCaseTx_def)

text \<open>What a decision keeps of the rows the next one reads.\<close>

lemma releaseHoldTx_frame:
  assumes "releaseHoldTx rid action d = Inr d'"
  shows "db_cases d' = db_cases d" "db_steps d' = db_steps d" "find_run d i \<noteq> None \<Longrightarrow> find_run d' i \<noteq> None"
proof -
  show "db_cases d' = db_cases d" "db_steps d' = db_steps d"
    using assms unfolding releaseHoldTx_def Let_def by (auto simp: appendRunEventD(2,6) split: option.splits if_splits)
  show "find_run d' i \<noteq> None" if "find_run d i \<noteq> None"
    using assms that unfolding releaseHoldTx_def Let_def by (auto simp: appendRunEventD(12) find_run_upd split: option.splits if_splits)
qed

lemma resolveCaseFailTx_frame:
  assumes "resolveCaseFailTx now rid row a d = Inr d'"
  shows "find_step d sid = Some s \<Longrightarrow> \<exists>s'. find_step d' sid = Some s' \<and> s_run s' = s_run s" "find_run d i \<noteq> None \<Longrightarrow> find_run d' i \<noteq> None"
proof -
  obtain y z w where y: "markCaseResolvedTx row CaseResolutionFail a d = Inr y"
    "closeOpenCasesTx rid (audit_actor a) CaseResolutionFail y = Inr z"
    "failRunForStepTx now rid (c_step row) ''RECONCILIATION_FAILED'' (audit_actor a) z = Inr w"
    "db_steps d' = db_steps w" "\<And>j. find_run w j \<noteq> None \<Longrightarrow> find_run d' j \<noteq> None"
    using assms by (auto simp: resolveCaseFailTx_def appendCaseAuditTx_def appendRunEventD(2,12))
  have z: "db_steps z = db_steps d" using closeOpenCasesTxD(2) [OF y(2)] markCaseResolvedTxD [OF y(1)] by simp
  show "\<exists>s'. find_step d' sid = Some s' \<and> s_run s' = s_run s" if "find_step d sid = Some s"
    using that unfolding find_step_def y(4) failRunForStepTxD(1) [OF y(3)] z by (simp add: find_upd)
  show "find_run d' i \<noteq> None" if "find_run d i \<noteq> None"
  proof -
    have "find_run z i \<noteq> None"
      using that closeOpenCasesTxD(11) [OF y(2), of i] markCaseResolvedTxD [OF y(1)] by (cases "find_run d i") (auto simp: find_run_def)
    then have "find_run w i \<noteq> None"
      using failRunForStepTx_run(1) [OF y(3)] failRunForStepTx_other [OF y(3), of i] by (cases "i = rid") auto
    then show ?thesis by (rule y(5))
  qed
qed

lemma resolve_rows:
  assumes i: "inv d" and row: "find_case d caseID = Some row" and s: "find_step d (c_step row) = Some s" and r: "find_run d (s_run s) = Some r"
    and g: "c_status row = C_OPEN" "\<not> run_terminal (r_status r)"
    and x: "apply_action c jitter now r s row m req a d = Inr x"
    and d': "(if open_cases x (r_id r) = []
        then ebind (if TrimSpace (rq_Action req) = ResolveActionSucceed
                    then advanceAfterStepSuccessTx c manifests now (r_id r) (rq_Result req) x else Inr x)
               (releaseHoldTx (r_id r) (TrimSpace (rq_Action req)))
        else Inr x) = Inr d'"
  shows "find_case d' caseID = Some (resolved_case (resolution_of (TrimSpace (rq_Action req))) a row)"
    and "\<exists>s'. find_step d' (c_step row) = Some s' \<and> s_run s' = s_run s" and "find_run d' (s_run s) \<noteq> None"
proof -
  let ?row = "resolved_case (resolution_of (TrimSpace (rq_Action req))) a row"
  note cx = apply_action_case [OF x row g(1)]
  have "find_case d' caseID = Some ?row \<and> (\<exists>s'. find_step d' (c_step row) = Some s' \<and> s_run s' = s_run s) \<and> find_run d' (s_run s) \<noteq> None"
  proof (cases "TrimSpace (rq_Action req) = ResolveActionSucceed")
    case True
    then have ok: "step_ok d x"
      using x resolveCaseSucceedTx_ok [OF step_ok_refl] unfolding apply_action_def Let_def holds_def by auto
    have "run_failable d (s_run s)" by (rule run_failable_find [OF i r]) (use g(2) in auto)
    then have f: "run_failable x (r_id r)" using True find_run_id [OF r] apply_action_run(1) [OF x] by auto
    have "holds (step_ok x) (ebind (advanceAfterStepSuccessTx c manifests now (r_id r) (rq_Result req) x) (releaseHoldTx (r_id r) act))" for act
      by (rule step_ok_bind) (use f in \<open>auto intro!: advanceAfterStepSuccessTx_ok releaseHoldTx_ok\<close>)
    then have "step_ok x d'" using d' True by (auto simp: holds_def split: if_splits)
    then have e: "extends x d'" "extends d d'" using ok i by (auto simp: step_ok_def intro: extends_trans)
    show ?thesis
      using extends_case [OF e(1) cx] extends_step [OF e(2) s] extends_run [OF e(2) r] by (auto simp: resolved_case_def step_le_def)
  next
    case False
    have "releaseHoldTx (r_id r) act x = Inr d' \<Longrightarrow> db_cases d' = db_cases x \<and> db_steps d' = db_steps x \<and> (find_run x (s_run s) \<noteq> None \<longrightarrow> find_run d' (s_run s) \<noteq> None)" for act
      using releaseHoldTx_frame by blast
    then have e: "find_case d' = find_case x" "find_step d' = find_step x" "find_run x (s_run s) \<noteq> None \<Longrightarrow> find_run d' (s_run s) \<noteq> None"
      using d' False by (auto simp: find_case_def find_step_def fun_eq_iff split: if_splits)
    show ?thesis
    proof (cases "TrimSpace (rq_Action req) = ResolveActionRetry")
      case True
      then have "step_ok d x"
        using False x resolveCaseRetryTx_ok [OF step_ok_refl] unfolding apply_action_def Let_def holds_def by auto
      then have ext: "extends d x" using i by (simp add: step_ok_def)
      obtain s' where "find_step x (c_step row) = Some s'" "s_run s' = s_run s" using extends_step [OF ext s] by (auto simp: step_le_def)
      moreover obtain r' where "find_run x (s_run s) = Some r'" using extends_run [OF ext r] by blast
      ultimately show ?thesis using e cx by simp
    next
      case F: False
      then have f: "resolveCaseFailTx now (r_id r) row a d = Inr x" using False x by (simp add: apply_action_def)
      show ?thesis using resolveCaseFailTx_frame(1) [OF f s] resolveCaseFailTx_frame(2) [OF f, of "s_run s"] e cx r by simp
    qed
  qed
  then show "find_case d' caseID = Some ?row" "\<exists>s'. find_step d' (c_step row) = Some s' \<and> s_run s' = s_run s" "find_run d' (s_run s) \<noteq> None"
    by blast+
qed

section \<open>Properties\<close>

text \<open>C8: a case is decided once.  A decision that commits was taken on an open case, at its current
  revision, before the run's deadline and on a run that had not ended; it is recorded with the
  resolution of its action, its actor and the next revision, which is the one it returns.  In every
  later state another decision on the case is refused.\<close>

theorem resolveReconciliationCaseTx_once:
  assumes "resolveReconciliationCaseTx c manifests jitter now caseID req a d = Inr (resp, d')" and "inv d"
  shows "\<exists>row s r. find_case d caseID = Some row \<and> find_step d (c_step row) = Some s \<and> find_run d (s_run s) = Some r \<and>
    c_status row = C_OPEN \<and> c_revision row = rq_ExpectedRevision req \<and> \<not> run_terminal (r_status r) \<and> \<not> past_deadline now (r_deadline r) \<and>
    find_case d' caseID = Some (resolved_case (resolution_of (TrimSpace (rq_Action req))) a row) \<and> rs_Revision resp = c_revision row + 1 \<and>
    (\<forall>c' manifests' jitter' now' req' a' later. extends d' later \<longrightarrow>
       resolveReconciliationCaseTx c' manifests' jitter' now' caseID req' a' later = Inl ErrCaseResolved)"
proof (rule resolveReconciliationCaseTxE [OF assms(1)])
  fix row s r m x
  assume row: "find_case d caseID = Some row" and s: "find_step d (c_step row) = Some s" and r: "find_run d (s_run s) = Some r"
    and g: "c_status row = C_OPEN" "c_revision row = rq_ExpectedRevision req" "\<not> run_terminal (r_status r)" "\<not> past_deadline now (r_deadline r)"
    and x: "apply_action c jitter now r s row m req a d = Inr x"
    and d': "(if open_cases x (r_id r) = []
        then ebind (if TrimSpace (rq_Action req) = ResolveActionSucceed
                    then advanceAfterStepSuccessTx c manifests now (r_id r) (rq_Result req) x else Inr x)
               (releaseHoldTx (r_id r) (TrimSpace (rq_Action req)))
        else Inr x) = Inr d'"
    and rev: "\<exists>row'. find_case d' caseID = Some row' \<and> rs_Revision resp = c_revision row'"
  let ?row = "resolved_case (resolution_of (TrimSpace (rq_Action req))) a row"
  note R = resolve_rows [OF assms(2) row s r g(1,3) x d']
  obtain s' r' where s': "find_step d' (c_step row) = Some s'" "s_run s' = s_run s" and r': "find_run d' (s_run s) = Some r'"
    using R(2,3) by blast
  have "resolveReconciliationCaseTx c' manifests' jitter' now' caseID req' a' later = Inl ErrCaseResolved"
    if l: "extends d' later" for c' manifests' jitter' now' req' a' later
  proof -
    obtain t where t: "find_step later (c_step row) = Some t" "s_run t = s_run s"
      using extends_step [OF l s'(1)] s'(2) by (auto simp: step_le_def)
    obtain q where "find_run later (s_run t) = Some q" using extends_run [OF l r'] t(2) by auto
    then show ?thesis
      using case_resolved_refuses [OF extends_case [OF l R(1)]] t(1) by (simp add: resolved_case_def)
  qed
  then show ?thesis using row s r g R(1) rev by (auto simp: resolved_case_def)
qed

text \<open>A run held for a decision.\<close>

definition on_hold :: "run_row \<Rightarrow> bool" where
  "on_hold r \<longleftrightarrow> r_status r = R_WAITING \<and> r_reason r = Some ''RECONCILIATION''"

lemma releaseHoldTx_releases:
  assumes "releaseHoldTx rid action d = Inr d'"
  shows "\<exists>r'. find_run d' rid = Some r' \<and> \<not> on_hold r'"
proof -
  obtain r where r: "find_run d rid = Some r" using assms by (cases "find_run d rid") (simp_all add: releaseHoldTx_def)
  then show ?thesis
    using assms find_run_id [OF r] unfolding releaseHoldTx_def Let_def
    by (auto simp: on_hold_def appendRunEventD(12) find_run_upd text_or_empty_def split: if_splits option.splits)
qed

text \<open>C36: the hold ends with the last open case.  When no case of the run is open after a decision, the
  run no longer waits for one; while another case of the run stays open, a decision that does not
  fail the run leaves it waiting.\<close>

theorem resolve_ends_hold_last:
  assumes "resolveReconciliationCaseTx c manifests jitter now caseID req a d = Inr (resp, d')"
    and "find_case d caseID = Some row" and "find_step d (c_step row) = Some s" and "find_run d (s_run s) = Some r" and "on_hold r"
  shows "\<exists>r'. find_run d' (s_run s) = Some r' \<and> (open_cases d' (s_run s) = [] \<longrightarrow> \<not> on_hold r') \<and>
    ((\<exists>c \<in> set (open_cases d (s_run s)). c_id c \<noteq> caseID) \<and> TrimSpace (rq_Action req) \<in> {ResolveActionSucceed, ResolveActionRetry} \<longrightarrow>
       on_hold r')"
proof (rule resolveReconciliationCaseTxE [OF assms(1)])
  fix row' s' r0 m x
  assume same: "find_case d caseID = Some row'" "find_step d (c_step row') = Some s'" "find_run d (s_run s') = Some r0"
    and x: "apply_action c jitter now r0 s' row' m req a d = Inr x"
    and d': "(if open_cases x (r_id r0) = []
        then ebind (if TrimSpace (rq_Action req) = ResolveActionSucceed
                    then advanceAfterStepSuccessTx c manifests now (r_id r0) (rq_Result req) x else Inr x)
               (releaseHoldTx (r_id r0) (TrimSpace (rq_Action req)))
        else Inr x) = Inr d'"
  have eq: "row' = row" "s' = s" "r0 = r" "r_id r = s_run s" using same assms(2-4) find_run_id [OF assms(4)] by auto
  have id: "c_id row = caseID" using find_case_id [OF assms(2)] by blast
  show ?thesis
  proof (cases "open_cases x (s_run s) = []")
    case True
    then obtain y where "releaseHoldTx (s_run s) (TrimSpace (rq_Action req)) y = Inr d'"
      using d' eq by auto
    moreover have "\<not> (TrimSpace (rq_Action req) \<in> {ResolveActionSucceed, ResolveActionRetry} \<and> (\<exists>c \<in> set (open_cases d (s_run s)). c_id c \<noteq> caseID))"
    proof
      assume A: "TrimSpace (rq_Action req) \<in> {ResolveActionSucceed, ResolveActionRetry} \<and> (\<exists>c \<in> set (open_cases d (s_run s)). c_id c \<noteq> caseID)"
      then obtain c where c: "c \<in> set (open_cases d (s_run s))" "c_id c \<noteq> caseID" by blast
      have "c \<in> set (db_cases x)"
        using c id unfolding apply_action_run(4) [OF x conjunct1 [OF A]] eq by (force simp: upd_def open_cases_def image_iff)
      then have "c \<in> set (open_cases x (s_run s))"
        using c apply_action_run(2) [OF x conjunct1 [OF A]] by (simp add: open_cases_def)
      then show False using True by simp
    qed
    ultimately show ?thesis using releaseHoldTx_releases by blast
  next
    case False
    then have x': "x = d'" using d' eq by simp
    have "find_run x (s_run s) \<noteq> None"
    proof (cases "TrimSpace (rq_Action req) \<in> {ResolveActionSucceed, ResolveActionRetry}")
      case True
      then show ?thesis using apply_action_run(3) [OF x True, of "s_run s"] assms(4) by (cases "find_run x (s_run s)") simp_all
    next
      case False
      then have "resolveCaseFailTx now (r_id r) row a d = Inr x" using x eq by (simp add: apply_action_def)
      then show ?thesis using resolveCaseFailTx_frame(2) assms(4) by blast
    qed
    then have "\<exists>r'. find_run x (s_run s) = Some r'" by simp
    moreover have "on_hold r'" if "find_run x (s_run s) = Some r'" "TrimSpace (rq_Action req) \<in> {ResolveActionSucceed, ResolveActionRetry}" for r'
      using apply_action_run(3) [OF x that(2), of "s_run s"] assms(4,5) that(1) by (cases r; cases r') (simp add: on_hold_def)
    ultimately show ?thesis using False x' by blast
  qed
qed

text \<open>A run with two held steps.\<close>

definition sample_task :: taskManifest where
  "sample_task = \<lparr> tm_Name = ''t'', tm_Entrypoint = ''t'', tm_Recovery = ''reconcile'', tm_TimeoutMs = 1000, tm_InputSchema = JNull,
     tm_OutputSchema = JNull, tm_IdempotencyWindowMs = None, tm_MaxAttempts = 3, tm_InitialDelayMs = 1000, tm_MaxDelayMs = 60000 \<rparr>"

definition held_manifests :: manifests where
  "held_manifests i = Some (sample_dm\<lparr>dm_Tasks := [sample_task]\<rparr>)"

definition sample_held :: db where
  "sample_held = sample_dag_db\<lparr>db_runs := [sample_run\<lparr>r_status := R_WAITING, r_reason := Some ''RECONCILIATION''\<rparr>],
     db_steps := map (\<lambda>s. if s_id s \<in> {12, 13} then s\<lparr>s_state := S_WAITING, s_wait := Some ''RECONCILIATION''\<rparr> else s) (db_steps sample_dag_db),
     db_cases := [sample_case\<lparr>c_id := 45, c_step := 12\<rparr>, sample_case\<lparr>c_id := 46, c_step := 13\<rparr>]\<rparr>"

definition sample_resolve :: "string \<Rightarrow> ResolveReconciliationRequest" where
  "sample_resolve action = \<lparr> rq_Action = action, rq_Evidence = ''ticket'', rq_Reason = ''checked'', rq_Result = JObj [], rq_ExpectedRevision = 1 \<rparr>"

lemma sample_held_inv: "inv sample_held"
  by code_simp

lemma sample_resolves:
  obtains resp d' where
    "resolveReconciliationCaseTx sample_externals held_manifests 0 1000 45 (sample_resolve ResolveActionSucceed) sample_audit sample_held = Inr (resp, d')"
proof -
  have "case resolveReconciliationCaseTx sample_externals held_manifests 0 1000 45 (sample_resolve ResolveActionSucceed) sample_audit sample_held of
      Inl _ \<Rightarrow> False | Inr _ \<Rightarrow> True" by code_simp
  then show thesis using that by (auto split: sum.splits)
qed

theorem resolveReconciliationCaseTx_once_witness:
  "\<exists>resp d'. resolveReconciliationCaseTx sample_externals held_manifests 0 1000 45 (sample_resolve ResolveActionSucceed) sample_audit sample_held
      = Inr (resp, d') \<and> rs_Revision resp = 2 \<and>
    resolveReconciliationCaseTx sample_externals held_manifests 0 1000 45 (sample_resolve ResolveActionFail) sample_audit d' = Inl ErrCaseResolved"
proof -
  obtain resp d' where
    e: "resolveReconciliationCaseTx sample_externals held_manifests 0 1000 45 (sample_resolve ResolveActionSucceed) sample_audit sample_held = Inr (resp, d')"
    by (rule sample_resolves)
  show ?thesis
    using resolveReconciliationCaseTx_once [OF e sample_held_inv] e extends_refl [of d'] by (fastforce simp: sample_resolve_def)
qed

theorem resolve_ends_hold_last_witness:
  "\<exists>resp d' r'. resolveReconciliationCaseTx sample_externals held_manifests 0 1000 45 (sample_resolve ResolveActionSucceed) sample_audit sample_held
      = Inr (resp, d') \<and> find_run d' 1 = Some r' \<and> on_hold r'"
proof -
  obtain resp d' where
    e: "resolveReconciliationCaseTx sample_externals held_manifests 0 1000 45 (sample_resolve ResolveActionSucceed) sample_audit sample_held = Inr (resp, d')"
    by (rule sample_resolves)
  have c: "find_case sample_held 45 = Some (sample_case\<lparr>c_id := 45, c_step := 12\<rparr>)"
    "case find_step sample_held 12 of None \<Rightarrow> False | Some s \<Rightarrow> s_run s = 1"
    "case find_run sample_held 1 of None \<Rightarrow> False | Some r \<Rightarrow> on_hold r"
    "\<exists>c \<in> set (open_cases sample_held 1). c_id c \<noteq> 45"
    "TrimSpace (rq_Action (sample_resolve ResolveActionSucceed)) = ResolveActionSucceed" by code_simp+
  obtain s r where s: "find_step sample_held 12 = Some s" "s_run s = 1" and r: "find_run sample_held 1 = Some r" "on_hold r"
    using c(2,3) by (auto split: option.splits)
  show ?thesis
    using resolve_ends_hold_last [OF e c(1), of s r] s r e c(4,5) by auto
qed

end
