(* ===== verification/Attempt_Engine.thy ===== *)
theory Attempt_Engine
  imports Reconciliation
begin

text \<open>
  The worker's protocol with the engine (\<open>internal/execution/worker_engine.go\<close>): starting a claimed
  attempt, renewing its lease, completing it, acknowledging a stop, and fencing a worker's sessions.
  A worker is authenticated before these run; its session is their first argument.  Of
  \<open>internal/artifacts\<close>, what the engine calls in its own transactions is modelled; the rows of the
  artifacts table are an argument, None when the engine has no artifact service.  Artifact ids are
  well-formed.
\<close>

section \<open>Sessions and requests\<close>

record WorkerSessionContext =
  ws_SessionID :: uid
  ws_WorkerID :: uid
  ws_EnvironmentID :: "uid option"
  ws_PoolName :: string

record StartRequestDTO =
  st_WorkerID :: uid
  st_SessionID :: uid
  st_AttemptID :: uid
  st_OwnershipEpoch :: int

record HeartbeatAttemptDTO =
  hb_AttemptID :: uid
  hb_OwnershipEpoch :: int

record HeartbeatRequestDTO =
  hb_WorkerID :: uid
  hb_SessionID :: uid
  hb_Attempts :: "HeartbeatAttemptDTO list"

record LeaseRenewalDTO =
  lr_AttemptID :: uid
  lr_OwnershipEpoch :: int
  lr_LeaseExpiresAt :: time

record StopCommandDTO =
  sc_AttemptID :: uid
  sc_OwnershipEpoch :: int
  sc_Reason :: string
  sc_GraceTimeoutMs :: int

record TaskErrorDTO =
  te_Code :: string
  te_Message :: string
  te_Details :: json
  te_Retryable :: bool
  te_EffectStatus :: string
  te_RetryAfter :: string

record CompleteRequestDTO =
  cq_WorkerID :: uid
  cq_SessionID :: uid
  cq_AttemptID :: uid
  cq_OwnershipEpoch :: int
  cq_Outcome :: string
  cq_Output :: json
  cq_ArtifactID :: string
  cq_Error :: "TaskErrorDTO option"
  cq_ResultDigest :: string

record StopAckRequestDTO =
  sa_WorkerID :: uid
  sa_SessionID :: uid
  sa_AttemptID :: uid
  sa_OwnershipEpoch :: int
  sa_ProcessStopped :: bool

definition DefaultLeaseTTL :: time where "DefaultLeaseTTL = 30 * 1000000000"

definition ClaimStartDeadline :: time where "ClaimStartDeadline = 5 * 1000000000"

section \<open>The rows a request is about\<close>

definition find_attempt :: "db \<Rightarrow> uid \<Rightarrow> attempt_row option" where
  "find_attempt d aid = List.find (\<lambda>a. a_id a = aid) (db_attempts d)"

definition find_lease :: "db \<Rightarrow> uid \<Rightarrow> lease_row option" where
  "find_lease d aid = List.find (\<lambda>l. l_attempt l = aid) (db_leases d)"

text \<open>The join of an attempt with its step and its run.\<close>

definition attempt_chain :: "db \<Rightarrow> uid \<Rightarrow> (attempt_row \<times> step_row \<times> run_row) option" where
  "attempt_chain d aid =
     (case find_attempt d aid of
        None \<Rightarrow> None
      | Some a \<Rightarrow> (case find_step d (a_step a) of
                     None \<Rightarrow> None
                   | Some s \<Rightarrow> map_option (\<lambda>r. (a, s, r)) (find_run d (s_run s))))"

text \<open>\<open>LEAST(t, COALESCE(deadline, 'infinity'))\<close>.\<close>

definition least_deadline :: "time \<Rightarrow> time option \<Rightarrow> time" where
  "least_deadline t deadline = (case deadline of None \<Rightarrow> t | Some u \<Rightarrow> min t u)"

text \<open>The session and epoch of an attempt, and a lease that still proves them.\<close>

definition owned_by :: "uid \<Rightarrow> int \<Rightarrow> attempt_row \<Rightarrow> bool" where
  "owned_by session epoch a \<longleftrightarrow> a_epoch a = epoch \<and> a_session a = Some session"

definition lease_valid :: "time \<Rightarrow> uid \<Rightarrow> int \<Rightarrow> lease_row \<Rightarrow> bool" where
  "lease_valid now session epoch l \<longleftrightarrow> l_epoch l = epoch \<and> l_session l = session \<and> now < l_expires l"

text \<open>A NULL session cannot be scanned into the string the queries read it into.\<close>

definition scan_session :: "attempt_row \<Rightarrow> uid tx" where
  "scan_session a = (case a_session a of None \<Rightarrow> Inl (EngineError ''scan session_id'') | Some i \<Rightarrow> Inr i)"

section \<open>The history limit\<close>

definition TerminalizeHistoryLimitExceeded :: "uid \<Rightarrow> db \<Rightarrow> db tx" where
  "TerminalizeHistoryLimitExceeded runID d =
     (case find_run d runID of
        None \<Rightarrow> Inl ErrRunNotFound
      | Some r \<Rightarrow>
          if run_terminal (r_status r) then Inr d
          else
            (let d = upd_steps (\<lambda>s. s_run s = runID \<and> s_state s \<in> {S_BLOCKED, S_READY, S_WAITING}) (\<lambda>s. s\<lparr>s_state := S_CANCELLED\<rparr>) d
             in ebind (case appendRunEvent runID ''RUN_FAILED'' d of
                         Inl e \<Rightarrow> if e = ErrHistoryLimitExceeded then Inr d else Inl e
                       | Inr d' \<Rightarrow> Inr d') (\<lambda>d.
                  Inr (upd_runs (\<lambda>q. r_id q = runID \<and> \<not> run_terminal (r_status q))
                         (\<lambda>q. q\<lparr>r_status := R_FAILED, r_reason := Some ''HISTORY_LIMIT_EXCEEDED''\<rparr>) d))))"

text \<open>The reply and the committed state.  A transaction that hits the limit is rolled back and its run is
  terminalized in a second one, whose own error is dropped.\<close>

definition with_history_limit :: "uid \<Rightarrow> ('a \<times> db) tx \<Rightarrow> db \<Rightarrow> (engine_error + 'a) \<times> db" where
  "with_history_limit runID t d =
     (case t of
        Inr (v, d') \<Rightarrow> (Inr v, d')
      | Inl e \<Rightarrow> (Inl e, if e = ErrHistoryLimitExceeded
                        then (case TerminalizeHistoryLimitExceeded runID d of Inl _ \<Rightarrow> d | Inr d' \<Rightarrow> d') else d))"

section \<open>Start\<close>

definition start_tx :: "time \<Rightarrow> WorkerSessionContext \<Rightarrow> StartRequestDTO \<Rightarrow> attempt_row \<Rightarrow> run_row \<Rightarrow> db \<Rightarrow> (time \<times> db) tx" where
  "start_tx now session req a r d =
     ebind (scan_session a) (\<lambda>_.
      case find_lease d (st_AttemptID req) of
        None \<Rightarrow> Inl ErrStaleOwnership
      | Some l \<Rightarrow>
          if \<not> owned_by (ws_SessionID session) (st_OwnershipEpoch req) a \<or> \<not> lease_valid now (ws_SessionID session) (st_OwnershipEpoch req) l
          then Inl ErrStaleOwnership
          else if a_status a = A_RUNNING
          then (case a_deadline a of
                  None \<Rightarrow> Inl ErrStaleOwnership
                | Some t \<Rightarrow> if now < t then Inr (t, d) else Inl ErrStaleOwnership)
          else if a_status a \<noteq> A_CLAIMED then Inl ErrStaleOwnership
          else if (case a_start_deadline a of None \<Rightarrow> True | Some t \<Rightarrow> \<not> now < t) \<or> past_deadline now (r_deadline r)
          then Inl ErrStartDeadlineExceeded
          else
            (let deadline = least_deadline (now + a_timeout_ms a * 1000000) (r_deadline r);
                 d = upd_attempts (\<lambda>b. a_id b = st_AttemptID req)
                       (\<lambda>b. b\<lparr>a_status := A_RUNNING, a_started := Some now, a_deadline := Some deadline\<rparr>) d;
                 d = upd_runs (\<lambda>q. r_id q = r_id r \<and> r_status q = R_QUEUED) (\<lambda>q. q\<lparr>r_status := R_RUNNING, r_reason := None\<rparr>) d
             in ebind (appendRunEvent (r_id r) ''TASK_STARTED'' d) (\<lambda>d. Inr (deadline, d))))"

definition Start :: "time \<Rightarrow> WorkerSessionContext \<Rightarrow> StartRequestDTO \<Rightarrow> db \<Rightarrow> (engine_error + time) \<times> db" where
  "Start now session req d =
     (if st_WorkerID req \<noteq> ws_WorkerID session \<or> st_SessionID req \<noteq> ws_SessionID session then (Inl ErrUnauthorized, d)
      else (case attempt_chain d (st_AttemptID req) of
              None \<Rightarrow> (Inl ErrAttemptNotFound, d)
            | Some (a, s, r) \<Rightarrow> with_history_limit (r_id r) (start_tx now session req a r d) d))"

section \<open>Heartbeat\<close>

definition stop :: "HeartbeatAttemptDTO \<Rightarrow> string \<Rightarrow> StopCommandDTO" where
  "stop item reason = \<lparr> sc_AttemptID = hb_AttemptID item, sc_OwnershipEpoch = hb_OwnershipEpoch item, sc_Reason = reason, sc_GraceTimeoutMs = 10000 \<rparr>"

text \<open>The unacknowledged stop of an attempt (\<open>LIMIT 1\<close>).\<close>

definition pending_stop :: "db \<Rightarrow> uid \<Rightarrow> stop_row option" where
  "pending_stop d aid = List.find (\<lambda>x. x_attempt x = aid \<and> x_acked x = None) (db_stops d)"

definition upd_leases :: "(lease_row \<Rightarrow> bool) \<Rightarrow> (lease_row \<Rightarrow> lease_row) \<Rightarrow> db \<Rightarrow> db" where
  "upd_leases P f d = d\<lparr>db_leases := upd P f (db_leases d)\<rparr>"

definition heartbeat_item ::
    "time \<Rightarrow> WorkerSessionContext \<Rightarrow> HeartbeatAttemptDTO \<Rightarrow> LeaseRenewalDTO list \<times> StopCommandDTO list \<times> db \<Rightarrow>
     (LeaseRenewalDTO list \<times> StopCommandDTO list \<times> db) tx" where
  "heartbeat_item now session item st =
     (case st of (renewals, stops, d) \<Rightarrow>
        (case (attempt_chain d (hb_AttemptID item), find_lease d (hb_AttemptID item)) of
           (Some (a, s, r), Some l) \<Rightarrow>
             ebind (scan_session a) (\<lambda>_. Inr (
             if \<not> owned_by (ws_SessionID session) (hb_OwnershipEpoch item) a then (renewals, stops @ [stop item ''STALE_OWNERSHIP''], d)
             else
               (case (a_status a, a_deadline a) of
                  (A_RUNNING, Some deadline) \<Rightarrow>
                    if \<not> now < l_expires l \<or> \<not> now < deadline \<or> past_deadline now (r_deadline r)
                    then (renewals, stops @ [stop item ''DEADLINE_EXPIRED''], d)
                    else
                      (case pending_stop d (hb_AttemptID item) of
                         Some x \<Rightarrow> (renewals, stops @ [stop item (x_reason x)], d)
                       | None \<Rightarrow>
                           (let newExpiry = least_deadline (min (now + DefaultLeaseTTL) deadline) (r_deadline r)
                            in (renewals @ [\<lparr> lr_AttemptID = hb_AttemptID item, lr_OwnershipEpoch = hb_OwnershipEpoch item,
                                  lr_LeaseExpiresAt = newExpiry \<rparr>], stops,
                                upd_leases (\<lambda>l. l_attempt l = hb_AttemptID item) (\<lambda>l. l\<lparr>l_expires := newExpiry\<rparr>) d)))
                | _ \<Rightarrow> (renewals, stops @ [stop item ''ATTEMPT_NOT_RUNNING''], d))))
         | _ \<Rightarrow> Inr (renewals, stops @ [stop item ''LEASE_NOT_FOUND''], d)))"

definition Heartbeat ::
    "time \<Rightarrow> WorkerSessionContext \<Rightarrow> HeartbeatRequestDTO \<Rightarrow> db \<Rightarrow> (LeaseRenewalDTO list \<times> StopCommandDTO list \<times> db) tx" where
  "Heartbeat now session req d =
     (if hb_WorkerID req \<noteq> ws_WorkerID session \<or> hb_SessionID req \<noteq> ws_SessionID session then Inl ErrUnauthorized
      else efold (heartbeat_item now session) (hb_Attempts req) ([], [], d))"

section \<open>Artifacts\<close>

definition ArtifactRefKey :: string where "ArtifactRefKey = ''$artifact''"

record artifact_row =
  f_id :: string
  f_step :: uid
  f_attempt :: "uid option"
  f_status :: string

datatype artifact_error = ErrArtifactNotFound | ErrArtifactNotReady | ErrNotOwned

definition artifactFailureCode :: "artifact_error \<Rightarrow> string" where
  "artifactFailureCode e =
     (case e of
        ErrArtifactNotFound \<Rightarrow> ''ARTIFACT_NOT_FOUND''
      | ErrArtifactNotReady \<Rightarrow> ''ARTIFACT_NOT_READY''
      | ErrNotOwned \<Rightarrow> ''ARTIFACT_NOT_OWNED'')"

text \<open>The row of an artifact bound to an existing attempt, if it is READY and bound to this one.\<close>

definition LookupForCompletionTx ::
    "artifact_row list \<Rightarrow> db \<Rightarrow> uid \<Rightarrow> uid \<Rightarrow> int \<Rightarrow> string \<Rightarrow> artifact_error + artifact_row" where
  "LookupForCompletionTx artifacts d stepID attemptID epoch artifactID =
     (case List.find (\<lambda>f. f_id f = artifactID \<and> Option.bind (f_attempt f) (find_attempt d) \<noteq> None) artifacts of
        None \<Rightarrow> Inl ErrArtifactNotFound
      | Some f \<Rightarrow>
          (case Option.bind (f_attempt f) (find_attempt d) of
             None \<Rightarrow> Inl ErrArtifactNotFound
           | Some ta \<Rightarrow>
               if f_status f \<noteq> ''READY'' then Inl ErrArtifactNotReady
               else if f_step f \<noteq> stepID \<or> f_attempt f \<noteq> Some attemptID \<or> a_epoch ta \<noteq> epoch \<or> \<not> attempt_live (a_status ta) then Inl ErrNotOwned
               else Inr f))"

section \<open>Complete\<close>

definition validOutcome :: "string \<Rightarrow> bool" where
  "validOutcome outcome \<longleftrightarrow> outcome \<in> {''SUCCEEDED'', ''FAILED'', ''TIMED_OUT'', ''CANCELLED''}"

definition terminalAttempt :: "AttemptStatus \<Rightarrow> bool" where
  "terminalAttempt st \<longleftrightarrow> st \<in> {A_SUCCEEDED, A_FAILED, A_TIMED_OUT, A_LOST, A_CANCELLED}"

definition outcome_status :: "string \<Rightarrow> AttemptStatus" where
  "outcome_status outcome =
     (if outcome = ''SUCCEEDED'' then A_SUCCEEDED else if outcome = ''CANCELLED'' then A_CANCELLED
      else if outcome = ''TIMED_OUT'' then A_TIMED_OUT else A_FAILED)"

text \<open>The error envelope after \<open>json.Marshal\<close> and \<open>json.Unmarshal\<close>; empty optional fields are left out.\<close>

definition error_envelope :: "TaskErrorDTO option \<Rightarrow> json" where
  "error_envelope e =
     (case e of
        None \<Rightarrow> JNull
      | Some e \<Rightarrow> JObj ([(''code'', JStr (te_Code e)), (''message'', JStr (te_Message e))] @
          (if te_Details e = JNull then [] else [(''details'', te_Details e)]) @ [(''retryable'', JBool (te_Retryable e))] @
          (if te_EffectStatus e = [] then [] else [(''effectStatus'', JStr (te_EffectStatus e))]) @
          (if te_RetryAfter e = [] then [] else [(''retryAfter'', JStr (te_RetryAfter e))])))"

definition CanonicalCompletionDigest :: "externals \<Rightarrow> CompleteRequestDTO \<Rightarrow> string option" where
  "CanonicalCompletionDigest c req =
     (case CanonicalizeGeneric c (JObj [(''outcome'', JStr (cq_Outcome req)), (''output'', cq_Output req),
         (''artifactId'', JStr (cq_ArtifactID req)), (''error'', error_envelope (cq_Error req))]) of
        Inl _ \<Rightarrow> None
      | Inr canonical \<Rightarrow> Some (SHA256Hex c canonical))"

text \<open>A successful result that does not hold up becomes a deterministic failure.\<close>

definition failed_request :: "string \<Rightarrow> string \<Rightarrow> string \<Rightarrow> CompleteRequestDTO \<Rightarrow> CompleteRequestDTO" where
  "failed_request code msg effect req =
     req\<lparr>cq_Outcome := ''FAILED'', cq_Output := JNull,
         cq_Error := Some \<lparr> te_Code = code, te_Message = msg, te_Details = JNull, te_Retryable = False, te_EffectStatus = effect, te_RetryAfter = [] \<rparr>\<rparr>"

definition check_schema :: "externals \<Rightarrow> deploymentManifest option \<Rightarrow> run_row \<Rightarrow> step_row \<Rightarrow> CompleteRequestDTO \<Rightarrow> CompleteRequestDTO tx" where
  "check_schema c m r s req =
     (case m of
        None \<Rightarrow> Inl (EngineError ''decode manifest'')
      | Some m \<Rightarrow>
          (let outputSchema = snd (taskSchemas m (r_workflow r) (s_node s)) in
           if outputSchema \<noteq> JNull \<and> ValidatePayload c outputSchema (cq_Output req) \<noteq> Inr ()
           then Inr (failed_request ''OUTPUT_SCHEMA_VIOLATION'' ''Task output does not conform to output schema'' ''NOT_APPLIED'' req)
           else Inr req))"

definition check_result ::
    "externals \<Rightarrow> artifact_row list option \<Rightarrow> deploymentManifest option \<Rightarrow> run_row \<Rightarrow> step_row \<Rightarrow> CompleteRequestDTO \<Rightarrow> db \<Rightarrow> CompleteRequestDTO tx" where
  "check_result c artifacts m r s req d =
     (if cq_Outcome req \<noteq> ''SUCCEEDED'' then Inr req
      else if cq_ArtifactID req = [] then check_schema c m r s req
      else if cq_Output req \<noteq> JNull
      then Inr (failed_request ''OUTPUT_SCHEMA_VIOLATION'' ''Result carries both inline output and an artifact reference'' ''NOT_APPLIED''
             (req\<lparr>cq_ArtifactID := []\<rparr>))
      else
        (case artifacts of
           None \<Rightarrow> Inl (EngineError ''artifact association unavailable'')
         | Some rows \<Rightarrow>
             (case LookupForCompletionTx rows d (s_id s) (cq_AttemptID req) (cq_OwnershipEpoch req) (cq_ArtifactID req) of
                Inl e \<Rightarrow> Inr (failed_request (artifactFailureCode e) ''Artifact result cannot be associated'' ''UNKNOWN'' (req\<lparr>cq_ArtifactID := []\<rparr>))
              | Inr _ \<Rightarrow> Inr (req\<lparr>cq_Output := JObj [(ArtifactRefKey, JStr (cq_ArtifactID req))]\<rparr>))))"

definition record_outcome :: "time \<Rightarrow> string \<Rightarrow> CompleteRequestDTO \<Rightarrow> uid \<Rightarrow> db \<Rightarrow> db" where
  "record_outcome now resultDigest req stepID d =
     (let d = upd_attempts (\<lambda>b. a_id b = cq_AttemptID req)
                (\<lambda>b. b\<lparr>a_status := outcome_status (cq_Outcome req), a_digest := Some resultDigest,
                       a_error := map_option (\<lambda>e. \<lparr> e_code = te_Code e, e_retryable = te_Retryable e, e_effect = te_EffectStatus e \<rparr>) (cq_Error req),
                       a_completed := Some now\<rparr>) d;
          d = delete_leases (\<lambda>l. l_attempt l = cq_AttemptID req) d;
          stepState = (if cq_Outcome req = ''SUCCEEDED'' then S_SUCCEEDED else if cq_Outcome req = ''CANCELLED'' then S_CANCELLED else S_FAILED)
      in upd_steps (\<lambda>s. s_id s = stepID) (\<lambda>s. s\<lparr>s_state := stepState, s_output := Some (cq_Output req), s_wait := None\<rparr>) d)"

definition no_manifest :: deploymentManifest where
  "no_manifest = \<lparr> dm_TargetOS = [], dm_TargetArchitecture = [], dm_Tasks = [], dm_Workflows = [] \<rparr>"

text \<open>The policy and the fields of the error that decide between a retry, a hold and a failure.\<close>

definition retry_or_fail ::
    "(string \<Rightarrow> int option) \<Rightarrow> rat \<Rightarrow> time \<Rightarrow> deploymentManifest option \<Rightarrow> run_row \<Rightarrow> step_row \<Rightarrow> attempt_row \<Rightarrow> CompleteRequestDTO \<Rightarrow> db \<Rightarrow> db tx" where
  "retry_or_fail parse_date jitter now m r s a req d =
     (let policy = taskRetryPolicy (case m of None \<Rightarrow> no_manifest | Some m \<Rightarrow> m) (r_workflow r) (s_node s);
          errorCode = (case cq_Error req of
              Some e \<Rightarrow> if te_Code e \<noteq> [] then te_Code e else ''TASK_FAILED''
            | None \<Rightarrow> if cq_Outcome req = ''TIMED_OUT'' then ''ATTEMPT_TIMED_OUT'' else ''TASK_FAILED'');
          retryable = (case cq_Error req of Some e \<Rightarrow> te_Retryable e | None \<Rightarrow> True);
          effectStatus = (case cq_Error req of Some e \<Rightarrow> if te_EffectStatus e \<noteq> [] then te_EffectStatus e else ''UNKNOWN'' | None \<Rightarrow> ''UNKNOWN'');
          retryAfterRaw = (case cq_Error req of Some e \<Rightarrow> te_RetryAfter e | None \<Rightarrow> [])
      in ebind (scheduleRetryOrHoldTx parse_date jitter now (r_id r) (s_id s) (cq_AttemptID req) (a_number a) policy errorCode retryable
             effectStatus retryAfterRaw (r_deadline r) d) (\<lambda>(decision, d).
           case decision of
             Fail failCode \<Rightarrow> failRunForStepTx now (r_id r) (s_id s) (if failCode = [] then errorCode else failCode) None d
           | _ \<Rightarrow> Inr d))"

definition settle_outcome ::
    "externals \<Rightarrow> manifests \<Rightarrow> (string \<Rightarrow> int option) \<Rightarrow> rat \<Rightarrow> time \<Rightarrow> run_row \<Rightarrow> step_row \<Rightarrow> attempt_row \<Rightarrow> CompleteRequestDTO \<Rightarrow> db \<Rightarrow> db tx" where
  "settle_outcome c manifests parse_date jitter now r s a req d =
     (if cq_Outcome req = ''SUCCEEDED'' then advanceAfterStepSuccessTx c manifests now (r_id r) (cq_Output req) d
      else if cq_Outcome req = ''CANCELLED''
      then failRunForStepTx now (r_id r) (s_id s)
             (case cq_Error req of Some e \<Rightarrow> if te_Code e \<noteq> [] then te_Code e else ''TASK_CANCELLED'' | None \<Rightarrow> ''TASK_CANCELLED'') None d
      else retry_or_fail parse_date jitter now (manifests (r_deployment r)) r s a req d)"

definition complete_tx ::
    "externals \<Rightarrow> manifests \<Rightarrow> artifact_row list option \<Rightarrow> (string \<Rightarrow> int option) \<Rightarrow> rat \<Rightarrow> time \<Rightarrow> WorkerSessionContext \<Rightarrow>
     CompleteRequestDTO \<Rightarrow> attempt_row \<Rightarrow> step_row \<Rightarrow> run_row \<Rightarrow> db \<Rightarrow> (unit \<times> db) tx" where
  "complete_tx c manifests artifacts parse_date jitter now session req a s r d =
     ebind (scan_session a) (\<lambda>_.
       if \<not> owned_by (ws_SessionID session) (cq_OwnershipEpoch req) a then Inl ErrStaleOwnership
       else if terminalAttempt (a_status a)
       then
         (if a_digest a \<noteq> Some (cq_ResultDigest req) then Inl ErrResultConflict
          else if a_status a = A_CANCELLED \<and> (r_status r = R_CANCELLING \<or> r_status r = R_CANCELLED) then Inl ErrStaleOwnership
          else Inr ((), d))
       else
         (case (a_deadline a, find_lease d (cq_AttemptID req)) of
            (Some deadline, Some l) \<Rightarrow>
              if a_status a \<noteq> A_RUNNING then Inl ErrStaleOwnership
              else if \<not> lease_valid now (ws_SessionID session) (cq_OwnershipEpoch req) l \<or> \<not> now < deadline then Inl ErrStaleOwnership
              else
                ebind (check_result c artifacts (manifests (r_deployment r)) r s req d) (\<lambda>req'.
                ebind (appendRunEvent (r_id r) ''TASK_COMPLETED'' (record_outcome now (cq_ResultDigest req) req' (s_id s) d)) (\<lambda>d.
                ebind (settle_outcome c manifests parse_date jitter now r s a req' d) (\<lambda>d.
                ebind (settleHoldAfterCompletionTx (r_id r) d) (\<lambda>d.
                ebind (settlePauseAfterCompletionTx (r_id r) d) (\<lambda>d. Inr ((), d))))))
          | _ \<Rightarrow> Inl ErrStaleOwnership))"

definition Complete ::
    "externals \<Rightarrow> manifests \<Rightarrow> artifact_row list option \<Rightarrow> (string \<Rightarrow> int option) \<Rightarrow> rat \<Rightarrow> time \<Rightarrow> WorkerSessionContext \<Rightarrow>
     CompleteRequestDTO \<Rightarrow> db \<Rightarrow> (engine_error + unit) \<times> db" where
  "Complete c manifests artifacts parse_date jitter now session req d =
     (if cq_WorkerID req \<noteq> ws_WorkerID session \<or> cq_SessionID req \<noteq> ws_SessionID session then (Inl ErrUnauthorized, d)
      else if \<not> validOutcome (cq_Outcome req) then (Inl ErrInvalidOutcome, d)
      else if cq_Output req \<noteq> JNull \<and>
        (case CanonicalizeGeneric c (cq_Output req) of Inl _ \<Rightarrow> True | Inr b \<Rightarrow> int (length b) > MaxInlinePayloadBytes)
      then (Inl ErrPayloadTooLarge, d)
      else if CanonicalCompletionDigest c req \<noteq> Some (cq_ResultDigest req) then (Inl ErrResultConflict, d)
      else (case attempt_chain d (cq_AttemptID req) of
              None \<Rightarrow> (Inl ErrAttemptNotFound, d)
            | Some (a, s, r) \<Rightarrow>
                with_history_limit (r_id r) (complete_tx c manifests artifacts parse_date jitter now session req a s r d) d))"

section \<open>Stop acknowledgement\<close>

definition upd_stops :: "(stop_row \<Rightarrow> bool) \<Rightarrow> (stop_row \<Rightarrow> stop_row) \<Rightarrow> db \<Rightarrow> db" where
  "upd_stops P f d = d\<lparr>db_stops := upd P f (db_stops d)\<rparr>"

definition StopAck :: "time \<Rightarrow> WorkerSessionContext \<Rightarrow> StopAckRequestDTO \<Rightarrow> db \<Rightarrow> db tx" where
  "StopAck now session req d =
     (if sa_WorkerID req \<noteq> ws_WorkerID session \<or> sa_SessionID req \<noteq> ws_SessionID session then Inl ErrUnauthorized
      else (case find_attempt d (sa_AttemptID req) of
              None \<Rightarrow> Inr d
            | Some a \<Rightarrow>
                (case find_step d (a_step a) of
                   None \<Rightarrow> Inr d
                 | Some s \<Rightarrow>
                     ebind (scan_session a) (\<lambda>_.
                       if \<not> owned_by (ws_SessionID session) (sa_OwnershipEpoch req) a then Inl ErrStaleOwnership
                       else
                         ebind (settleCancellingRunTx now (s_run s)
                             (upd_stops (\<lambda>x. x_attempt x = sa_AttemptID req)
                                (\<lambda>x. x\<lparr>x_acked := (case x_acked x of None \<Rightarrow> Some now | Some t \<Rightarrow> Some t),
                                       x_confirmed := (if sa_ProcessStopped req then Some now else x_confirmed x)\<rparr>) d)) (\<lambda>(_, d). Inr d)))))"

section \<open>Fencing\<close>

text \<open>The live attempts of the worker's sessions that are not revoked, by run, step and attempt.\<close>

definition lost_attempts :: "uid list \<Rightarrow> db \<Rightarrow> (attempt_row \<times> step_row) list" where
  "lost_attempts sessions d =
     sort_key (\<lambda>(a, s). s_run s) (sort_key (\<lambda>(a, s). s_id s) (sort_key (\<lambda>(a, s). a_id a)
       (List.map_filter (\<lambda>a. if attempt_live (a_status a) \<and> (\<exists>i \<in> set sessions. a_session a = Some i)
           then Option.bind (find_step d (a_step a)) (\<lambda>s. map_option (\<lambda>_. (a, s)) (find_run d (s_run s))) else None) (db_attempts d))))"

definition fence_attempt :: "time \<Rightarrow> attempt_row \<times> step_row \<Rightarrow> db \<Rightarrow> db tx" where
  "fence_attempt now item d =
     (case item of (a, s) \<Rightarrow>
       (let d = upd_attempts (\<lambda>b. a_id b = a_id a \<and> attempt_live (a_status b))
                  (\<lambda>b. b\<lparr>a_status := A_LOST, a_completed := Some now,
                         a_error := Some \<lparr> e_code = ''OWNERSHIP_LOST'', e_retryable = False, e_effect = [] \<rparr>\<rparr>) d;
            d = delete_leases (\<lambda>l. l_attempt l = a_id a) d;
            d = upd_steps (\<lambda>t. s_id t = s_id s \<and> s_epoch t = a_epoch a \<and> s_state t = S_RUNNING)
                  (\<lambda>t. t\<lparr>s_state := S_WAITING, s_wait := Some ''RECOVERY_HANDOFF''\<rparr>) d;
            d = upd_runs (\<lambda>q. r_id q = s_run s \<and> r_status q \<in> {R_QUEUED, R_RUNNING})
                  (\<lambda>q. q\<lparr>r_status := R_WAITING, r_reason := Some ''RECOVERY_HANDOFF''\<rparr>) d
        in appendRunEvent (s_run s) ''TASK_LOST'' d))"

definition FenceWorkerSessions :: "time \<Rightarrow> bool \<Rightarrow> uid list \<Rightarrow> db \<Rightarrow> db tx" where
  "FenceWorkerSessions now worker_exists sessions d =
     (if \<not> worker_exists then Inl ErrNoRows else efold (fence_attempt now) (lost_attempts sessions d) d)"

section \<open>The engine's invariant\<close>

lemma upd_leases_simps [simp]:
  "db_runs (upd_leases P f d) = db_runs d" "db_steps (upd_leases P f d) = db_steps d" "db_attempts (upd_leases P f d) = db_attempts d"
  "db_leases (upd_leases P f d) = upd P f (db_leases d)" "db_timers (upd_leases P f d) = db_timers d" "db_cases (upd_leases P f d) = db_cases d"
  "db_approvals (upd_leases P f d) = db_approvals d" "db_stops (upd_leases P f d) = db_stops d" "db_events (upd_leases P f d) = db_events d"
  "db_next (upd_leases P f d) = db_next d" "history (upd_leases P f d) = history d"
  by (simp_all add: upd_leases_def history_def)

lemma upd_stops_simps [simp]:
  "db_runs (upd_stops P f d) = db_runs d" "db_steps (upd_stops P f d) = db_steps d" "db_attempts (upd_stops P f d) = db_attempts d"
  "db_leases (upd_stops P f d) = db_leases d" "db_timers (upd_stops P f d) = db_timers d" "db_cases (upd_stops P f d) = db_cases d"
  "db_approvals (upd_stops P f d) = db_approvals d" "db_stops (upd_stops P f d) = upd P f (db_stops d)" "db_events (upd_stops P f d) = db_events d"
  "db_next (upd_stops P f d) = db_next d" "history (upd_stops P f d) = history d"
  by (simp_all add: upd_stops_def history_def)

lemma leased_upd:
  assumes "leased as ls" and "\<And>l. l_step (f l) = l_step l \<and> l_attempt (f l) = l_attempt l \<and> l_session (f l) = l_session l \<and> l_epoch (f l) = l_epoch l"
  shows "leased as (upd P f ls)"
proof -
  have "map l_step (upd P f ls) = map l_step ls" by (rule ids_upd) (simp add: assms(2))
  then show ?thesis using assms by (simp add: leased_def ball_upd lease_of_def)
qed

lemma step_ok_upd_leases: "step_ok d x \<Longrightarrow> step_ok d (upd_leases P (\<lambda>l. l\<lparr>l_expires := t\<rparr>) x)"
  by (rule step_ok_same [of d x]) (simp_all add: leased_upd)

lemma step_ok_upd_stops: "step_ok d x \<Longrightarrow> step_ok d (upd_stops P f x)"
  by (rule step_ok_same [of d x]) simp_all

lemma find_attempt_id: "find_attempt d aid = Some a \<Longrightarrow> a \<in> set (db_attempts d) \<and> a_id a = aid"
  unfolding find_attempt_def by (rule find_Some_set)

lemma find_attempt_unique:
  assumes "inv d" and "find_attempt d aid = Some a" and "b \<in> set (db_attempts d)" and "a_id b = aid"
  shows "b = a"
proof -
  have "inj_on a_id (set (db_attempts d))" using assms(1) by (simp add: inv_def ids_ok_def distinct_map)
  then show ?thesis using assms(3,4) find_attempt_id [OF assms(2)] by (simp add: inj_on_def)
qed

lemma attempt_chainE:
  assumes "attempt_chain d aid = Some (a, s, r)"
  shows "find_attempt d aid = Some a" "find_step d (a_step a) = Some s" "find_run d (s_run s) = Some r" "r_id r = s_run s"
    "s_id s = a_step a"
  using assms find_run_id [of d "s_run s" r] find_step_id [of d "a_step a" s]
  by (auto simp: attempt_chain_def split: option.splits)

lemma TerminalizeHistoryLimitExceeded_ok:
  "step_ok d x \<Longrightarrow> holds (step_ok d) (TerminalizeHistoryLimitExceeded rid x)"
proof -
  let ?u = "upd_steps (\<lambda>s. s_run s = rid \<and> s_state s \<in> {S_BLOCKED, S_READY, S_WAITING}) (\<lambda>s. s\<lparr>s_state := S_CANCELLED\<rparr>) x"
  assume x: "step_ok d x"
  have u: "step_ok d ?u" by (rule step_ok_upd_steps [OF x]) (auto simp: step_le_def)
  have "holds (step_ok d) (case appendRunEvent rid t ?u of Inl e \<Rightarrow> if e = ErrHistoryLimitExceeded then Inr ?u else Inl e | Inr y \<Rightarrow> Inr y)" for t
    using step_ok_appendRunEvent [OF u] u by (auto simp: holds_def split: sum.split)
  then show ?thesis
    unfolding TerminalizeHistoryLimitExceeded_def Let_def using x
    by (auto split: option.split intro!: step_ok_bind step_ok_upd_runs simp: run_le_def)
qed

lemma with_history_limit_ok:
  assumes "returns_ok d t"
  shows "step_ok d (snd (with_history_limit rid t d))"
  using assms TerminalizeHistoryLimitExceeded_ok [OF step_ok_refl, of d rid]
  by (auto simp: with_history_limit_def returns_ok_def holds_def split: sum.split prod.split)

lemma start_tx_ok:
  assumes "attempt_chain d (st_AttemptID req) = Some (a, s, r)"
  shows "returns_ok d (start_tx now session req a r d)"
proof (rule returns_step_okI [OF step_ok_refl])
  assume i: "inv d"
  have u: "attempt_live (a_status b)" if "a_status a = A_CLAIMED" "b \<in> set (db_attempts d)" "a_id b = st_AttemptID req" for b
    using find_attempt_unique [OF i attempt_chainE(1) [OF assms]] that by (simp add: attempt_live_def)
  have started: "step_ok d (upd_attempts (\<lambda>b. a_id b = st_AttemptID req) (\<lambda>b. b\<lparr>a_status := A_RUNNING, a_started := t, a_deadline := dl\<rparr>) d)"
    if "a_status a = A_CLAIMED" for t dl
    by (rule step_ok_upd_attempts [OF step_ok_refl]) (use u [OF that] in \<open>simp add: attempt_le_def attempt_live_def\<close>)
  show "returns_ok d (start_tx now session req a r d)"
    unfolding start_tx_def scan_session_def Let_def
    by (auto split: option.split intro!: returns_ok_bind step_ok_appendRunEvent step_ok_upd_runs started simp: run_le_def)
qed

lemma Start_ok: "step_ok d (snd (Start now session req d))"
  unfolding Start_def by (auto split: option.split intro!: with_history_limit_ok start_tx_ok)

lemma heartbeat_item_ok:
  "step_ok d x \<Longrightarrow> holds (\<lambda>(rs, ss, y). step_ok d y) (heartbeat_item now session item (rs, ss, x))"
  unfolding heartbeat_item_def scan_session_def prod.case Let_def
  by (auto split: option.split AttemptStatus.split intro!: step_ok_upd_leases)

lemma Heartbeat_ok: "holds (\<lambda>(rs, ss, y). step_ok d y) (Heartbeat now session req d)"
proof -
  have "holds (\<lambda>(rs, ss, y). step_ok d y) (efold (heartbeat_item now session) items ([], [], d))" for items
    by (rule holds_efold) (use heartbeat_item_ok in force, simp)
  then show ?thesis by (simp add: Heartbeat_def)
qed

lemma StopAck_ok: "holds (step_ok d) (StopAck now session req d)"
  unfolding StopAck_def scan_session_def
  by (auto split: option.split intro!: step_ok_bind2 [OF settleCancellingRunTx_ok] step_ok_upd_stops)

text \<open>The epoch names the attempt: where the step still has the epoch of an attempt that has ended, it has no
  live one.\<close>

lemma epoch_unique:
  assumes "inv x" and "a \<in> set (db_attempts x)" and "b \<in> set (db_attempts x)" and "a_step b = a_step a" and "a_epoch b = a_epoch a"
  shows "b = a"
proof -
  have "inj_on (\<lambda>a. (a_step a, a_epoch a)) (set (db_attempts x))" using assms(1) by (simp add: inv_def fenced_def distinct_map)
  then show ?thesis using assms(2-) by (simp add: inj_on_def)
qed

lemma ended_no_live:
  assumes "inv x" and "a \<in> set (db_attempts x)" and "\<not> attempt_live (a_status a)" and "t \<in> set (db_steps x)" and "s_id t = a_step a"
    and "s_epoch t = a_epoch a"
  shows "no_live x (s_id t)"
  unfolding no_live_def
proof (intro ballI impI notI)
  fix b assume b: "b \<in> set (db_attempts x)" "a_step b = s_id t" "attempt_live (a_status b)"
  then have "a_epoch b = s_epoch t" using assms(1,4) by (auto simp: inv_def fenced_def fence_def)
  then have "b = a" using epoch_unique [OF assms(1,2) b(1)] assms(5,6) b(2) by simp
  then show False using b(3) assms(3) by simp
qed

lemma fence_attempt_ok:
  assumes x: "step_ok d x" and a: "inv d \<Longrightarrow> a \<in> set (db_attempts d)" "a_step a = s_id s"
  shows "holds (step_ok d) (fence_attempt now (a, s) x)"
proof -
  define y where "y = delete_leases (\<lambda>l. l_attempt l = a_id a) (upd_attempts (\<lambda>b. a_id b = a_id a \<and> attempt_live (a_status b))
     (\<lambda>b. b\<lparr>a_status := A_LOST, a_completed := Some now, a_error := Some \<lparr> e_code = ''OWNERSHIP_LOST'', e_retryable = False, e_effect = [] \<rparr>\<rparr>) x)"
  have y: "step_ok d y"
    unfolding y_def by (rule step_ok_end_attempts [OF x]) (auto simp: attempt_le_def lease_of_def)
  have free: "no_live y (s_id t)" if d: "inv d" and t: "t \<in> set (db_steps y)" "s_id t = s_id s" "s_epoch t = a_epoch a" for t
  proof -
    have "grows attempt_le (db_attempts d) (db_attempts x)" using x d by (simp add: step_ok_def extends_def)
    from growsD [OF this a(1) [OF d]] obtain b where b: "b \<in> set (db_attempts x)" "attempt_le a b" ..
    define b' where "b' = (if attempt_live (a_status b) then b\<lparr>a_status := A_LOST, a_completed := Some now,
        a_error := Some \<lparr> e_code = ''OWNERSHIP_LOST'', e_retryable = False, e_effect = [] \<rparr>\<rparr> else b)"
    have "b' \<in> (\<lambda>b. if a_id b = a_id a \<and> attempt_live (a_status b) then b\<lparr>a_status := A_LOST, a_completed := Some now,
        a_error := Some \<lparr> e_code = ''OWNERSHIP_LOST'', e_retryable = False, e_effect = [] \<rparr>\<rparr> else b) ` set (db_attempts x)"
      by (rule image_eqI [OF _ b(1)]) (use b(2) in \<open>simp add: b'_def attempt_le_def\<close>)
    then have "b' \<in> set (db_attempts y)" by (simp add: y_def upd_def)
    moreover have "\<not> attempt_live (a_status b')" "a_step b' = s_id s" "a_epoch b' = a_epoch a"
      using b(2) a(2) by (auto simp: b'_def attempt_le_def attempt_live_def)
    ultimately show ?thesis using ended_no_live [of y b' t] y d t by (simp add: step_ok_def)
  qed
  show ?thesis
  proof (cases "inv d")
    case True
    have "step_ok d (upd_steps (\<lambda>t. s_id t = s_id s \<and> s_epoch t = a_epoch a \<and> s_state t = S_RUNNING)
        (\<lambda>t. t\<lparr>s_state := S_WAITING, s_wait := Some ''RECOVERY_HANDOFF''\<rparr>) y)"
      by (rule step_ok_upd_steps [OF y]) (use free [OF True] in \<open>auto simp: step_le_def\<close>)
    then show ?thesis
      unfolding fence_attempt_def Let_def prod.case y_def [symmetric]
      by (intro step_ok_appendRunEvent step_ok_upd_runs) (auto simp: run_le_def)
  qed (auto simp: holds_def step_ok_def)
qed

lemma FenceWorkerSessions_ok: "holds (step_ok d) (FenceWorkerSessions now b sessions d)"
proof -
  have "holds (step_ok d) (efold (fence_attempt now) (lost_attempts sessions d) d)"
  proof (rule holds_efold)
    fix item x assume i: "item \<in> set (lost_attempts sessions d)" and x: "step_ok d x"
    have "fst item \<in> set (db_attempts d) \<and> a_step (fst item) = s_id (snd item)"
      using i find_step_id by (fastforce simp: lost_attempts_def in_map_filter bind_eq_Some_conv split: if_splits)
    then show "holds (step_ok d) (fence_attempt now item x)" using x by (cases item) (simp add: fence_attempt_ok)
  qed simp
  then show ?thesis by (simp add: FenceWorkerSessions_def)
qed

text \<open>What a completion relies on: the step of the attempt is RUNNING, and its run has neither succeeded nor
  been cancelled.\<close>

definition executing :: "db \<Rightarrow> uid \<Rightarrow> bool" where
  "executing d aid = (case attempt_chain d aid of
     None \<Rightarrow> True | Some (a, s, r) \<Rightarrow> s_state s = S_RUNNING \<and> r_status r \<notin> {R_SUCCEEDED, R_CANCELLED})"

lemma executing_open:
  assumes "attempt_chain d aid = Some (a, s, r)" and "executing d aid" and "inv d"
  shows "step_open d (s_id s)" "run_failable d (r_id r)"
proof -
  note C = attempt_chainE [OF assms(1)]
  show "step_open d (s_id s)" using find_step_at [OF assms(3) C(2)] C(5) assms(1,2) by (simp add: executing_def)
  show "run_failable d (r_id r)" using find_run_at [OF assms(3) C(3)] C(4) assms(1,2) by (simp add: executing_def)
qed

lemma outcome_status_ended [simp]: "\<not> attempt_live (outcome_status oc)"
  by (simp add: outcome_status_def attempt_live_def)

text \<open>Ending the live attempt of a step leaves the step without one.\<close>

lemma ending_frees:
  assumes "inv d" and a: "a \<in> set (db_attempts d)" "attempt_live (a_status a)" and "Q a" and f: "\<And>b. \<not> attempt_live (a_status (f b))" "\<And>b. a_step (f b) = a_step b"
  shows "no_live (upd_attempts (\<lambda>b. a_id b = a_id a \<and> Q b) f d) (a_step a)"
proof -
  obtain s where s: "s \<in> set (db_steps d)" "s_id s = a_step a" using assms(1) a(1) by (auto simp: inv_def fenced_def)
  have "b = a" if b: "b \<in> set (db_attempts d)" "a_step b = a_step a" "attempt_live (a_status b)" for b
  proof -
    have "fence s a" "fence s b" using assms(1) a(1) b(1,2) s by (auto simp: inv_def fenced_def)
    then have "a_epoch b = a_epoch a" using a(2) b(3) by (simp add: fence_def)
    then show ?thesis using epoch_unique [OF assms(1) a(1) b(1,2)] by simp
  qed
  then show ?thesis using f assms(4) by (auto simp: no_live_def ball_upd)
qed

lemma outcome_frees:
  assumes "attempt_chain d aid = Some (a, s, r)" and "attempt_live (a_status a)" and "inv d" and "\<And>b. \<not> attempt_live (a_status (f b))"
    and "\<And>b. a_step (f b) = a_step b"
  shows "no_live (upd_attempts (\<lambda>b. a_id b = aid) f d) (s_id s)"
  using ending_frees [OF assms(3) _ assms(2), of "\<lambda>_. True" f] attempt_chainE [OF assms(1)] find_attempt_id [of d aid a]
    find_step_id [of d "a_step a" s] assms(4,5) by simp

lemma record_outcome_ok:
  assumes "attempt_chain d (cq_AttemptID req) = Some (a, s, r)" and "attempt_live (a_status a)" and "inv d \<Longrightarrow> step_open d (s_id s)"
  shows "step_ok d (record_outcome now dig req (s_id s) d)"
proof -
  let ?f = "\<lambda>b. b\<lparr>a_status := outcome_status (cq_Outcome req), a_digest := Some dig,
      a_error := map_option (\<lambda>e. \<lparr> e_code = te_Code e, e_retryable = te_Retryable e, e_effect = te_EffectStatus e \<rparr>) (cq_Error req),
      a_completed := Some now\<rparr>"
  let ?y = "delete_leases (\<lambda>l. l_attempt l = cq_AttemptID req) (upd_attempts (\<lambda>b. a_id b = cq_AttemptID req) ?f d)"
  have y: "step_ok d ?y"
  proof (rule step_ok_end_attempts [OF step_ok_refl])
    fix b assume i: "inv d" and b: "b \<in> set (db_attempts d)" "a_id b = cq_AttemptID req"
    have "b = a" by (rule find_attempt_unique [OF i attempt_chainE(1) [OF assms(1)] b])
    then show "attempt_le b (?f b)" using assms(2) by (simp add: attempt_le_def)
  qed (simp add: lease_of_def)
  have free: "inv ?y \<Longrightarrow> no_live ?y (s_id s)" if "inv d"
    using outcome_frees [OF assms(1,2) that, of ?f] by simp
  have "step_ok d (upd_steps (\<lambda>t. s_id t = s_id s \<and> True) (\<lambda>t. t\<lparr>s_state := st, s_output := Some out, s_wait := None\<rparr>) ?y)" if "inv d" for st out
    by (rule step_ok_upd_open_step [OF y assms(3) free [OF that]]) simp_all
  then show ?thesis
    unfolding record_outcome_def Let_def by (cases "inv d") (simp_all add: step_ok_def)
qed

lemma record_outcome_no_live:
  "attempt_chain d (cq_AttemptID req) = Some (a, s, r) \<Longrightarrow> attempt_live (a_status a) \<Longrightarrow> inv d \<Longrightarrow>
    no_live (record_outcome now dig req (s_id s) d) (s_id s)"
  unfolding record_outcome_def Let_def by (simp add: outcome_frees)

lemma record_outcome_at:
  "run_at Q (record_outcome now dig req sid d) = run_at Q d"
  "cq_Outcome req \<noteq> ''SUCCEEDED'' \<Longrightarrow> step_failable (record_outcome now dig req sid d) sid"
proof -
  show "run_at Q (record_outcome now dig req sid d) = run_at Q d" by (simp add: record_outcome_def Let_def)
  have "step_failable (upd_steps (\<lambda>s. s_id s = sid) (\<lambda>s. s\<lparr>s_state := st, s_output := o', s_wait := None\<rparr>) x) sid"
    if "st \<in> {S_CANCELLED, S_FAILED}" for st o' x
    using that by (auto simp add: step_at_def ball_upd)
  then show "step_failable (record_outcome now dig req sid d) sid" if "cq_Outcome req \<noteq> ''SUCCEEDED''"
    using that unfolding record_outcome_def Let_def by simp
qed

text \<open>The decision about a failed attempt, and the failure of the run where it is not retried or held.\<close>

lemma schedule_or_fail_ok:
  assumes "step_ok d x" and "inv d \<Longrightarrow> step_open d sid" and "run_failable x rid" and "step_failable x sid" and "no_live x sid"
  shows "holds (step_ok d) (ebind (scheduleRetryOrHoldTx pd j now rid sid aid n policy code rt eff ra dl x) (\<lambda>(dec, y).
      case dec of Fail c \<Rightarrow> failRunForStepTx now rid sid (if c = [] then e else c) None y | _ \<Rightarrow> Inr y))"
proof (cases "scheduleRetryOrHoldTx pd j now rid sid aid n policy code rt eff ra dl x")
  case (Inr p)
  obtain dec y where p: "p = (dec, y)" by (cases p)
  note sch = Inr [unfolded p]
  have y: "step_ok d y" using scheduleRetryOrHoldTx_from [OF assms(1,2,5)] sch by (metis returns_ok_simps(1))
  have "holds (step_ok d) (case dec of Fail c \<Rightarrow> failRunForStepTx now rid sid (if c = [] then e else c) None y | _ \<Rightarrow> Inr y)"
  proof (cases dec)
    case (Fail c)
    have "backfilled sid x y" by (rule scheduleRetryOrHoldTx_cases [OF sch]) (use Fail in simp_all)
    then have "run_failable y rid" "step_failable y sid"
      using assms(3,4) by (auto simp: backfilled_def run_at_def step_at_set_valid_until)
    then show ?thesis using Fail y by (simp add: failRunForStepTx_step_ok)
  qed (use y in simp_all)
  then show ?thesis using Inr p by simp
qed simp

lemma retry_or_fail_ok:
  assumes "step_ok d x" and "inv d \<Longrightarrow> step_open d (s_id s)" and "run_failable x (r_id r)" and "step_failable x (s_id s)" and "no_live x (s_id s)"
  shows "holds (step_ok d) (retry_or_fail pd j now m r s a req x)"
  unfolding retry_or_fail_def Let_def by (rule schedule_or_fail_ok [OF assms])

lemma settle_outcome_ok:
  assumes "step_ok d x" and "inv d \<Longrightarrow> step_open d (s_id s)" and "run_failable x (r_id r)"
    and "cq_Outcome req \<noteq> ''SUCCEEDED'' \<Longrightarrow> step_failable x (s_id s)" and "no_live x (s_id s)"
  shows "holds (step_ok d) (settle_outcome c manifests pd j now r s a req x)"
  unfolding settle_outcome_def using assms
  by (auto intro!: advanceAfterStepSuccessTx_ok failRunForStepTx_step_ok retry_or_fail_ok)

lemma complete_tx_ok:
  assumes c: "attempt_chain d (cq_AttemptID req) = Some (a, s, r)" and l: "executing d (cq_AttemptID req)"
  shows "returns_ok d (complete_tx c manifests artifacts pd j now session req a s r d)"
proof (rule returns_step_okI [OF step_ok_refl])
  assume i: "inv d"
  note open' = executing_open [OF c l i]
  have "returns_ok d (ebind (check_result c artifacts m r s req d) (\<lambda>req'.
      ebind (appendRunEvent (r_id r) e (record_outcome now dig req' (s_id s) d)) (\<lambda>d.
      ebind (settle_outcome c manifests pd j now r s a req' d) (\<lambda>d.
      ebind (settleHoldAfterCompletionTx (r_id r) d) (\<lambda>d.
      ebind (settlePauseAfterCompletionTx (r_id r) d) (\<lambda>d. Inr ((), d)))))))" if live: "attempt_live (a_status a)" for m e dig
  proof (cases "check_result c artifacts m r s req d")
    case (Inr req')
    have aid: "cq_AttemptID req' = cq_AttemptID req"
      using Inr by (auto simp: check_result_def check_schema_def failed_request_def Let_def split: if_splits option.splits sum.splits)
    let ?J = "\<lambda>x. step_ok d x \<and> run_failable x (r_id r) \<and> no_live x (s_id s) \<and> (cq_Outcome req' \<noteq> ''SUCCEEDED'' \<longrightarrow> step_failable x (s_id s))"
    have "step_ok d (record_outcome now dig req' (s_id s) d)"
      by (rule record_outcome_ok [of d req' a s r]) (use c aid live open' in auto)
    then have 1: "holds ?J (appendRunEvent (r_id r) e (record_outcome now dig req' (s_id s) d))"
      using step_ok_appendRunEvent [of d "record_outcome now dig req' (s_id s) d"] appendRunEvent_at open' record_outcome_at
        appendRunEvent_no_live record_outcome_no_live [of d req' a s r now dig] c aid live i
      by (auto simp: holds_def)
    have 2: "holds (step_ok d) (settle_outcome c manifests pd j now r s a req' x)" if "?J x" for x
      using that open' by (auto intro!: settle_outcome_ok)
    show ?thesis
      unfolding Inr ebind_simps
      by (rule returns_ok_bindP [OF 1])
        (auto intro!: returns_ok_bind [OF 2] returns_ok_bind [OF settleHoldAfterCompletionTx_ok] returns_ok_bind [OF settlePauseAfterCompletionTx_ok])
  qed simp
  then show "returns_ok d (complete_tx c manifests artifacts pd j now session req a s r d)"
    unfolding complete_tx_def scan_session_def
    by (auto split: option.split simp: terminalAttempt_def attempt_live_def)
qed

lemma Complete_ok: "executing d (cq_AttemptID req) \<Longrightarrow> step_ok d (snd (Complete c manifests artifacts pd j now session req d))"
  unfolding Complete_def by (auto split: option.split intro!: with_history_limit_ok complete_tx_ok)

section \<open>A result is accepted once\<close>

lemma extends_attempt:
  "extends d d' \<Longrightarrow> find_attempt d aid = Some a \<Longrightarrow> \<not> attempt_live (a_status a) \<Longrightarrow> find_attempt d' aid = Some a"
  using grows_find [of attempt_le "db_attempts d" "db_attempts d'" a_id aid a] by (auto simp: extends_def find_attempt_def attempt_le_def)

lemma scheduleRetryOrHoldTx_attempts:
  assumes "scheduleRetryOrHoldTx pd j now rid sid aid n policy code rt eff ra dl d = Inr (dec, d')"
  shows "db_attempts d' = db_attempts d"
proof (rule scheduleRetryOrHoldTx_cases [OF assms])
  show ?thesis if "backfilled sid d d'" using that by (auto simp: backfilled_def)
  show ?thesis if "backfilled sid d y" "routeStepToReconciliationTx rid sid (Some aid) reason y = Inr d'" for y reason
    using that by (auto simp: backfilled_def routeStepToReconciliationTx_def insertReconciliationCaseTx_def Let_def appendRunEventD(3))
  show ?thesis if w: "retry_window now sid policy v d = Inr (None, y)" and p: "park_for_retry rid sid m code due y = Inr (Retry, d')" for v y m due
  proof -
    obtain due' b x where i: "insert_timer ''RETRY_BACKOFF'' rid sid (Some m) code due y = (due', b, x)"
      by (cases "insert_timer ''RETRY_BACKOFF'' rid sid (Some m) code due y")
    have "db_attempts d' = db_attempts x"
      using p unfolding park_for_retry_def i prod.case Let_def by (auto simp: appendRunEventD(3) recomputeRunStatusForRetryTx_def)
    then show ?thesis using insert_timer_steps(3) [OF i] retry_window_backfilled [OF w] by (auto simp: backfilled_def)
  qed
qed

lemma find_map_id: "(\<And>x. k (f x) = k x) \<Longrightarrow> List.find (\<lambda>x. k x = i) (map f xs) = map_option f (List.find (\<lambda>x. k x = i) xs)"
  by (induction xs) auto

lemma find_attempt_failed:
  assumes "failRunForStepTx now rid sid code actor d = Inr d'" and "find_attempt d aid = Some a" and "\<not> attempt_live (a_status a)"
  shows "find_attempt d' aid = Some a"
  using assms(2,3) unfolding find_attempt_def failRunForStepTxD(2) [OF assms(1)] by (simp add: find_map_id)

lemma retry_or_fail_attempt:
  assumes "retry_or_fail pd j now m r s a req x = Inr y" and "find_attempt x aid = Some b" and "\<not> attempt_live (a_status b)"
  shows "find_attempt y aid = Some b"
proof -
  obtain n policy code rt eff ra dec z where
    sch: "scheduleRetryOrHoldTx pd j now (r_id r) (s_id s) (cq_AttemptID req) n policy code rt eff ra (r_deadline r) x = Inr (dec, z)"
    and y: "(case dec of Fail c \<Rightarrow> failRunForStepTx now (r_id r) (s_id s) (if c = [] then code else c) None z | _ \<Rightarrow> Inr z) = Inr y"
    using assms(1) unfolding retry_or_fail_def Let_def by (auto dest!: holds_ebindD)
  have "find_attempt z aid = Some b" using assms(2) scheduleRetryOrHoldTx_attempts [OF sch] by (simp add: find_attempt_def)
  then show ?thesis using y assms(3) by (cases dec) (auto intro: find_attempt_failed)
qed

lemma settle_outcome_attempt:
  assumes "settle_outcome c manifests pd j now r s a req x = Inr y" and "inv x" and "run_failable x (r_id r)"
    and "find_attempt x aid = Some b" and "\<not> attempt_live (a_status b)"
  shows "find_attempt y aid = Some b"
proof -
  have "extends x z" if "advanceAfterStepSuccessTx c manifests now (r_id r) (cq_Output req) x = Inr z" for z
    using advanceAfterStepSuccessTx_ok [OF step_ok_refl, of x] assms(2,3) that unfolding holds_def step_ok_def by blast
  then show ?thesis
    using assms(1,4,5) unfolding settle_outcome_def
    by (auto split: if_splits intro: find_attempt_failed retry_or_fail_attempt extends_attempt)
qed

lemma complete_txE:
  assumes "complete_tx c manifests artifacts pd j now session req a s r d = Inr (u, d')" and "attempt_live (a_status a)"
  obtains l t req' x y z where "a_status a = A_RUNNING" "owned_by (ws_SessionID session) (cq_OwnershipEpoch req) a"
    "find_lease d (cq_AttemptID req) = Some l" "lease_valid now (ws_SessionID session) (cq_OwnershipEpoch req) l"
    "a_deadline a = Some t" "now < t" "check_result c artifacts (manifests (r_deployment r)) r s req d = Inr req'"
    "appendRunEvent (r_id r) ''TASK_COMPLETED'' (record_outcome now (cq_ResultDigest req) req' (s_id s) d) = Inr x"
    "settle_outcome c manifests pd j now r s a req' x = Inr y" "settleHoldAfterCompletionTx (r_id r) y = Inr z"
    "settlePauseAfterCompletionTx (r_id r) z = Inr d'"
proof -
  have "\<not> terminalAttempt (a_status a)" using assms(2) by (auto simp: terminalAttempt_def attempt_live_def)
  then show thesis
    using assms(1) that unfolding complete_tx_def scan_session_def by (auto split: option.splits if_splits)
qed

lemma check_result_attempt: "check_result c artifacts m r s req d = Inr req' \<Longrightarrow> cq_AttemptID req' = cq_AttemptID req"
  by (auto simp: check_result_def check_schema_def failed_request_def Let_def split: if_splits option.splits sum.splits)

lemma record_outcome_attempt:
  assumes "find_attempt d (cq_AttemptID req) = Some a"
  shows "\<exists>a'. find_attempt (record_outcome now dig req sid d) (cq_AttemptID req) = Some a' \<and> \<not> attempt_live (a_status a') \<and> a_digest a' = Some dig"
  using assms find_attempt_id [OF assms]
  by (simp add: record_outcome_def find_attempt_def Let_def find_upd outcome_status_def attempt_live_def)

text \<open>What an accepted completion of a live attempt has checked and recorded.\<close>

lemma complete_tx_records:
  assumes tx: "complete_tx c manifests artifacts pd j now session req a s r d = Inr (u, d')"
    and chain: "attempt_chain d (cq_AttemptID req) = Some (a, s, r)" and live: "attempt_live (a_status a)" and i: "inv d" and l: "executing d (cq_AttemptID req)"
  shows "\<exists>a'. find_attempt d' (cq_AttemptID req) = Some a' \<and> \<not> attempt_live (a_status a') \<and> a_digest a' = Some (cq_ResultDigest req)"
proof (rule complete_txE [OF tx live])
  fix req' x y z
  let ?x = "record_outcome now (cq_ResultDigest req) req' (s_id s) d"
  assume req': "check_result c artifacts (manifests (r_deployment r)) r s req d = Inr req'"
    and x: "appendRunEvent (r_id r) ''TASK_COMPLETED'' ?x = Inr x" and y: "settle_outcome c manifests pd j now r s a req' x = Inr y"
    and z: "settleHoldAfterCompletionTx (r_id r) y = Inr z" and d': "settlePauseAfterCompletionTx (r_id r) z = Inr d'"
  note C = attempt_chainE [OF chain] and aid = check_result_attempt [OF req']
  note open' = executing_open [OF chain l i]
  have "step_ok d ?x" by (rule record_outcome_ok [of d req' a s r]) (use chain aid live open' in auto)
  then have ok: "step_ok d x" using step_ok_appendRunEvent x by (auto simp: holds_def)
  then have ix: "inv x" using i by (simp add: step_ok_def)
  have f: "run_failable x (r_id r)" "cq_Outcome req' \<noteq> ''SUCCEEDED'' \<Longrightarrow> step_failable x (s_id s)"
    using appendRunEvent_at [OF x] record_outcome_at open'(2) by auto
  have free: "no_live x (s_id s)" using appendRunEvent_no_live [OF x] record_outcome_no_live [of d req' a s r] chain aid live i by simp
  obtain a' where a': "find_attempt ?x (cq_AttemptID req) = Some a'" "\<not> attempt_live (a_status a')" "a_digest a' = Some (cq_ResultDigest req)"
    using record_outcome_attempt [of d req'] C(1) aid by metis
  then have "find_attempt x (cq_AttemptID req) = Some a'" using appendRunEventD(3) [OF x] by (simp add: find_attempt_def)
  then have y': "find_attempt y (cq_AttemptID req) = Some a'" by (rule settle_outcome_attempt [OF y ix f(1)]) (rule a'(2))
  have "step_ok d y" using settle_outcome_ok [OF ok open'(1) f free] y unfolding holds_def by blast
  then have "inv y" using i by (simp add: step_ok_def)
  moreover have "step_ok y d'"
    using settleHoldAfterCompletionTx_ok [OF step_ok_refl, of y] settlePauseAfterCompletionTx_ok [of y z] z d' unfolding holds_def by blast
  ultimately have "extends y d'" by (simp add: step_ok_def)
  then show ?thesis using extends_attempt [OF _ y' a'(2)] a' by blast
qed

lemma ended_attempt_fixed:
  assumes "find_attempt d (cq_AttemptID req) = Some a" and "\<not> attempt_live (a_status a)"
  shows "snd (Complete c manifests artifacts pd j now session req d) = d \<and>
    (fst (Complete c manifests artifacts pd j now session req d) = Inr () \<longrightarrow> a_digest a = Some (cq_ResultDigest req))"
proof (cases "attempt_chain d (cq_AttemptID req)")
  case None
  then show ?thesis by (simp add: Complete_def)
next
  case (Some p)
  obtain b s r where p: "p = (b, s, r)" by (cases p)
  have b: "b = a" using attempt_chainE(1) [OF Some [unfolded p]] assms(1) by simp
  have t: "terminalAttempt (a_status a)" using assms(2) by (cases "a_status a") (simp_all add: terminalAttempt_def attempt_live_def)
  let ?tx = "complete_tx c manifests artifacts pd j now session req a s r d"
  have "?tx = Inr ((), d) \<and> a_digest a = Some (cq_ResultDigest req) \<or> (\<exists>e. ?tx = Inl e \<and> e \<noteq> ErrHistoryLimitExceeded)"
    using t by (simp add: complete_tx_def scan_session_def split: option.split)
  then have w: "with_history_limit (r_id r) ?tx d = (Inr (), d) \<and> a_digest a = Some (cq_ResultDigest req) \<or>
      (\<exists>e. with_history_limit (r_id r) ?tx d = (Inl e, d))"
    by (elim disjE exE conjE) (simp_all add: with_history_limit_def)
  show ?thesis unfolding Complete_def Some p b option.case prod.case using w by (elim disjE exE conjE) simp_all
qed

text \<open>C2: a result is accepted once.  A completion that is accepted for an attempt still executing carries
  the digest of its content, and comes from the session and epoch that own the attempt, under a lease
  and a deadline that have not passed.  It ends the attempt and records the digest; in every later state
  no completion of the attempt changes anything, and only one with the same digest is acknowledged.\<close>

theorem Complete_once:
  assumes "Complete c manifests artifacts parse_date jitter now session req d = (Inr (), d')"
    and "find_attempt d (cq_AttemptID req) = Some a" and "attempt_live (a_status a)" and "inv d" and "executing d (cq_AttemptID req)"
  shows "a_status a = A_RUNNING \<and> owned_by (ws_SessionID session) (cq_OwnershipEpoch req) a \<and>
    (\<exists>l. find_lease d (cq_AttemptID req) = Some l \<and> lease_valid now (ws_SessionID session) (cq_OwnershipEpoch req) l) \<and>
    (\<exists>t. a_deadline a = Some t \<and> now < t) \<and> CanonicalCompletionDigest c req = Some (cq_ResultDigest req) \<and>
    (\<forall>c' manifests' artifacts' parse_date' jitter' now' session' req' later.
       extends d' later \<and> cq_AttemptID req' = cq_AttemptID req \<longrightarrow>
       snd (Complete c' manifests' artifacts' parse_date' jitter' now' session' req' later) = later \<and>
       (fst (Complete c' manifests' artifacts' parse_date' jitter' now' session' req' later) = Inr () \<longrightarrow> cq_ResultDigest req' = cq_ResultDigest req))"
proof -
  have g: "cq_WorkerID req = ws_WorkerID session \<and> cq_SessionID req = ws_SessionID session" "CanonicalCompletionDigest c req = Some (cq_ResultDigest req)"
    using assms(1) by (auto simp: Complete_def split: if_splits)
  obtain p where "attempt_chain d (cq_AttemptID req) = Some p"
    using assms(1) by (cases "attempt_chain d (cq_AttemptID req)") (auto simp: Complete_def split: if_splits)
  then obtain b s r where ch: "attempt_chain d (cq_AttemptID req) = Some (b, s, r)" by (cases p) simp
  have b: "b = a" using attempt_chainE(1) [OF ch] assms(2) by simp
  have tx: "complete_tx c manifests artifacts parse_date jitter now session req a s r d = Inr ((), d')"
    using assms(1) ch b g by (auto simp: Complete_def with_history_limit_def split: if_splits sum.splits)
  obtain a' where a': "find_attempt d' (cq_AttemptID req) = Some a'" "\<not> attempt_live (a_status a')" "a_digest a' = Some (cq_ResultDigest req)"
    using complete_tx_records [OF tx ch [unfolded b] assms(3-5)] by blast
  have later: "snd (Complete c' manifests' artifacts' parse_date' jitter' now' session' req' later) = later \<and>
       (fst (Complete c' manifests' artifacts' parse_date' jitter' now' session' req' later) = Inr () \<longrightarrow> cq_ResultDigest req' = cq_ResultDigest req)"
    if "extends d' later" "cq_AttemptID req' = cq_AttemptID req" for c' manifests' artifacts' parse_date' jitter' now' session' req' later
    using ended_attempt_fixed [of later req' a'] extends_attempt [OF that(1) a'(1,2)] that(2) a'(2,3) by auto
  show ?thesis
    by (rule complete_txE [OF tx assms(3)]) (use g(2) later in blast)
qed

definition sample_session :: WorkerSessionContext where
  "sample_session = \<lparr> ws_SessionID = 5, ws_WorkerID = 6, ws_EnvironmentID = Some 1, ws_PoolName = [] \<rparr>"

definition sample_executing :: db where
  "sample_executing = sample_db\<lparr>db_attempts := [sample_attempt 20 10 A_SUCCEEDED, (sample_attempt 21 11 A_RUNNING)\<lparr>a_deadline := Some 90\<rparr>], db_cases := []\<rparr>"

definition sample_complete :: CompleteRequestDTO where
  "sample_complete = \<lparr> cq_WorkerID = 6, cq_SessionID = 5, cq_AttemptID = 21, cq_OwnershipEpoch = 1, cq_Outcome = ''SUCCEEDED'', cq_Output = JObj [],
     cq_ArtifactID = [], cq_Error = None, cq_ResultDigest = ''[]'' \<rparr>"

theorem Complete_once_witness:
  "\<exists>d'. Complete sample_externals held_manifests None (\<lambda>_. None) 0 50 sample_session sample_complete sample_executing = (Inr (), d') \<and>
     snd (Complete sample_externals held_manifests None (\<lambda>_. None) 0 60 sample_session (sample_complete\<lparr>cq_Outcome := ''FAILED''\<rparr>) d') = d'"
proof -
  have c: "fst (Complete sample_externals held_manifests None (\<lambda>_. None) 0 50 sample_session sample_complete sample_executing) = Inr ()"
    "find_attempt sample_executing (cq_AttemptID sample_complete) = Some ((sample_attempt 21 11 A_RUNNING)\<lparr>a_deadline := Some 90\<rparr>)"
    "attempt_live (a_status ((sample_attempt 21 11 A_RUNNING)\<lparr>a_deadline := Some 90\<rparr>))" "inv sample_executing" "executing sample_executing (cq_AttemptID sample_complete)"
    by code_simp+
  obtain d' where d': "Complete sample_externals held_manifests None (\<lambda>_. None) 0 50 sample_session sample_complete sample_executing = (Inr (), d')"
    using c(1) by (cases "Complete sample_externals held_manifests None (\<lambda>_. None) 0 50 sample_session sample_complete sample_executing") simp
  have "extends d' d'" by (rule extends_refl)
  then show ?thesis using Complete_once [OF d' c(2-5)] d' by simp
qed

end
