(* ===== verification/Lease_Recovery.thy ===== *)
theory Lease_Recovery
  imports Attempt_Engine
begin

text \<open>
  Recovery of lost work (\<open>internal/execution/worker_engine.go\<close>): the sweep that ends attempts whose lease,
  start deadline, own deadline or run deadline has passed, the handoff of fenced steps, the tenant's
  recovery transaction, and the repair of graphs whose wake-up was lost.
\<close>

section \<open>Expired attempts\<close>

record expiredAttemptCandidate =
  ec_run :: run_row
  ec_step :: step_row
  ec_attempt :: attempt_row
  ec_lease :: "lease_row option"

definition recoverable :: "run_row \<Rightarrow> bool" where
  "recoverable r \<longleftrightarrow> r_status r \<in> {R_QUEUED, R_RUNNING, R_PAUSING} \<or> (r_status r = R_WAITING \<and> r_reason r = Some ''RECOVERY_HANDOFF'')"

definition passed :: "time \<Rightarrow> time option \<Rightarrow> bool" where
  "passed now t = (case t of None \<Rightarrow> False | Some t \<Rightarrow> t \<le> now)"

definition expired :: "time \<Rightarrow> run_row \<Rightarrow> attempt_row \<Rightarrow> lease_row option \<Rightarrow> bool" where
  "expired now r a l \<longleftrightarrow>
     (a_status a = A_CLAIMED \<and> (passed now (a_start_deadline a) \<or> passed now (map_option l_expires l) \<or> l = None)) \<or>
     (a_status a = A_RUNNING \<and> passed now (map_option l_expires l)) \<or>
     (a_status a = A_RUNNING \<and> passed now (a_deadline a)) \<or> passed now (r_deadline r)"

text \<open>\<open>ORDER BY r.id, rs.id, a.id LIMIT 50\<close>.\<close>

definition expired_candidates :: "time \<Rightarrow> db \<Rightarrow> expiredAttemptCandidate list" where
  "expired_candidates now d =
     take 50 (sort_key (\<lambda>c. r_id (ec_run c)) (sort_key (\<lambda>c. s_id (ec_step c)) (sort_key (\<lambda>c. a_id (ec_attempt c))
       (List.map_filter (\<lambda>a.
          case attempt_chain d (a_id a) of
            Some (_, s, r) \<Rightarrow>
              (let l = find_lease d (a_id a) in
               if recoverable r \<and> attempt_live (a_status a) \<and> expired now r a l
               then Some \<lparr> ec_run = r, ec_step = s, ec_attempt = a, ec_lease = l \<rparr> else None)
          | None \<Rightarrow> None) (db_attempts d)))))"

text \<open>The attempt is ended and its lease deleted.\<close>

definition lose_attempt :: "time \<Rightarrow> expiredAttemptCandidate \<Rightarrow> AttemptStatus \<Rightarrow> string \<Rightarrow> bool \<Rightarrow> string \<Rightarrow> db \<Rightarrow> db" where
  "lose_attempt now c st code retryable effect d =
     delete_leases (\<lambda>l. l_step l = s_id (ec_step c))
       (upd_attempts (\<lambda>b. a_id b = a_id (ec_attempt c) \<and> attempt_live (a_status b))
          (\<lambda>b. b\<lparr>a_status := st, a_completed := Some now,
                 a_error := Some \<lparr> e_code = code, e_retryable = retryable, e_effect = effect \<rparr>\<rparr>) d)"

definition fail_deadline :: "uid \<Rightarrow> db \<Rightarrow> db tx" where
  "fail_deadline runID d =
     (let d = upd_steps (\<lambda>s. s_run s = runID \<and> s_state s \<in> set open_states) (\<lambda>s. s\<lparr>s_state := S_CANCELLED\<rparr>) d;
          d = upd_runs (\<lambda>q. r_id q = runID) (\<lambda>q. q\<lparr>r_status := R_FAILED, r_reason := Some ''RUN_DEADLINE_EXCEEDED''\<rparr>) d
      in closeOpenCasesTx runID None ''FAIL'' (cancel_timers runID d))"

text \<open>A retry intent or a hold for the lost attempt, or the failure of its run.\<close>

definition retry_lost ::
    "rat \<Rightarrow> time \<Rightarrow> expiredAttemptCandidate \<Rightarrow> RetryPolicy \<Rightarrow> string \<Rightarrow> string \<Rightarrow> db \<Rightarrow> db tx" where
  "retry_lost jitter now c policy code effect d =
     ebind (scheduleRetryOrHoldTx (\<lambda>_. None) jitter now (r_id (ec_run c)) (s_id (ec_step c)) (a_id (ec_attempt c)) (a_number (ec_attempt c)) policy
          code True effect [] (r_deadline (ec_run c)) d) (\<lambda>(decision, d).
       case decision of
         Fail failCode \<Rightarrow> failRunForStepTx now (r_id (ec_run c)) (s_id (ec_step c)) (if failCode = [] then code else failCode) None d
       | _ \<Rightarrow> Inr d)"

definition reclaim_attempt ::
    "manifests \<Rightarrow> rat \<Rightarrow> time \<Rightarrow> expiredAttemptCandidate \<Rightarrow> attempt_row \<Rightarrow> db \<Rightarrow> db tx" where
  "reclaim_attempt manifests jitter now c cur d =
     (let runID = r_id (ec_run c);
          m = (case manifests (r_deployment (ec_run c)) of None \<Rightarrow> no_manifest | Some m \<Rightarrow> m);
          policy = taskRetryPolicy m (r_workflow (ec_run c)) (s_node (ec_step c))
      in if past_deadline now (r_deadline (ec_run c))
         then
           ebind (fail_deadline runID (lose_attempt now c A_LOST ''RUN_DEADLINE_EXCEEDED'' False ''UNKNOWN'' d)) (\<lambda>d.
           ebind (appendRunEvent runID ''TASK_LOST'' d) (appendRunEvent runID ''RUN_FAILED''))
         else if a_status cur = A_CLAIMED \<or> a_started cur = None
         then
           ebind (appendRunEvent runID ''TASK_LOST'' (lose_attempt now c A_LOST ''START_DEADLINE_EXCEEDED'' True ''NOT_APPLIED'' d))
             (retry_lost jitter now c policy ''START_DEADLINE_EXCEEDED'' ''NOT_APPLIED'')
         else
           (let isTimeout = past_deadline now (a_deadline (ec_attempt c));
                outcome = (if isTimeout then A_TIMED_OUT else A_LOST);
                reasonCode = (if isTimeout then ''ATTEMPT_TIMED_OUT'' else ''LEASE_EXPIRED'')
            in ebind (appendRunEvent runID ''TASK_LOST'' (lose_attempt now c outcome reasonCode True ''UNKNOWN'' d))
                 (retry_lost jitter now c policy reasonCode ''UNKNOWN'')))"

text \<open>A candidate is revalidated against the rows as an earlier one of the sweep may have left them.\<close>

definition sweep_blocked :: "RunStatus \<Rightarrow> bool" where
  "sweep_blocked st \<longleftrightarrow> st \<in> {R_SUCCEEDED, R_FAILED, R_CANCELLED, R_CANCELLING, R_PAUSED}"

definition sweep_attempt ::
    "manifests \<Rightarrow> rat \<Rightarrow> time \<Rightarrow> expiredAttemptCandidate \<Rightarrow> nat \<times> uid list \<times> db \<Rightarrow> (nat \<times> uid list \<times> db) tx" where
  "sweep_attempt manifests jitter now c st =
     (case st of (n, runs, d) \<Rightarrow>
        (case (find_run d (r_id (ec_run c)), find_step d (s_id (ec_step c)), find_attempt d (a_id (ec_attempt c))) of
           (Some r, Some s, Some cur) \<Rightarrow>
             if sweep_blocked (r_status r) \<or> step_terminal (s_state s) \<or> \<not> attempt_live (a_status cur) then Inr st
             else ebind (reclaim_attempt manifests jitter now c cur d) (\<lambda>d. Inr (n + 1, List.insert (r_id (ec_run c)) runs, d))
         | _ \<Rightarrow> Inr st))"

section \<open>Handoffs\<close>

record handoffCandidate =
  hc_run :: run_row
  hc_step :: step_row
  hc_started :: bool

definition attempt_started :: "db \<Rightarrow> uid \<Rightarrow> bool" where
  "attempt_started d runID \<longleftrightarrow> (\<exists>a \<in> set (db_attempts d). a_step a \<in> set (step_ids d runID) \<and> a_started a \<noteq> None)"

definition handoffs :: "db \<Rightarrow> handoffCandidate list" where
  "handoffs d =
     take 50 (sort_key (\<lambda>h. r_id (hc_run h)) (sort_key (\<lambda>h. s_id (hc_step h))
       (List.map_filter (\<lambda>s.
          if s_state s = S_WAITING \<and> s_wait s = Some ''RECOVERY_HANDOFF''
          then Option.bind (find_run d (s_run s)) (\<lambda>r.
                 if recoverable r then Some \<lparr> hc_run = r, hc_step = s, hc_started = attempt_started d (r_id r) \<rparr> else None)
          else None) (db_steps d))))"

definition resolve_handoff :: "manifests \<Rightarrow> time \<Rightarrow> handoffCandidate \<Rightarrow> db \<Rightarrow> db tx" where
  "resolve_handoff manifests now h d =
     (let runID = r_id (hc_run h); stepID = s_id (hc_step h);
          m = (case manifests (r_deployment (hc_run h)) of None \<Rightarrow> no_manifest | Some m \<Rightarrow> m);
          maxAttempts = snd (taskRecoveryPolicy m (r_workflow (hc_run h)) (s_node (hc_step h)))
      in if past_deadline now (r_deadline (hc_run h))
         then ebind (fail_deadline runID d) (appendRunEvent runID ''RUN_FAILED'')
         else if s_next_attempt (hc_step h) \<le> maxAttempts
         then
           (let d = upd_steps (\<lambda>s. s_id s = stepID \<and> s_state s = S_WAITING \<and> s_wait s = Some ''RECOVERY_HANDOFF'')
                      (\<lambda>s. s\<lparr>s_state := S_READY, s_wait := None, s_eligible := Some now\<rparr>) d;
                target = (if hc_started h then R_RUNNING else R_QUEUED);
                d = upd_runs (\<lambda>q. r_id q = runID \<and> r_status q = R_WAITING \<and> r_reason q = Some ''RECOVERY_HANDOFF'')
                      (\<lambda>q. q\<lparr>r_status := target, r_reason := None\<rparr>) d
            in appendRunEvent runID ''STEP_READY'' d)
         else
           (let d = upd_steps (\<lambda>s. s_id s = stepID) (\<lambda>s. s\<lparr>s_state := S_FAILED, s_wait := Some ''MAX_ATTEMPTS_EXCEEDED''\<rparr>) d;
                d = upd_runs (\<lambda>q. r_id q = runID) (\<lambda>q. q\<lparr>r_status := R_FAILED, r_reason := Some ''MAX_ATTEMPTS_EXCEEDED''\<rparr>) d;
                d = upd_steps (\<lambda>s. s_run s = runID \<and> s_state s \<in> {S_BLOCKED, S_READY, S_WAITING}) (\<lambda>s. s\<lparr>s_state := S_CANCELLED\<rparr>) d
            in appendRunEvent runID ''RUN_FAILED'' d))"

definition sweep_handoff :: "manifests \<Rightarrow> time \<Rightarrow> handoffCandidate \<Rightarrow> nat \<times> uid list \<times> db \<Rightarrow> (nat \<times> uid list \<times> db) tx" where
  "sweep_handoff manifests now h st =
     (case st of (n, runs, d) \<Rightarrow>
        (case find_run d (r_id (hc_run h)) of
           None \<Rightarrow> Inr st
         | Some r \<Rightarrow>
             if sweep_blocked (r_status r) then Inr st
             else ebind (resolve_handoff manifests now h d) (\<lambda>d. Inr (n + 1, List.insert (r_id (hc_run h)) runs, d))))"

section \<open>The sweep\<close>

text \<open>The error of the pause settlement is dropped: what it had done before stays.\<close>

definition settle_pause :: "uid \<Rightarrow> db \<Rightarrow> db" where
  "settle_pause runID d =
     (case find_run d runID of
        None \<Rightarrow> d
      | Some r \<Rightarrow>
          if \<not> r_pause_requested r \<or> r_status r \<noteq> R_PAUSING \<or> live_attempts d runID \<noteq> [] then d
          else
            (let d = upd_runs (\<lambda>q. r_id q = runID \<and> r_status q = R_PAUSING) (\<lambda>q. q\<lparr>r_status := R_PAUSED\<rparr>) d
             in case appendRunEvent runID ''RUN_PAUSED'' d of Inl _ \<Rightarrow> d | Inr d' \<Rightarrow> d'))"

definition reconcileExpiredLeasesTx :: "manifests \<Rightarrow> rat \<Rightarrow> time \<Rightarrow> db \<Rightarrow> (nat \<times> uid list \<times> db) tx" where
  "reconcileExpiredLeasesTx manifests jitter now d =
     (let cs = expired_candidates now d; hs = handoffs d in
      ebind (efold (sweep_attempt manifests jitter now) cs (0, [], d)) (\<lambda>st.
      ebind (efold (sweep_handoff manifests now) hs st) (\<lambda>(n, runs, d). Inr (n, runs, fold settle_pause runs d))))"

definition ReconcileExpiredLeases :: "manifests \<Rightarrow> rat \<Rightarrow> time \<Rightarrow> db \<Rightarrow> (nat \<times> db) tx" where
  "ReconcileExpiredLeases manifests jitter now d =
     ebind (reconcileExpiredLeasesTx manifests jitter now d) (\<lambda>(reclaimed, _, d).
     ebind (fireDueRetryTimersTx now d) (\<lambda>(fired, _, d).
     ebind (failOverdueRunsTx now d) (\<lambda>(overdue', _, d).
     ebind (settleCancellingRunsTx now d) (\<lambda>(settled, _, d). Inr (reclaimed + fired + overdue' + settled, d)))))"

section \<open>Lost wake-ups\<close>

text \<open>The candidates of the repair: runs with blocked steps, interleaved over the environments.  The order
  within an environment is that of \<open>reconciliation_checked_at\<close>, which only this query reads; it is an
  argument.\<close>

definition env_position :: "(uid \<Rightarrow> time option) \<Rightarrow> run_row list \<Rightarrow> run_row \<Rightarrow> nat" where
  "env_position checked rs r =
     length (filter (\<lambda>q. r_env q = r_env r \<and>
       (case (checked (r_id q), checked (r_id r)) of
          (None, None) \<Rightarrow> r_id q < r_id r
        | (None, Some _) \<Rightarrow> True
        | (Some _, None) \<Rightarrow> False
        | (Some t, Some u) \<Rightarrow> t < u \<or> t = u \<and> r_id q < r_id r)) rs)"

definition checked_key :: "(uid \<Rightarrow> time option) \<Rightarrow> run_row \<Rightarrow> bool \<times> time" where
  "checked_key checked r = (case checked (r_id r) of None \<Rightarrow> (False, 0) | Some t \<Rightarrow> (True, t))"

definition ready_candidates :: "(uid \<Rightarrow> time option) \<Rightarrow> db \<Rightarrow> run_row list" where
  "ready_candidates checked d =
     (let rs = filter (\<lambda>r. r_status r \<in> {R_QUEUED, R_RUNNING} \<and> steps_in d (r_id r) [S_BLOCKED] \<noteq> []) (db_runs d)
      in take 50 (sort_key (env_position checked rs) (sort_key (\<lambda>r. fst (checked_key checked r)) (sort_key (\<lambda>r. snd (checked_key checked r)) (sort_key r_id rs)))))"

definition repair_run ::
    "externals \<Rightarrow> manifests \<Rightarrow> time \<Rightarrow> run_row \<Rightarrow> nat \<times> uid list \<times> db \<Rightarrow> (nat \<times> uid list \<times> db) tx" where
  "repair_run c manifests now q st =
     (case st of (repaired, affected, d) \<Rightarrow>
        (case manifests (r_deployment q) of
           None \<Rightarrow> Inl (EngineError ''decode deployment manifest'')
         | Some m \<Rightarrow>
             (case target_workflow m (r_workflow q) of
                None \<Rightarrow> Inr st
              | Some w \<Rightarrow>
                  ebind (get_run d (r_id q)) (\<lambda>r.
                  ebind (evaluateBlockedDAGTx c now (r_id q) (r_workflow q) w m (r_input r) (local_steps d (r_id q)) (local_outputs d (r_id q)) d)
                    (\<lambda>res. case res of
                       RunFailed g \<Rightarrow> Inr (repaired + g_transitions g, affected @ [r_id q], g_db g)
                     | Going g \<Rightarrow>
                         ebind (settleRunTerminalTx c (r_id q) w (g_steps g) (g_outputs g) (r_input r) JNull (g_db g)) (\<lambda>(settled, d).
                           Inr (repaired + g_transitions g, if 0 < g_transitions g \<or> settled then affected @ [r_id q] else affected, d)))))))"

definition ReconcileReadyWork :: "externals \<Rightarrow> manifests \<Rightarrow> time \<Rightarrow> (uid \<Rightarrow> time option) \<Rightarrow> db \<Rightarrow> (nat \<times> db) tx" where
  "ReconcileReadyWork c manifests now checked d =
     ebind (efold (repair_run c manifests now) (ready_candidates checked d) (0, [], d)) (\<lambda>(repaired, _, d). Inr (repaired, d))"

section \<open>The engine's invariant\<close>

text \<open>The row of the candidate's attempt, as the sweep finds it.\<close>

definition current :: "expiredAttemptCandidate \<Rightarrow> attempt_row \<Rightarrow> db \<Rightarrow> bool" where
  "current c cur x \<longleftrightarrow> find_attempt x (a_id (ec_attempt c)) = Some cur \<and> a_step cur = s_id (ec_step c) \<and> attempt_live (a_status cur)"

lemma lose_attempt_ok:
  assumes "step_ok d x" and "inv x \<Longrightarrow> current c cur x"
  shows "step_ok d (lose_attempt now c st code rt eff x)"
  unfolding lose_attempt_def
proof (rule step_ok_end_attempts [OF assms(1)])
  fix b l assume i: "inv x" and b: "b \<in> set (db_attempts x)" "a_id b = a_id (ec_attempt c) \<and> attempt_live (a_status b)"
    and l: "lease_of l b" "l_step l \<noteq> s_id (ec_step c)"
  have "b = cur" by (rule find_attempt_unique [OF i]) (use assms(2) [OF i] b in \<open>simp_all add: current_def\<close>)
  then show "attempt_live (a_status (b\<lparr>a_status := st, a_completed := Some now, a_error := Some \<lparr> e_code = code, e_retryable = rt, e_effect = eff \<rparr>\<rparr>))"
    using l assms(2) [OF i] by (simp add: lease_of_def current_def)
qed (simp add: attempt_le_def)

lemma lose_attempt_frees:
  assumes "inv x" and "current c cur x" and "\<not> attempt_live st"
  shows "no_live (lose_attempt now c st code rt eff x) (s_id (ec_step c))"
proof -
  have "cur \<in> set (db_attempts x)" "a_id cur = a_id (ec_attempt c)" "a_step cur = s_id (ec_step c)" "attempt_live (a_status cur)"
    using assms(2) find_attempt_id [of x "a_id (ec_attempt c)" cur] by (simp_all add: current_def)
  then show ?thesis
    using ending_frees [OF assms(1), of cur "\<lambda>b. attempt_live (a_status b)" "\<lambda>b. b\<lparr>a_status := st, a_completed := Some now,
        a_error := Some \<lparr> e_code = code, e_retryable = rt, e_effect = eff \<rparr>\<rparr>"] assms(3)
    by (simp add: lose_attempt_def)
qed

lemma lose_attempt_frame [simp]:
  "run_at Q (lose_attempt now c st code rt eff x) = run_at Q x" "step_at Q' (lose_attempt now c st code rt eff x) = step_at Q' x"
  by (simp_all add: lose_attempt_def)

lemma fail_deadline_ok:
  assumes "step_ok d x" and "run_open x rid"
  shows "holds (step_ok d) (fail_deadline rid x)"
proof -
  have "step_ok d (upd_steps (\<lambda>s. s_run s = rid \<and> s_state s \<in> set open_states) (\<lambda>s. s\<lparr>s_state := S_CANCELLED\<rparr>) x)"
    by (rule step_ok_upd_steps [OF assms(1)]) (auto simp: step_le_def open_states_def)
  then have "step_ok d (upd_runs (\<lambda>q. r_id q = rid) (\<lambda>q. q\<lparr>r_status := R_FAILED, r_reason := Some ''RUN_DEADLINE_EXCEEDED''\<rparr>)
      (upd_steps (\<lambda>s. s_run s = rid \<and> s_state s \<in> set open_states) (\<lambda>s. s\<lparr>s_state := S_CANCELLED\<rparr>) x))"
    by (rule open_run_update_ok) (simp_all add: assms(2) run_le_def)
  then show ?thesis
    unfolding fail_deadline_def Let_def cancel_timers_def
    by (intro step_ok_closeOpenCasesTx step_ok_upd_timers) (auto simp: timer_le_def)
qed

lemma still_current:
  assumes "extends d y" and "a \<in> set (db_attempts d)" and "inv d" and "find_attempt y (a_id a) = Some cur"
  shows "a_step cur = a_step a"
proof -
  have "find_attempt d (a_id a) = Some a" unfolding find_attempt_def by (rule find_distinct) (use assms(2,3) in \<open>simp_all add: inv_def ids_ok_def\<close>)
  then obtain a' where "find_attempt y (a_id a) = Some a'" "attempt_le a a'"
    using assms(1) grows_find [of attempt_le "db_attempts d" "db_attempts y" a_id "a_id a" a] by (auto simp: extends_def find_attempt_def attempt_le_def)
  then show ?thesis using assms(4) by (simp add: attempt_le_def)
qed

lemma retry_lost_ok:
  assumes "step_ok d x" and "inv d \<Longrightarrow> step_open d (s_id (ec_step c))" and "run_failable x (r_id (ec_run c))" and "step_failable x (s_id (ec_step c))"
    and "no_live x (s_id (ec_step c))"
  shows "holds (step_ok d) (retry_lost jitter now c policy code eff x)"
  unfolding retry_lost_def by (rule schedule_or_fail_ok [OF assms])

lemma reclaim_attempt_ok:
  assumes "run_open x (r_id (ec_run c))" and "step_open x (s_id (ec_step c))" and "inv x" and "current c cur x"
  shows "holds (step_ok x) (reclaim_attempt manifests jitter now c cur x)"
proof -
  let ?rid = "r_id (ec_run c)" and ?sid = "s_id (ec_step c)"
  have lost: "step_ok x (lose_attempt now c st code rt eff x)" for st code rt eff
    by (rule lose_attempt_ok [OF step_ok_refl assms(4)])
  have l: "holds (\<lambda>y. step_ok x y \<and> run_failable y ?rid \<and> step_failable y ?sid \<and> no_live y ?sid) (appendRunEvent ?rid e (lose_attempt now c st code rt eff x))"
    if "st \<in> {A_LOST, A_TIMED_OUT}" for e st code rt eff
    using step_ok_appendRunEvent [OF lost] appendRunEvent_at appendRunEvent_no_live run_open_failable [OF assms(1)] step_open_failable [OF assms(2)]
      lose_attempt_frees [OF assms(3,4), of st] that
    by (auto simp: holds_def attempt_live_def)
  show ?thesis
    unfolding reclaim_attempt_def Let_def
    using assms
    by (auto intro!: step_ok_bind [OF fail_deadline_ok] step_ok_bind [OF step_ok_appendRunEvent] step_ok_appendRunEvent lost
        holds_bind [OF l] retry_lost_ok)
qed

text \<open>Neither sweep turns a step into one that has succeeded or was skipped, or a run into one that has
  succeeded or been cancelled.\<close>

lemma failable_kept_rows:
  assumes "\<And>r. r_id (f r) = r_id r \<and> r_status (f r) \<notin> {R_SUCCEEDED, R_CANCELLED}"
  shows "failable_kept x (upd_runs P f x)"
  using assms by (auto simp: failable_kept_def intro!: run_at_keep)

lemma failable_kept_steps:
  assumes "\<And>s. s_id (f s) = s_id s \<and> s_state (f s) \<notin> {S_SUCCEEDED, S_SKIPPED}"
  shows "failable_kept x (upd_steps P f x)"
  using assms by (auto simp: failable_kept_def intro!: step_at_keep)

lemma failable_kept_append: "appendRunEvent rid t x = Inr y \<Longrightarrow> failable_kept x y"
  by (simp add: failable_kept_def appendRunEvent_at)

lemma failable_kept_same: "db_runs y = db_runs x \<Longrightarrow> db_steps y = db_steps x \<Longrightarrow> failable_kept x y"
  by (simp add: failable_kept_def run_at_def step_at_def)

lemma backfilled_kept: "backfilled sid x y \<Longrightarrow> failable_kept x y"
  by (auto simp: backfilled_def failable_kept_def run_at_def)

lemma schedule_kept:
  assumes "scheduleRetryOrHoldTx pd j now rid sid aid n policy code rt eff ra dl x = Inr (dec, z)"
  shows "failable_kept x z"
proof (rule scheduleRetryOrHoldTx_cases [OF assms])
  show ?thesis if "backfilled sid x z" using that by (rule backfilled_kept)
  show ?thesis if b: "backfilled sid x y" and r: "routeStepToReconciliationTx rid sid (Some aid) reason y = Inr z" for y reason
  proof -
    let ?y1 = "upd_steps (\<lambda>s. s_id s = sid) (\<lambda>s. s\<lparr>s_state := S_WAITING, s_wait := Some ''RECONCILIATION''\<rparr>) y"
    let ?y2 = "upd_runs (\<lambda>r. r_id r = rid \<and> r_status r \<in> {R_QUEUED, R_RUNNING, R_WAITING} \<and> live_attempts ?y1 rid = [])
        (\<lambda>r. r\<lparr>r_status := R_WAITING, r_reason := Some ''RECONCILIATION''\<rparr>) ?y1"
    have "appendRunEvent rid ''STEP_WAITING'' (insertReconciliationCaseTx sid (Some aid) reason ?y2) = Inr z"
      using r unfolding routeStepToReconciliationTx_def Let_def .
    note 1 = failable_kept_append [OF this]
    have 2: "failable_kept ?y2 (insertReconciliationCaseTx sid (Some aid) reason ?y2)"
      by (rule failable_kept_same) (simp_all add: insertReconciliationCaseTx_def)
    have 3: "failable_kept ?y1 ?y2" by (rule failable_kept_rows) simp
    have 4: "failable_kept y ?y1" by (rule failable_kept_steps) simp
    show ?thesis
      by (rule failable_kept_trans [OF backfilled_kept [OF b] failable_kept_trans [OF 4 failable_kept_trans [OF 3 failable_kept_trans [OF 2 1]]]])
  qed
  show ?thesis if w: "retry_window now sid policy v x = Inr (None, y)" and p: "park_for_retry rid sid m code due y = Inr (Retry, z)" for v y m due
  proof -
    obtain due' b u where i: "insert_timer ''RETRY_BACKOFF'' rid sid (Some m) code due y = (due', b, u)"
      by (cases "insert_timer ''RETRY_BACKOFF'' rid sid (Some m) code due y")
    let ?u1 = "upd_steps (\<lambda>s. s_id s = sid) (\<lambda>s. s\<lparr>s_state := S_WAITING, s_wait := Some ''RETRY_BACKOFF'', s_eligible := Some due'\<rparr>) u"
    have "appendRunEvent rid ''STEP_WAITING'' (recomputeRunStatusForRetryTx rid ?u1) = Inr z"
      using p unfolding park_for_retry_def i prod.case Let_def by (auto dest!: holds_ebindD)
    note 1 = failable_kept_append [OF this]
    have 2: "failable_kept ?u1 (recomputeRunStatusForRetryTx rid ?u1)"
      unfolding recomputeRunStatusForRetryTx_def by (auto intro: failable_kept_rows)
    have 3: "failable_kept u ?u1" by (rule failable_kept_steps) simp
    have 4: "failable_kept y u" by (rule failable_kept_same) (simp_all add: insert_timer_steps [OF i])
    show ?thesis
      by (rule failable_kept_trans [OF backfilled_kept [OF retry_window_backfilled [OF w]]
          failable_kept_trans [OF 4 failable_kept_trans [OF 3 failable_kept_trans [OF 2 1]]]])
  qed
qed

lemma failRunForStepTx_failable_kept: "failRunForStepTx now rid sid code actor x = Inr y \<Longrightarrow> failable_kept x y"
  unfolding failable_kept_def using failRunForStepTx_failable by blast

lemma retry_lost_kept:
  assumes "retry_lost jitter now c policy code eff x = Inr y"
  shows "failable_kept x y"
proof -
  obtain dec z where sch: "scheduleRetryOrHoldTx (\<lambda>_. None) jitter now (r_id (ec_run c)) (s_id (ec_step c)) (a_id (ec_attempt c))
      (a_number (ec_attempt c)) policy code True eff [] (r_deadline (ec_run c)) x = Inr (dec, z)"
    and y: "(case dec of Fail f \<Rightarrow> failRunForStepTx now (r_id (ec_run c)) (s_id (ec_step c)) (if f = [] then code else f) None z | _ \<Rightarrow> Inr z) = Inr y"
    using assms unfolding retry_lost_def by (auto dest!: holds_ebindD)
  have "failable_kept z y" using y by (cases dec) (simp_all add: failRunForStepTx_failable_kept)
  then show ?thesis by (rule failable_kept_trans [OF schedule_kept [OF sch]])
qed

lemma fail_deadline_kept:
  assumes "fail_deadline rid x = Inr y"
  shows "failable_kept x y"
proof -
  let ?x1 = "upd_steps (\<lambda>s. s_run s = rid \<and> s_state s \<in> set open_states) (\<lambda>s. s\<lparr>s_state := S_CANCELLED\<rparr>) x"
  let ?x2 = "upd_runs (\<lambda>q. r_id q = rid) (\<lambda>q. q\<lparr>r_status := R_FAILED, r_reason := Some ''RUN_DEADLINE_EXCEEDED''\<rparr>) ?x1"
  have "failable_kept x ?x1" by (rule failable_kept_steps) simp
  moreover have "failable_kept ?x1 ?x2" by (rule failable_kept_rows) simp
  moreover have "failable_kept ?x2 y"
    using assms unfolding fail_deadline_def Let_def by (auto simp: failable_kept_def closeOpenCasesTx_at cancel_timers_def)
  ultimately show ?thesis by (meson failable_kept_trans)
qed

lemma lose_attempt_kept [simp]: "failable_kept (lose_attempt now c st code rt eff x) y = failable_kept x y"
  by (simp add: failable_kept_def)

lemma reclaim_attempt_kept: "reclaim_attempt manifests jitter now c cur x = Inr y \<Longrightarrow> failable_kept x y"
  unfolding reclaim_attempt_def Let_def
  by (auto split: if_splits dest!: holds_ebindD fail_deadline_kept failable_kept_append retry_lost_kept intro: failable_kept_trans)

lemma sweep_attempt_ok:
  assumes "step_ok d y \<and> failable_kept d y" and "ec_attempt c \<in> set (db_attempts d)" and "a_step (ec_attempt c) = s_id (ec_step c)" and "inv d"
  shows "holds (\<lambda>(n, runs, z). step_ok d z \<and> failable_kept d z) (sweep_attempt manifests jitter now c (n, runs, y))"
proof -
  have *: "holds (\<lambda>z. step_ok d z \<and> failable_kept d z) (reclaim_attempt manifests jitter now c cur y)"
    if r: "find_run y (r_id (ec_run c)) = Some r" "\<not> sweep_blocked (r_status r)"
      and s: "find_step y (s_id (ec_step c)) = Some s" "\<not> step_terminal (s_state s)"
      and cur: "find_attempt y (a_id (ec_attempt c)) = Some cur" "attempt_live (a_status cur)" for r s cur
  proof -
    have "holds (step_ok d) (reclaim_attempt manifests jitter now c cur y)"
    proof (rule holds_step_okI [of d y])
      assume i: "inv y"
      have "run_open y (r_id (ec_run c))" using find_run_at [OF i r(1)] r(2) by (auto simp: sweep_blocked_def run_terminal_def)
      moreover have "step_open y (s_id (ec_step c))" using find_step_at [OF i s(1)] s(2) by simp
      moreover have "current c cur y" using still_current [OF _ assms(2,4) cur(1)] assms(1,3,4) cur by (simp add: current_def step_ok_def)
      ultimately show "holds (step_ok y) (reclaim_attempt manifests jitter now c cur y)" using i by (intro reclaim_attempt_ok)
    qed (use assms in simp)
    then show ?thesis using assms reclaim_attempt_kept by (auto simp: holds_def intro: failable_kept_trans)
  qed
  show ?thesis
    unfolding sweep_attempt_def prod.case
    using assms by (auto split: option.split intro!: holds_bind [OF *])
qed

lemma resolve_handoff_ok:
  assumes "run_open x (r_id (hc_run h))" and "step_failable x (s_id (hc_step h))"
  shows "holds (step_ok x) (resolve_handoff manifests now h x)"
proof -
  let ?rid = "r_id (hc_run h)" and ?sid = "s_id (hc_step h)"
  have 1: "step_ok x (upd_steps (\<lambda>s. s_id s = ?sid) (\<lambda>s. s\<lparr>s_state := S_FAILED, s_wait := Some ''MAX_ATTEMPTS_EXCEEDED''\<rparr>) x)"
    using assms(2) by (intro step_ok_upd_steps step_ok_refl) (auto simp: step_le_def step_at_def step_terminal_def)
  show ?thesis
    unfolding resolve_handoff_def Let_def
    using assms 1
    by (auto intro!: step_ok_bind [OF fail_deadline_ok] step_ok_appendRunEvent step_ok_upd_runs step_ok_upd_steps
        simp: run_le_def step_le_def run_at_def)
qed

lemma resolve_handoff_kept: "resolve_handoff manifests now h x = Inr y \<Longrightarrow> failable_kept x y"
proof -
  have s: "failable_kept x (upd_steps P f z)" if "failable_kept x z" "\<And>s. s_id (f s) = s_id s \<and> s_state (f s) \<notin> {S_SUCCEEDED, S_SKIPPED}" for P f z
    by (rule failable_kept_trans [OF that(1)]) (rule failable_kept_steps, rule that(2))
  have r: "failable_kept x (upd_runs P f z)" if "failable_kept x z" "\<And>s. r_id (f s) = r_id s \<and> r_status (f s) \<notin> {R_SUCCEEDED, R_CANCELLED}" for P f z
    by (rule failable_kept_trans [OF that(1)]) (rule failable_kept_rows, rule that(2))
  have a: "appendRunEvent rid e z = Inr y \<Longrightarrow> failable_kept x z \<Longrightarrow> failable_kept x y" for rid e z
    using failable_kept_append failable_kept_trans by blast
  show "resolve_handoff manifests now h x = Inr y \<Longrightarrow> failable_kept x y"
    unfolding resolve_handoff_def Let_def
    by (auto split: if_splits dest!: holds_ebindD; erule a; (erule fail_deadline_kept | (intro s r failable_kept_refl; simp)))
qed

lemma sweep_handoff_ok:
  assumes "step_ok d y \<and> failable_kept d y" and "step_failable d (s_id (hc_step h))"
  shows "holds (\<lambda>(n, runs, z). step_ok d z \<and> failable_kept d z) (sweep_handoff manifests now h (n, runs, y))"
proof -
  have *: "holds (\<lambda>z. step_ok d z \<and> failable_kept d z) (resolve_handoff manifests now h y)"
    if r: "find_run y (r_id (hc_run h)) = Some r" "\<not> sweep_blocked (r_status r)" for r
  proof -
    have "holds (step_ok d) (resolve_handoff manifests now h y)"
    proof (rule holds_step_okI [of d y])
      assume i: "inv y"
      have "run_open y (r_id (hc_run h))" using find_run_at [OF i r(1)] r(2) by (auto simp: sweep_blocked_def run_terminal_def)
      moreover have "step_failable y (s_id (hc_step h))" using assms by (simp add: failable_kept_def)
      ultimately show "holds (step_ok y) (resolve_handoff manifests now h y)" by (rule resolve_handoff_ok)
    qed (use assms in simp)
    then show ?thesis using assms(1) resolve_handoff_kept by (auto simp: holds_def intro: failable_kept_trans)
  qed
  show ?thesis
    unfolding sweep_handoff_def prod.case
    using assms by (auto split: option.split intro!: holds_bind [OF *])
qed

lemma handoffs_failable:
  assumes "inv d" and "h \<in> set (handoffs d)"
  shows "step_failable d (s_id (hc_step h))"
proof -
  have "hc_step h \<in> set (db_steps d) \<and> s_state (hc_step h) = S_WAITING"
    using assms(2) by (auto simp: handoffs_def in_map_filter bind_eq_Some_conv split: if_splits dest!: in_set_takeD)
  then show ?thesis using step_at_mem [OF assms(1), of "hc_step h"] by simp
qed

lemma settle_pause_ok: "step_ok d x \<Longrightarrow> step_ok d (settle_pause rid x)"
proof -
  let ?u = "upd_runs (\<lambda>q. r_id q = rid \<and> r_status q = R_PAUSING) (\<lambda>q. q\<lparr>r_status := R_PAUSED\<rparr>) x"
  assume "step_ok d x"
  then have "step_ok d ?u" by (rule step_ok_upd_runs) (auto simp: run_le_def)
  then show ?thesis
    using \<open>step_ok d x\<close> step_ok_appendRunEvent [of d ?u] unfolding settle_pause_def Let_def
    by (auto simp: holds_def split: option.split sum.split)
qed

lemma expired_candidate:
  assumes "c \<in> set (expired_candidates now d)" and "inv d"
  shows "ec_attempt c \<in> set (db_attempts d)" "a_step (ec_attempt c) = s_id (ec_step c)"
proof -
  obtain a where m: "a \<in> set (db_attempts d)" and k: "(case attempt_chain d (a_id a) of
      Some (_, s, r) \<Rightarrow> (let l = find_lease d (a_id a) in
        if recoverable r \<and> attempt_live (a_status a) \<and> expired now r a l
        then Some \<lparr> ec_run = r, ec_step = s, ec_attempt = a, ec_lease = l \<rparr> else None) | None \<Rightarrow> None) = Some c"
    using assms(1) unfolding expired_candidates_def by (auto simp only: in_map_filter set_sort dest!: in_set_takeD)
  obtain a' s r where p: "attempt_chain d (a_id a) = Some (a', s, r)" using k by (cases "attempt_chain d (a_id a)") auto
  have a: "a \<in> set (db_attempts d)" "attempt_chain d (a_id a) = Some (a', s, r)" "ec_attempt c = a" "ec_step c = s"
    using m k p by (auto simp: Let_def split: if_splits)
  have "a = a'" by (rule find_attempt_unique [OF assms(2) attempt_chainE(1) [OF a(2)] a(1) refl])
  then show "ec_attempt c \<in> set (db_attempts d)" "a_step (ec_attempt c) = s_id (ec_step c)"
    using a attempt_chainE(5) [OF a(2)] by simp_all
qed

lemma reconcileExpiredLeasesTx_ok: "holds (\<lambda>(n, runs, y). step_ok d y) (reconcileExpiredLeasesTx manifests jitter now d)"
proof (cases "inv d")
  case True
  let ?J = "\<lambda>(n :: nat, runs :: uid list, z). step_ok d z \<and> failable_kept d z"
  have 1: "holds ?J (efold (sweep_attempt manifests jitter now) (expired_candidates now d) (0, [], d))"
  proof (rule holds_efold)
    fix c st assume c: "c \<in> set (expired_candidates now d)" and "?J st"
    then show "holds ?J (sweep_attempt manifests jitter now c st)"
      using sweep_attempt_ok [OF _ expired_candidate [OF c True] True] by (cases st) auto
  qed simp
  have 2: "holds ?J (efold (sweep_handoff manifests now) (handoffs d) st)" if "?J st" for st
  proof (rule holds_efold)
    fix h st assume "h \<in> set (handoffs d)" "?J st"
    then show "holds ?J (sweep_handoff manifests now h st)"
      using sweep_handoff_ok [OF _ handoffs_failable [OF True]] by (cases st) auto
  qed (rule that)
  have 3: "step_ok d (fold settle_pause runs z)" if "step_ok d z" for runs z
    by (rule holds_fold) (use that settle_pause_ok in auto)
  show ?thesis
    unfolding reconcileExpiredLeasesTx_def Let_def
    by (rule holds_bind [OF 1], rule holds_bind [OF 2], assumption) (use 3 in auto)
qed (auto simp: holds_def step_ok_def)

lemma ReconcileExpiredLeases_ok: "returns_ok d (ReconcileExpiredLeases manifests jitter now d)"
proof -
  have b: "returns_ok d (ebind t k)"
    if "holds (\<lambda>(n, runs, y). step_ok x y) t" "step_ok d x" "\<And>n runs y. step_ok d y \<Longrightarrow> returns_ok d (k (n, runs, y))" for t x and k :: "nat \<times> uid list \<times> db \<Rightarrow> (nat \<times> db) tx"
    unfolding returns_ok_def by (rule holds_bind [OF that(1)]) (use that(2,3) in \<open>auto simp: returns_ok_def intro: step_ok_trans\<close>)
  show ?thesis
    unfolding ReconcileExpiredLeases_def
    by (rule b [OF reconcileExpiredLeasesTx_ok step_ok_refl], simp, rule b [OF fireDueRetryTimersTx_ok], assumption, simp,
        rule b [OF failOverdueRunsTx_ok], assumption, simp, rule b [OF settleCancellingRunsTx_ok], assumption) simp
qed

section \<open>Repairing graphs one by one\<close>

text \<open>An evaluation touches no other run, so the runs still to be repaired stay as they were selected.\<close>

definition other_runs :: "uid \<Rightarrow> db \<Rightarrow> db \<Rightarrow> bool" where
  "other_runs rid d d' \<longleftrightarrow> (\<forall>i. i \<noteq> rid \<longrightarrow> find_run d' i = find_run d i)"

lemma appendRunEvent_other: "appendRunEvent rid t d = Inr d' \<Longrightarrow> other_runs rid d d'"
  unfolding other_runs_def by (auto simp: appendRunEventD(12) map_option_case dest: find_run_id split: option.split)

lemma other_runs_trans: "other_runs rid a b \<Longrightarrow> other_runs rid b c \<Longrightarrow> other_runs rid a c"
  by (simp add: other_runs_def)

lemma other_runs_same: "db_runs d' = db_runs d \<Longrightarrow> other_runs rid d d'"
  by (simp add: other_runs_def find_run_def)

lemma other_runs_upd:
  assumes "\<And>q. P q \<Longrightarrow> r_id q = rid" and "\<And>q. r_id (f q) = r_id q"
  shows "other_runs rid d (upd_runs P f d)"
  using assms unfolding other_runs_def by (auto simp: find_run_upd map_option_case dest: find_run_id split: option.split)

lemma recompute_control_other: "recomputeRunStatusAfterControlTx rid d = Inr d' \<Longrightarrow> other_runs rid d d'"
  by (cases "find_run d rid") (auto simp: recomputeRunStatusAfterControlTx_def Let_def intro: other_runs_upd other_runs_same split: if_splits)

lemma recompute_delay_other: "other_runs rid d (recomputeRunStatusForDelayTx rid d)"
  unfolding recomputeRunStatusForDelayTx_def by (auto intro: other_runs_upd)

lemma terminalize_other_runs: "terminalize rid f event d = Inr (b, d') \<Longrightarrow> (\<And>q. r_id (f q) = r_id q) \<Longrightarrow> other_runs rid d d'"
  using terminalize_other unfolding other_runs_def by blast

interpretation runs_law: advancement_law "other_runs rid" now rid UNIV for rid now
proof unfold_locales
  fix d d' sid p assume a: "park_approval rid sid p d = Inr d'"
  show "other_runs rid d d'"
    using a unfolding park_approval_def Let_def
    by (auto split: if_splits simp: other_runs_def find_run_def dest!: appendRunEvent_other recompute_control_other)
next
  fix d d' sid ms due ins assume a: "scheduleDelayTx now rid sid ms d = Inr (due, ins, d')"
  have "other_runs rid (upd_steps P f x) (recomputeRunStatusForDelayTx rid (upd_steps P f x))" for P f x by (rule recompute_delay_other)
  then show "other_runs rid d d'"
    using a unfolding scheduleDelayTx_def insert_timer_def Let_def
    by (auto split: option.splits if_splits simp: other_runs_def find_run_def)
next
  fix c w states outputs input dflt d over d' assume "settleRunTerminalTx c rid w states outputs input dflt d = Inr (over, d')"
  then show "other_runs rid d d'"
    unfolding settleRunTerminalTx_def fail_output_def Let_def
    by (auto split: if_splits sum.splits intro: terminalize_other_runs other_runs_same)
next
  fix sid st f event d d' assume "appendRunEvent rid event (upd_steps (\<lambda>s. s_id s = sid \<and> s_state s = S_BLOCKED) (\<lambda>s. (f s)\<lparr>s_state := st\<rparr>) d) = Inr d'"
  from appendRunEvent_other [OF this] show "other_runs rid d d'" by (simp add: other_runs_def find_run_def)
next
  fix event d d' assume "appendRunEvent rid event d = Inr d'"
  then show "other_runs rid d d'" by (rule appendRunEvent_other)
qed (auto simp: other_runs_def dest: failRunForStepTx_other)

lemma settle_other: "settleRunTerminalTx c rid w states os input dflt d = Inr (b, d') \<Longrightarrow> other_runs rid d d'"
  by (rule runs_law.ending)

lemma repair_run_ok:
  assumes "step_ok d x" and "inv x \<Longrightarrow> run_failable x (r_id q)"
  shows "holds (\<lambda>(n, runs, y). step_ok d y \<and> other_runs (r_id q) x y) (repair_run c manifests now q (k, as, x))"
proof -
  let ?E = "\<lambda>w m i. evaluateBlockedDAGTx c now (r_id q) (r_workflow q) w m i (local_steps x (r_id q)) (local_outputs x (r_id q)) x"
  have e: "holds (\<lambda>r. step_ok d (g_db (result_state r)) \<and> other_runs (r_id q) x (g_db (result_state r))) (?E w m i)" for w m i
    using evaluateBlockedDAGTx_ok [OF assms] runs_law.evaluation [OF subset_UNIV] by (fastforce simp: holds_def)
  have s: "holds (\<lambda>(n, runs, y). step_ok d y \<and> other_runs (r_id q) x y)
      (ebind (settleRunTerminalTx c (r_id q) w st os i JNull y) (\<lambda>(settled, d). Inr (n, f settled, d)))"
    if "step_ok d y" "other_runs (r_id q) x y" for w st os i y n and f :: "bool \<Rightarrow> uid list"
    using settleRunTerminalTx_ok [OF that(1), of c "r_id q" w st os i JNull] settle_other that(2)
    by (fastforce simp: holds_def returns_ok_def intro: other_runs_trans)
  show ?thesis
    unfolding repair_run_def prod.case
    using assms(1) by (auto simp: other_runs_same split: option.split dag_result.split intro!: holds_bind [OF e] s)
qed

lemma repair_runs_ok:
  assumes "step_ok d x" and "distinct (map r_id qs)"
    and "\<forall>q \<in> set qs. find_run x (r_id q) = Some q \<and> r_status q \<notin> {R_SUCCEEDED, R_CANCELLED}"
  shows "holds (\<lambda>(n, runs, y). step_ok d y) (efold (repair_run c manifests now) qs (k, as, x))"
  using assms
proof (induction qs arbitrary: k as x)
  case (Cons q qs)
  have "holds (\<lambda>(n, runs, y). step_ok d y \<and> other_runs (r_id q) x y) (repair_run c manifests now q (k, as, x))"
    using Cons.prems(1,3) by (intro repair_run_ok run_failable_find) auto
  then show ?case
    unfolding efold.simps
  proof (rule holds_bind)
    fix st :: "nat \<times> uid list \<times> db" assume st: "case st of (n, runs, y) \<Rightarrow> step_ok d y \<and> other_runs (r_id q) x y"
    obtain n runs y where y: "st = (n, runs, y)" by (cases st)
    have "find_run y (r_id p) = find_run x (r_id p)" if "p \<in> set qs" for p
    proof -
      have "r_id p \<noteq> r_id q" using that Cons.prems(2) by (metis distinct.simps(2) image_eqI list.set_map list.simps(9))
      then show ?thesis using st y by (simp add: other_runs_def)
    qed
    then show "holds (\<lambda>(n, runs, y). step_ok d y) (efold (repair_run c manifests now) qs st)"
      unfolding y using Cons.prems st y by (intro Cons.IH) simp_all
  qed
qed simp

lemma ReconcileReadyWork_ok: "returns_ok d (ReconcileReadyWork c manifests now checked d)"
proof (cases "inv d")
  case True
  let ?cs = "ready_candidates checked d"
  have d: "distinct (map r_id (db_runs d))" using True by (simp add: inv_def ids_ok_def)
  have m: "distinct (map r_id ?cs)"
    using d unfolding ready_candidates_def Let_def
    by (auto simp: distinct_map distinct_take inj_on_def dest!: in_set_takeD)
  have "q \<in> set (db_runs d) \<and> r_status q \<in> {R_QUEUED, R_RUNNING}" if "q \<in> set ?cs" for q
    using that unfolding ready_candidates_def Let_def by (auto dest!: in_set_takeD)
  then have "\<forall>q \<in> set ?cs. find_run d (r_id q) = Some q \<and> r_status q \<notin> {R_SUCCEEDED, R_CANCELLED}"
    using find_distinct [OF d] unfolding find_run_def by fastforce
  from repair_runs_ok [OF step_ok_refl m this] show ?thesis
    unfolding ReconcileReadyWork_def returns_ok_def by (rule holds_bind) auto
qed (auto simp: returns_ok_def holds_def step_ok_def)

end
