(* ===== verification/Spec2Isabelle.thy ===== *)
theory Spec2Isabelle
  imports Workflow_Validator Lease_Recovery
begin

text \<open>
  Deadbolt is a durable workflow engine: a control plane in Go over PostgreSQL.  A workflow is a graph of
  task, choice, merge, delay and approval nodes that belongs to a deployment; a run executes it; workers
  poll for ready steps, execute attempts under leases, and report results.  This development models the
  contracts a workflow is checked against and the execution engine, and proves what makes them correct.

  \<^bold>\<open>Conventions.\<close>  Go code is a HOL function.  An error is a value: \<open>'e + 'a\<close> with \<open>Inl\<close> the error, so every
  early return is a branch, and \<open>ebind\<close> is the \<open>if err != nil\<close> after a call.  Go's \<open>any\<close> is the datatype
  \<open>json\<close>, strings are lists of bytes, maps are association lists.  The tables are lists of rows in the
  record \<open>db\<close>; a transaction is a function \<open>db \<Rightarrow> engine_error + 'a\<close> whose statements are \<open>upd_*\<close> functions
  named after \<open>UPDATE\<close>, so a transaction that fails changes nothing.  A transaction reads the clock once,
  as its argument \<open>now\<close>, in nanoseconds; identifiers come from a counter.  One organisation is modelled:
  every query of the code is restricted to the caller's.  Code outside the repository is a parameter: the
  record \<open>externals\<close> (the JSON encoder, the canonicaliser, the JSON Schema library, SHA-256), the random
  jitter, the manifests of deployments, object storage.  Laws they are assumed to satisfy are hypotheses
  of the theorems that need them, with witnesses over concrete instances.

  \<^bold>\<open>Contracts\<close> (\<open>src/internal/contracts\<close>).  \<open>Json_Value\<close> and \<open>Json_Canonical\<close>: value checks, the raw byte
  guard and canonicalisation (\<open>canonical.go\<close>, \<open>raw.go\<close>), with the accepted values characterised and the
  nesting bounded.  \<open>Json_Mapping\<close>: pointers, references, input mapping and choice expressions
  (\<open>mapping.go\<close>): the pointer round trip, exactly when a mapping succeeds and what it depends on.
  \<open>Contract_Schema\<close>: payload schemas and tasks (\<open>schema.go\<close>, \<open>validator.go\<close>), with the soundness of the
  static guarantee that a pointer resolves.  \<open>Graph_Relations\<close>: the depth-first search of the validator
  and the relation loop of the engine, and that they agree.  \<open>Workflow_Validator\<close>: \<open>ValidateWorkflow\<close>; what
  an accepted workflow satisfies (structure, choice regions, mappings that cannot fail), and a gap.

  \<^bold>\<open>Engine\<close> (\<open>src/internal/execution\<close>).  \<open>Run_State\<close>, \<open>Retry_Policy\<close>, \<open>Deployment_Manifest\<close>: statuses, retry
  arithmetic (with Go's 64-bit durations) and manifest lookups.  \<open>Run_Store\<close>: the tables, the history of a
  run and failing a run.  \<open>Run_Invariant\<close>: what every transaction keeps: \<open>inv\<close>, the well-formedness of the
  tables, and \<open>extends\<close>, what a later state never takes back; one rule per statement.  \<open>Retry_Scheduler\<close>:
  retries, holds and timers.  \<open>Dag_Evaluator\<close>: the evaluation of the graph, its fixed point and the end of
  a run.  \<open>Evaluation_Law\<close>: what a relation has to satisfy to be kept by an evaluation, as locales that
  later theories interpret.  \<open>Run_Control\<close>: cancel, pause, resume and the deadline sweep.  \<open>Approvals\<close>,
  \<open>Reconciliation\<close>: human decisions.  \<open>Attempt_Engine\<close>: the worker's side of an attempt.  \<open>Lease_Recovery\<close>:
  the sweep of lost work and the repair of graphs.  Each shows that its transactions keep the invariant,
  and what each of them does on success.  \<open>Command_Store\<close>: idempotent commands (\<open>src/internal/tenant\<close>), as
  a locale over the stored commands with the log of a sequence of requests.

  \<^bold>\<open>Termination.\<close>  Every loop is a total function.  The evaluation of the graph repeats while a pass reports
  a change; it ends because a reported change lowers the number of blocked steps.  Nesting of JSON is
  bounded by 32 in the code and by structural recursion in the model; no fuel is used.

  \<^bold>\<open>Not modelled.\<close>  The HTTP layer, authentication, the agent, the object store, the broker, the command line
  and the TypeScript parts are input and output around the engine.  Row locks are not modelled: a
  transaction is atomic, which the code's lock order is there to ensure.  Payloads of events and audit
  records are not stored.  Limits of the batch queries are; rows skipped because another transaction
  holds them are not.
\<close>

end
